(* ===== verification/Fish_Prelude.thy ===== *)
theory Fish_Prelude
  imports Main "HOL-Library.Word"
begin

text \<open>
  Shared vocabulary of the FishOS development: the integer types of
  \<^verbatim>\<open>src/klib/types.hpp\<close>, the counting loop \<^verbatim>\<open>for (T i = a; i < n; i++)\<close>, the
  alignment helper of \<^verbatim>\<open>src/klib/algorithm.hpp\<close>, and the lemmas that move
  word arithmetic that does not wrap to natural numbers. The collection
  \<open>nowrap\<close> holds the latter.
\<close>

unbundle bit_operations_syntax

section \<open>Integer types\<close>

type_synonym u8 = "8 word"
type_synonym u16 = "16 word"
type_synonym u32 = "32 word"
type_synonym u64 = "64 word"
type_synonym usize = "64 word"
type_synonym uptr = "64 word"
type_synonym isize = "64 word"

named_theorems nowrap \<open>word operations that do not wrap, read as natural numbers\<close>

section \<open>Definitions\<close>

text \<open>A call either returns or ends in \<^verbatim>\<open>panic(message)\<close>, which never returns.\<close>

datatype 'a outcome = Returns 'a | Panics string

text \<open>An access through a null pointer in the kernel ends in the panic of the exception handler.\<close>

definition kernel_fault :: "'a outcome" where
  "kernel_fault = Panics ''Cannot recover from CPU exception that happened in the kernel''"

lemma unat_bound: "unat w < 2 ^ LENGTH('i)"
  for w :: "'i::len word"
  by (rule unsigned_less)

lemma unat_64: "unat w < 2 ^ 64"
  for w :: "64 word"
  using unsigned_less [of w] by simp

lemma unat_inc [nowrap]:
  fixes i n :: "'i::len word"
  assumes "i < n"
  shows "unat (i + 1) = Suc (unat i)"
proof -
  have "unat i + 1 \<le> unat n"
    using assms by (simp add: word_less_nat_alt)
  also have "\<dots> < 2 ^ LENGTH('i)"
    by (rule unat_bound)
  finally show ?thesis by (simp add: unat_word_ariths)
qed

text \<open>\<^verbatim>\<open>for (T i = a; i < n; i++) s = f(i, s)\<close> where the body leaves \<open>n\<close> alone.\<close>

function for_range :: "('i::len word \<Rightarrow> 's \<Rightarrow> 's) \<Rightarrow> 'i word \<Rightarrow> 'i word \<Rightarrow> 's \<Rightarrow> 's" where
  "for_range f i n s = (if i < n then for_range f (i + 1) n (f i s) else s)"
  by pat_completeness auto
termination
proof (relation "measure (\<lambda>(f, i, n, s). unat n - unat i)", goal_cases)
  case 1
  show ?case by simp
next
  case (2 f i n s)
  then have "unat (i + 1) = Suc (unat i)"
    by (rule unat_inc)
  with 2 show ?case
    by (simp add: word_less_nat_alt)
qed

declare for_range.simps [simp del]

text \<open>\<^verbatim>\<open>klib::min\<close>, \<^verbatim>\<open>klib::max\<close> and \<^verbatim>\<open>klib::align_up<T, alignment>\<close>.\<close>

definition klib_min :: "'i::len word \<Rightarrow> 'i word \<Rightarrow> 'i word" where
  "klib_min a b = (if b < a then b else a)"

definition klib_max :: "'i::len word \<Rightarrow> 'i word \<Rightarrow> 'i word" where
  "klib_max a b = (if a < b then b else a)"

definition align_up :: "'i::len word \<Rightarrow> 'i word \<Rightarrow> 'i word" where
  "align_up alignment i =
     (if i mod alignment \<noteq> 0 then (i div alignment + 1) * alignment else i)"

section \<open>Words that do not wrap\<close>

lemma unat_of_nat_small [nowrap]: "n < 2 ^ LENGTH('i) \<Longrightarrow> unat (of_nat n :: 'i::len word) = n"
  by (simp add: unat_of_nat take_bit_nat_eq_self)

lemma word_inc_le: "i < n \<Longrightarrow> i + 1 \<le> n"
  for i n :: "'i::len word"
  by (simp add: word_le_nat_alt word_less_nat_alt unat_inc Suc_leI)

lemma word_le_inc: "a \<le> i \<Longrightarrow> i < n \<Longrightarrow> a \<le> i + 1"
  for a i n :: "'i::len word"
  by (simp add: word_le_nat_alt unat_inc)

lemma unat_add_nowrap [nowrap]:
  "unat a + unat b < 2 ^ LENGTH('i) \<Longrightarrow> unat (a + b) = unat a + unat b"
  for a b :: "'i::len word"
  by (simp add: unat_word_ariths)

lemma unat_mult_nowrap [nowrap]:
  "unat a * unat b < 2 ^ LENGTH('i) \<Longrightarrow> unat (a * b) = unat a * unat b"
  for a b :: "'i::len word"
  by (simp add: unat_word_ariths)

lemma unat_sub_nowrap [nowrap]: "b \<le> a \<Longrightarrow> unat (a - b) = unat a - unat b"
  for a b :: "'i::len word"
  by (simp add: unat_sub)

section \<open>The counting loop\<close>

lemma for_range_done [simp]: "\<not> i < n \<Longrightarrow> for_range f i n s = s"
  by (simp add: for_range.simps)

lemma for_range_step: "i < n \<Longrightarrow> for_range f i n s = for_range f (i + 1) n (f i s)"
  by (simp add: for_range.simps [of f i n s])

text \<open>The invariant rule: what the body carries from \<open>i\<close> to \<open>i + 1\<close> holds at the end.\<close>

lemma for_range_inv:
  assumes "a \<le> n" and "P a s"
    and step: "\<And>i s. a \<le> i \<Longrightarrow> i < n \<Longrightarrow> P i s \<Longrightarrow> P (i + 1) (f i s)"
  shows "P n (for_range f a n s)"
proof -
  have "a \<le> i \<Longrightarrow> i \<le> n \<Longrightarrow> P i t \<Longrightarrow> P n (for_range f i n t)" for i t
  proof (induction "unat n - unat i" arbitrary: i t)
    case 0
    then have "i = n" by (simp add: word_le_nat_alt word_unat_eq_iff)
    with 0 show ?case by simp
  next
    case (Suc k)
    then have less: "i < n" by (simp add: word_less_nat_alt)
    have "P n (for_range f (i + 1) n (f i t))"
    proof (rule Suc.hyps(1))
      show "k = unat n - unat (i + 1)" using Suc.hyps(2) less by (simp add: unat_inc)
      show "a \<le> i + 1" using Suc.prems(1) less by (rule word_le_inc)
      show "i + 1 \<le> n" using less by (rule word_inc_le)
      show "P (i + 1) (f i t)" using Suc.prems(1,3) less by (intro step)
    qed
    with less show ?case by (simp add: for_range_step)
  qed
  with assms show ?thesis by simp
qed

end
