(* ===== verification/Kmem.thy ===== *)
theory Kmem
  imports Fish_Prelude
begin

text \<open>
  Byte memory and the routines that work on it: \<^verbatim>\<open>memcpy\<close>, \<^verbatim>\<open>memset\<close>,
  \<^verbatim>\<open>memmove\<close> and \<^verbatim>\<open>memcmp\<close> of \<^verbatim>\<open>src/klib/mem.asm\<close>, and the C string
  functions of \<^verbatim>\<open>src/klib/cstring.cpp\<close> (the copies of the test program are
  compared with them in \<open>Userland\<close>). Memory is a total function from
  addresses to bytes; address arithmetic wraps at \<open>2 ^ 64\<close> as the machine's does.
\<close>

type_synonym memory = "uptr \<Rightarrow> u8"

section \<open>Definitions\<close>

text \<open>\<^verbatim>\<open>rep stosb\<close> and \<^verbatim>\<open>rep movsb\<close>, the count register counting down to zero.\<close>

fun rep_stosb :: "memory \<Rightarrow> uptr \<Rightarrow> u8 \<Rightarrow> nat \<Rightarrow> memory" where
  "rep_stosb m rdi al 0 = m"
| "rep_stosb m rdi al (Suc rcx) = rep_stosb (m(rdi := al)) (rdi + 1) al rcx"

fun rep_movsb :: "memory \<Rightarrow> uptr \<Rightarrow> uptr \<Rightarrow> nat \<Rightarrow> memory" where
  "rep_movsb m rdi rsi 0 = m"
| "rep_movsb m rdi rsi (Suc rcx) = rep_movsb (m(rdi := m rsi)) (rdi + 1) (rsi + 1) rcx"

text \<open>The same with the direction flag set (\<^verbatim>\<open>std\<close>): both pointers step down.\<close>

fun rep_movsb_down :: "memory \<Rightarrow> uptr \<Rightarrow> uptr \<Rightarrow> nat \<Rightarrow> memory" where
  "rep_movsb_down m rdi rsi 0 = m"
| "rep_movsb_down m rdi rsi (Suc rcx) = rep_movsb_down (m(rdi := m rsi)) (rdi - 1) (rsi - 1) rcx"

definition memset :: "memory \<Rightarrow> uptr \<Rightarrow> u8 \<Rightarrow> usize \<Rightarrow> memory" where
  "memset m dst v n = rep_stosb m dst v (unat n)"

definition memcpy :: "memory \<Rightarrow> uptr \<Rightarrow> uptr \<Rightarrow> usize \<Rightarrow> memory" where
  "memcpy m dst src n = rep_movsb m dst src (unat n)"

definition memmove :: "memory \<Rightarrow> uptr \<Rightarrow> uptr \<Rightarrow> usize \<Rightarrow> memory" where
  "memmove m dst src n =
     (if dst > src
      then rep_movsb_down m (dst + n - 1) (src + n - 1) (unat n)
      else rep_movsb m dst src (unat n))"

text \<open>
  \<^verbatim>\<open>repe cmpsb\<close>: the zero flag and the two pointers it leaves. With a zero count
  it compares nothing and the flag keeps the value \<open>zf\<close> it had on entry.
\<close>

fun repe_cmpsb :: "memory \<Rightarrow> uptr \<Rightarrow> uptr \<Rightarrow> nat \<Rightarrow> bool \<Rightarrow> bool \<times> uptr \<times> uptr" where
  "repe_cmpsb m rdi rsi 0 zf = (zf, rdi, rsi)"
| "repe_cmpsb m rdi rsi (Suc rcx) zf =
     (if m rdi = m rsi then repe_cmpsb m (rdi + 1) (rsi + 1) rcx True
      else (False, rdi + 1, rsi + 1))"

definition memcmp :: "memory \<Rightarrow> bool \<Rightarrow> uptr \<Rightarrow> uptr \<Rightarrow> usize \<Rightarrow> u32" where
  "memcmp m zf lhs rhs n =
     (case repe_cmpsb m lhs rhs (unat n) zf of
        (equal, rdi, rsi) \<Rightarrow> if equal then 0 else scast (m (rdi - 1) - m (rsi - 1)))"

text \<open>
  The C string loops run until they meet a zero byte; \<open>None\<close> is a loop that never
  meets one.
\<close>

partial_function (option) strlen_from :: "memory \<Rightarrow> uptr \<Rightarrow> usize \<Rightarrow> usize option" where
  "strlen_from m str len =
     (if m (str + len) \<noteq> 0 then strlen_from m str (len + 1) else Some len)"

definition strlen :: "memory \<Rightarrow> uptr \<Rightarrow> usize option" where
  "strlen m str = strlen_from m str 0"

definition strcpy :: "memory \<Rightarrow> uptr \<Rightarrow> uptr \<Rightarrow> memory option" where
  "strcpy m dst src = map_option (\<lambda>n. memcpy m dst src (n + 1)) (strlen m src)"

definition strcat :: "memory \<Rightarrow> uptr \<Rightarrow> uptr \<Rightarrow> memory option" where
  "strcat m dst src = Option.bind (strlen m dst) (\<lambda>n. strcpy m (dst + n) src)"

text \<open>The bytes of the C string at an address.\<close>

definition c_string :: "memory \<Rightarrow> uptr \<Rightarrow> u8 list option" where
  "c_string m a = map_option (\<lambda>n. map (\<lambda>i. m (a + of_nat i)) [0..<unat n]) (strlen m a)"

definition bytes_at :: "memory \<Rightarrow> uptr \<Rightarrow> nat \<Rightarrow> u8 list" where
  "bytes_at m a n = map (\<lambda>i. m (a + of_nat i)) [0..<n]"

text \<open>Storing a value of a fixed size, byte by byte.\<close>

definition store_bytes :: "memory \<Rightarrow> uptr \<Rightarrow> u8 list \<Rightarrow> memory" where
  "store_bytes m a bs = (\<lambda>x. if unat (x - a) < length bs then bs ! unat (x - a) else m x)"

text \<open>The difference of two \<^verbatim>\<open>unsigned char\<close>s, promoted to \<^verbatim>\<open>int\<close>.\<close>

definition byte_diff :: "u8 \<Rightarrow> u8 \<Rightarrow> u32" where
  "byte_diff x y = ucast x - ucast y"

partial_function (option) strcmp :: "memory \<Rightarrow> uptr \<Rightarrow> uptr \<Rightarrow> u32 option" where
  "strcmp m lhs rhs =
     (if m lhs \<noteq> 0 \<and> m lhs = m rhs then strcmp m (lhs + 1) (rhs + 1)
      else Some (byte_diff (m lhs) (m rhs)))"

fun strncmp_loop :: "memory \<Rightarrow> uptr \<Rightarrow> uptr \<Rightarrow> nat \<Rightarrow> u32" where
  "strncmp_loop m lhs rhs 0 = 0"
| "strncmp_loop m lhs rhs (Suc count) =
     (if m lhs \<noteq> 0 \<and> m lhs = m rhs then strncmp_loop m (lhs + 1) (rhs + 1) count
      else byte_diff (m lhs) (m rhs))"

definition strncmp :: "memory \<Rightarrow> uptr \<Rightarrow> uptr \<Rightarrow> usize \<Rightarrow> u32" where
  "strncmp m lhs rhs count = strncmp_loop m lhs rhs (unat count)"

partial_function (option) strchr :: "memory \<Rightarrow> uptr \<Rightarrow> u8 \<Rightarrow> uptr option option" where
  "strchr m str c =
     (if m str \<noteq> c then (if m str = 0 then Some None else strchr m (str + 1) c)
      else Some (Some str))"

text \<open>Little-endian words in byte memory.\<close>

definition read64 :: "memory \<Rightarrow> uptr \<Rightarrow> u64" where
  "read64 m a =
     ucast (m a) OR push_bit 8 (ucast (m (a + 1))) OR push_bit 16 (ucast (m (a + 2))) OR
     push_bit 24 (ucast (m (a + 3))) OR push_bit 32 (ucast (m (a + 4))) OR push_bit 40 (ucast (m (a + 5))) OR
     push_bit 48 (ucast (m (a + 6))) OR push_bit 56 (ucast (m (a + 7)))"

definition byte_of :: "u64 \<Rightarrow> nat \<Rightarrow> u8" where
  "byte_of v i = ucast (drop_bit (8 * i) v)"

definition write64 :: "memory \<Rightarrow> uptr \<Rightarrow> u64 \<Rightarrow> memory" where
  "write64 m a v = (\<lambda>x. if x - a < 8 then byte_of v (unat (x - a)) else m x)"

definition read16 :: "memory \<Rightarrow> uptr \<Rightarrow> u16" where
  "read16 m a = ucast (m a) OR push_bit 8 (ucast (m (a + 1)))"

definition read32 :: "memory \<Rightarrow> uptr \<Rightarrow> u32" where
  "read32 m a = ucast (m a) OR push_bit 8 (ucast (m (a + 1))) OR push_bit 16 (ucast (m (a + 2))) OR push_bit 24 (ucast (m (a + 3)))"

text \<open>The bytes from \<open>a\<close> on are the string \<open>s\<close> and its terminating zero.\<close>

primrec cstr :: "memory \<Rightarrow> uptr \<Rightarrow> u8 list \<Rightarrow> bool" where
  "cstr m a [] \<longleftrightarrow> m a = 0"
| "cstr m a (c # s) \<longleftrightarrow> m a = c \<and> c \<noteq> 0 \<and> cstr m (a + 1) s"

section \<open>Words in memory\<close>

lemma byte_slice: "(push_bit k (ucast (ucast (drop_bit k v) :: u8)) :: u64) = v AND push_bit k (mask 8)"
  by (rule bit_word_eqI) (auto simp: bit_simps)

lemma read64_write64 [simp]: "read64 (write64 m a v) a = v"
proof -
  have "read64 (write64 m a v) a = v AND (mask 8 OR push_bit 8 (mask 8) OR push_bit 16 (mask 8) OR push_bit 24 (mask 8) OR push_bit 32 (mask 8) OR push_bit 40 (mask 8) OR push_bit 48 (mask 8) OR push_bit 56 (mask 8))"
    using byte_slice [of 0 v] by (simp add: read64_def write64_def byte_of_def byte_slice bit.conj_disj_distrib del: push_bit_numeral push_bit_of_Suc_0)
  also have "mask 8 OR push_bit 8 (mask 8) OR push_bit 16 (mask 8) OR push_bit 24 (mask 8) OR push_bit 32 (mask 8) OR push_bit 40 (mask 8) OR push_bit 48 (mask 8) OR push_bit 56 (mask 8) = (-1::u64)"
    by (simp add: mask_eq_exp_minus_1)
  finally show ?thesis by simp
qed

section \<open>Block operations\<close>

lemma unat_minus_1: "unat (- 1 :: uptr) = 2 ^ 64 - 1"
  by (simp add: unsigned_minus_1_eq_mask mask_eq_exp_minus_1)

lemma unat_minus_one_less: "a \<noteq> d \<Longrightarrow> unat (a - (d + 1)) = unat (a - d) - 1"
  for a d :: uptr
proof -
  assume "a \<noteq> d"
  then have "1 \<le> a - d" by (simp add: word_le_nat_alt Suc_le_eq unat_gt_0)
  then have "unat (a - d - 1) = unat (a - d) - 1" by (simp add: unat_sub)
  then show ?thesis by (simp add: algebra_simps)
qed

lemma rep_stosb_apply:
  "n \<le> 2 ^ 64 \<Longrightarrow> rep_stosb m d v n a = (if unat (a - d) < n then v else m a)"
proof (induction n arbitrary: m d)
  case 0
  then show ?case by simp
next
  case (Suc n)
  show ?case
  proof (cases "a = d")
    case True
    have "\<not> unat (d - (d + 1)) < n"
      using Suc.prems by (simp add: unat_minus_1)
    with True Suc show ?thesis by simp
  next
    case False
    then have "0 < unat (a - d)" by (simp add: unat_gt_0)
    then have "unat (a - (d + 1)) < n \<longleftrightarrow> unat (a - d) < Suc n"
      using unat_minus_one_less [OF False] by linarith
    with False Suc show ?thesis by simp
  qed
qed

lemma memset_apply:
  "memset m d v n a = (if a - d < n then v else m a)"
  using unat_bound [of n] by (simp add: memset_def rep_stosb_apply word_less_nat_alt)

text \<open>A forward copy is exact unless the destination starts inside the source region.\<close>

lemma rep_movsb_apply:
  "n \<le> 2 ^ 64 \<Longrightarrow> d = s \<or> n \<le> unat (d - s) \<Longrightarrow>
   rep_movsb m d s n a = (if unat (a - d) < n then m (s + (a - d)) else m a)"
proof (induction n arbitrary: m d s)
  case 0
  then show ?case by simp
next
  case (Suc n)
  let ?m = "m(d := m s)"
  have ih: "rep_movsb ?m (d + 1) (s + 1) n a =
      (if unat (a - (d + 1)) < n then ?m (s + 1 + (a - (d + 1))) else ?m a)"
    using Suc.prems by (intro Suc.IH) auto
  have step: "s + 1 + (a - (d + 1)) = s + (a - d)" by simp
  show ?case
  proof (cases "a = d")
    case True
    have "\<not> unat (d - (d + 1)) < n"
      using Suc.prems by (simp add: unat_minus_1)
    with True ih show ?thesis by simp
  next
    case False
    then have "0 < unat (a - d)" by (simp add: unat_gt_0)
    then have iff: "unat (a - (d + 1)) < n \<longleftrightarrow> unat (a - d) < Suc n"
      using unat_minus_one_less [OF False] by linarith
    have "s + (a - d) \<noteq> d" if "unat (a - d) < Suc n"
    proof
      assume "s + (a - d) = d"
      then have "a - d = d - s" by (metis add_diff_cancel_left')
      with that Suc.prems False show False by auto
    qed
    with False ih iff step show ?thesis by simp
  qed
qed

lemma rep_movsb_down_apply:
  "n \<le> 2 ^ 64 \<Longrightarrow> d = s \<or> n \<le> unat (s - d) \<Longrightarrow>
   rep_movsb_down m d s n a = (if unat (d - a) < n then m (s - (d - a)) else m a)"
proof (induction n arbitrary: m d s)
  case 0
  then show ?case by simp
next
  case (Suc n)
  let ?m = "m(d := m s)"
  have ih: "rep_movsb_down ?m (d - 1) (s - 1) n a =
      (if unat (d - 1 - a) < n then ?m (s - (d - a)) else ?m a)"
  proof -
    have "s - 1 - (d - 1 - a) = s - (d - a)" by simp
    moreover have "n \<le> 2 ^ 64" "d - 1 = s - 1 \<or> n \<le> unat (s - 1 - (d - 1))"
      using Suc.prems by auto
    ultimately show ?thesis using Suc.IH [of "d - 1" "s - 1" ?m] by metis
  qed
  show ?case
  proof (cases "a = d")
    case True
    have "\<not> unat (d - 1 - d) < n"
      using Suc.prems by (simp add: unat_minus_1)
    with True ih show ?thesis by simp
  next
    case False
    then have "0 < unat (d - a)" by (simp add: unat_gt_0)
    moreover have "unat (d - 1 - a) = unat (d - a) - 1"
      using unat_minus_one_less [of d a] False by (simp add: algebra_simps)
    ultimately have iff: "unat (d - 1 - a) < n \<longleftrightarrow> unat (d - a) < Suc n"
      by linarith
    have "s - (d - a) \<noteq> d" if "unat (d - a) < Suc n"
    proof
      assume "s - (d - a) = d"
      then have "d - a = s - d" by (simp add: algebra_simps)
      with that Suc.prems False show False by auto
    qed
    with False ih iff show ?thesis by simp
  qed
qed

text \<open>Counting down from the last of \<open>n\<close> bytes visits the offsets below \<open>n\<close>.\<close>

lemma sub_below_flip: "n - 1 - x < n \<longleftrightarrow> x < n"
  for n x :: uptr
proof (cases "x < n")
  case True
  then have nz: "n \<noteq> 0" by auto
  with True have "x \<le> n - 1"
    by (simp add: word_le_nat_alt word_less_nat_alt unat_minus_one)
  then show ?thesis using True nz
    by (simp add: word_less_nat_alt unat_sub unat_minus_one)
next
  case False
  have "unat (n - 1 - x) \<ge> unat n"
  proof (cases "n = 0")
    case nz: False
    then have pos: "0 < unat n" by (simp add: unat_gt_0)
    moreover from False have le: "unat n \<le> unat x" by (simp add: word_less_nat_alt)
    ultimately have "unat n - 1 < unat x" by linarith
    with nz have "unat (n - 1 - x) = 2 ^ 64 - (unat x - (unat n - 1))"
      using unat_bound [of x] by (simp add: unat_sub_if_size [of "n - 1"] word_size unat_minus_one)
    with pos le unat_bound [of x] show ?thesis by simp
  qed simp
  with False show ?thesis by (simp add: word_less_nat_alt)
qed

lemma memcpy_apply:
  "d = s \<or> n \<le> d - s \<Longrightarrow>
   memcpy m d s n a = (if a - d < n then m (s + (a - d)) else m a)"
  using unat_bound [of n]
  by (simp add: memcpy_def rep_movsb_apply word_less_nat_alt word_le_nat_alt)

text \<open>
  \<^verbatim>\<open>memmove\<close> copies the bytes the source region held on entry, whatever the
  overlap of the two regions, and writes nothing else, for regions that do not wrap
  past the end of the address space.
\<close>

theorem memmove_correct:
  assumes "unat dst + unat n \<le> 2 ^ 64" and "unat src + unat n \<le> 2 ^ 64"
  shows "memmove m dst src n a = (if a - dst < n then m (src + (a - dst)) else m a)"
proof (cases "dst > src")
  case False
  have "dst = src \<or> unat n \<le> unat (dst - src)"
  proof (cases "dst = src")
    case neq: False
    with False have "unat dst < unat src" by (simp flip: word_less_nat_alt)
    then have "unat (dst - src) = 2 ^ 64 - (unat src - unat dst)"
      by (simp add: unat_sub_if_size word_size)
    with assms have "unat n \<le> unat (dst - src)" by linarith
    then show ?thesis ..
  qed simp
  then show ?thesis
    using False unat_bound [of n] by (simp add: memmove_def rep_movsb_apply word_less_nat_alt)
next
  case True
  let ?d = "dst + n - 1" and ?s = "src + n - 1"
  have "unat n \<le> unat (src - dst)"
  proof -
    from True have "unat src < unat dst" by (simp add: word_less_nat_alt)
    then have "unat (src - dst) = 2 ^ 64 - (unat dst - unat src)"
      by (simp add: unat_sub_if_size word_size)
    with assms show ?thesis by linarith
  qed
  moreover have "?s - ?d = src - dst" by simp
  ultimately have "memmove m dst src n a =
      (if unat (?d - a) < unat n then m (?s - (?d - a)) else m a)"
    using True unat_bound [of n] by (simp add: memmove_def rep_movsb_down_apply)
  moreover have "?s - (?d - a) = src + (a - dst)" by simp
  moreover have "unat (?d - a) < unat n \<longleftrightarrow> a - dst < n"
    using sub_below_flip [of n "a - dst"] by (simp add: word_less_nat_alt algebra_simps)
  ultimately show ?thesis by simp
qed

theorem memmove_correct_witness:
  "memmove (\<lambda>a. ucast a) 2 0 4 5 = 3"
  using memmove_correct [of 2 4 0 "\<lambda>a. ucast a" 5] by simp

lemma repe_cmpsb_spec:
  "repe_cmpsb m l r n zf = (eq, rdi, rsi) \<Longrightarrow> 0 < n \<Longrightarrow>
   (eq \<longleftrightarrow> (\<forall>i<n. m (l + of_nat i) = m (r + of_nat i))) \<and>
   (\<not> eq \<longrightarrow> m (rdi - 1) \<noteq> m (rsi - 1))"
proof (induction n arbitrary: l r zf)
  case 0
  then show ?case by simp
next
  case (Suc n)
  show ?case
  proof (cases "m l = m r")
    case True
    show ?thesis
    proof (cases n)
      case 0
      with True Suc.prems show ?thesis by auto
    next
      case (Suc k)
      with True Suc.prems Suc.IH [of "l + 1" "r + 1" True]
      have "(eq \<longleftrightarrow> (\<forall>i<n. m (l + 1 + of_nat i) = m (r + 1 + of_nat i))) \<and>
            (\<not> eq \<longrightarrow> m (rdi - 1) \<noteq> m (rsi - 1))"
        by simp
      then show ?thesis
        using True by (auto simp: less_Suc_eq_0_disj add.assoc)
    qed
  next
    case False
    with Suc.prems show ?thesis by force
  qed
qed

lemma scast_8_32_eq_0: "(scast z :: u32) = 0 \<longleftrightarrow> z = 0"
  for z :: u8
proof
  assume z: "(scast z :: u32) = 0"
  show "z = 0"
  proof (rule bit_word_eqI)
    fix n assume "n < LENGTH(8)"
    then have "bit (scast z :: u32) n = bit z n" by (auto simp: bit_signed_iff)
    with z show "bit z n = bit 0 n" by simp
  qed
qed simp

text \<open>
  For a non-zero count \<^verbatim>\<open>memcmp\<close> returns 0 exactly when the two regions hold
  the same bytes; the callers in the kernel only test for 0.
\<close>

lemma memcmp_eq_0:
  assumes "n \<noteq> 0"
  shows "memcmp m zf l r n = 0 \<longleftrightarrow> (\<forall>i < unat n. m (l + of_nat i) = m (r + of_nat i))"
proof -
  obtain eq rdi rsi where r: "repe_cmpsb m l r (unat n) zf = (eq, rdi, rsi)"
    by (metis prod_cases3)
  show ?thesis
    using repe_cmpsb_spec [OF r] assms r
    by (auto simp: memcmp_def scast_8_32_eq_0 unat_gt_0)
qed

lemma bytes_at_store [simp]: "length bs < 2 ^ 64 \<Longrightarrow> bytes_at (store_bytes m a bs) a (length bs) = bs"
  by (auto simp: bytes_at_def store_bytes_def unat_of_nat_small intro!: nth_equalityI)

lemma bytes_at_cong: "(\<And>i. i < n \<Longrightarrow> m' (a + of_nat i) = m (a + of_nat i)) \<Longrightarrow> bytes_at m' a n = bytes_at m a n"
  by (simp add: bytes_at_def)

lemma store_bytes_frame:
  assumes "unat a + length bs \<le> 2 ^ 64" and "unat x \<notin> {unat a..<unat a + length bs}"
  shows "store_bytes m a bs x = m x"
proof -
  have "\<not> unat (x - a) < length bs" using assms
    by (cases "a \<le> x") (auto simp: word_le_nat_alt unat_sub_if_size word_size)
  then show ?thesis by (simp add: store_bytes_def)
qed

lemma bytes_at_nth: "bytes_at m a n = bs \<Longrightarrow> i < n \<Longrightarrow> m (a + of_nat i) = bs ! i"
  by (auto simp: bytes_at_def)

lemma bytes_at_take: "bytes_at m a n = bs \<Longrightarrow> k \<le> n \<Longrightarrow> bytes_at m a k = take k bs"
  by (auto simp: bytes_at_def take_map)

lemma bytes_at_rec: "bytes_at m a n = (if n = 0 then [] else m a # bytes_at m (a + 1) (n - 1))"
  by (cases n) (simp_all add: bytes_at_def upt_conv_Cons map_Suc_upt [symmetric] comp_def add.assoc del: upt_Suc)

section \<open>C strings\<close>

lemma strlen_from_cstr:
  "cstr m (a + k) s \<Longrightarrow> strlen_from m a k = Some (k + of_nat (length s))"
proof (induction s arbitrary: k)
  case Nil
  then show ?case by (simp add: strlen_from.simps)
next
  case (Cons c s)
  then have "strlen_from m a (k + 1) = Some (k + 1 + of_nat (length s))"
    by (intro Cons.IH) (simp add: add.assoc)
  with Cons.prems show ?case by (simp add: strlen_from.simps [of m a k] algebra_simps)
qed

lemma strlen_cstr: "cstr m a s \<Longrightarrow> strlen m a = Some (of_nat (length s))"
  using strlen_from_cstr [of m a 0 s] by (simp add: strlen_def)

lemma bytes_at_append: "bytes_at m a (k + n) = bytes_at m a k @ bytes_at m (a + of_nat k) n"
proof -
  have "map (\<lambda>i. m (a + of_nat i)) [k..<k + n] = map (\<lambda>i. m (a + of_nat k + of_nat i)) [0..<n]"
    by (rule nth_equalityI) (simp_all add: add.assoc)
  then show ?thesis by (simp add: bytes_at_def upt_add_eq_append [of 0 k n, simplified])
qed

lemma bytes_at_length [simp]: "length (bytes_at m a n) = n"
  by (simp add: bytes_at_def)

lemma bytes_at_split:
  assumes "bytes_at m a n = xs @ ys"
  shows "bytes_at m a (length xs) = xs" "bytes_at m (a + of_nat (length xs)) (length ys) = ys"
proof -
  have "n = length xs + length ys" using arg_cong [OF assms, of length] by simp
  then have "bytes_at m a (length xs) @ bytes_at m (a + of_nat (length xs)) (length ys) = xs @ ys" using assms by (simp add: bytes_at_append)
  then show "bytes_at m a (length xs) = xs" "bytes_at m (a + of_nat (length xs)) (length ys) = ys" by simp_all
qed

lemma bytes_at_middle: "bytes_at m a n = xs @ ys @ zs \<Longrightarrow> bytes_at m (a + of_nat (length xs)) (length ys) = ys"
  using bytes_at_split(2) [of m a n xs "ys @ zs"] bytes_at_split(1) [of m _ _ ys zs] by blast

lemma cstr_bytes: "bytes_at m a (Suc (length s)) = s @ [0] \<Longrightarrow> 0 \<notin> set s \<Longrightarrow> cstr m a s"
proof (induction s arbitrary: a)
  case (Cons c s)
  then show ?case by (simp add: bytes_at_rec [of m a "Suc (Suc (length s))"])
qed (simp add: bytes_at_def)

lemma cstr_nth: "cstr m a s \<Longrightarrow> i < length s \<Longrightarrow> m (a + of_nat i) = s ! i"
proof (induction s arbitrary: a i)
  case (Cons c s)
  then show ?case by (cases i) (auto simp: add.assoc [symmetric])
qed simp

lemma c_string_cstr: "cstr m a s \<Longrightarrow> length s < 2 ^ 64 \<Longrightarrow> c_string m a = Some s"
proof -
  assume s: "cstr m a s" "length s < 2 ^ 64"
  have "unat (of_nat (length s) :: usize) = length s" using s(2) by (intro unat_of_nat_small) simp
  then show ?thesis using s(1) by (simp add: c_string_def strlen_cstr) (auto intro!: nth_equalityI simp: cstr_nth)
qed

lemma sint_word_of_int_32: "- 2147483648 \<le> k \<Longrightarrow> k < 2147483648 \<Longrightarrow> sint (word_of_int k :: u32) = k"
  by (simp add: signed_of_int signed_take_bit_int_eq_self)

lemma sint_byte_diff: "sint (byte_diff x y) = uint x - uint y"
proof -
  have "byte_diff x y = word_of_int (uint x - uint y)"
    by (simp only: byte_diff_def ucast_eq wi_hom_sub)
  moreover have "sint (word_of_int (uint x - uint y) :: u32) = uint x - uint y"
  proof (rule sint_word_of_int_32)
    have b: "uint x < 256" "uint y < 256"
      using uint_lt2p [of x] uint_lt2p [of y] by simp_all
    show "- 2147483648 \<le> uint x - uint y"
      using b uint_ge_0 [of x] by linarith
    show "uint x - uint y < 2147483648"
      using b uint_ge_0 [of y] by linarith
  qed
  ultimately show ?thesis by metis
qed

lemma byte_diff_neg [simp]: "sint (byte_diff x y) < 0 \<longleftrightarrow> x < y"
  by (simp add: sint_byte_diff word_less_def)

lemma byte_diff_0 [simp]: "byte_diff x y = 0 \<longleftrightarrow> x = y"
proof
  assume "byte_diff x y = 0"
  then have "sint (byte_diff x y) = 0" by simp
  then show "x = y" by (simp add: sint_byte_diff word_uint_eq_iff)
qed (simp add: byte_diff_def)

lemma strcmp_cstr:
  "cstr m a s \<Longrightarrow> cstr m b t \<Longrightarrow>
   \<exists>r. strcmp m a b = Some r \<and> (r = 0 \<longleftrightarrow> s = t) \<and> (sint r < 0 \<longleftrightarrow> ord.lexordp (<) s t)"
proof (induction s arbitrary: a b t)
  case Nil
  then show ?case
    by (cases t) (auto simp: strcmp.simps [of m a b] word_gt_0)
next
  case (Cons c s)
  show ?case
  proof (cases t)
    case Nil
    with Cons.prems show ?thesis
      by (simp add: strcmp.simps [of m a b])
  next
    case (Cons d t')
    note t = this
    show ?thesis
    proof (cases "c = d")
      case True
      with Cons.prems t Cons.IH [of "a + 1" "b + 1" t'] show ?thesis
        by (simp add: strcmp.simps [of m a b])
    next
      case False
      with Cons.prems t show ?thesis
        by (auto simp: strcmp.simps [of m a b])
    qed
  qed
qed

lemma strncmp_loop_cstr:
  "cstr m a s \<Longrightarrow> cstr m b t \<Longrightarrow> strncmp_loop m a b n = 0 \<longleftrightarrow> take n s = take n t"
proof (induction n arbitrary: a b s t)
  case 0
  then show ?case by simp
next
  case (Suc n)
  then show ?case
    by (cases s; cases t) auto
qed

lemma strchr_cstr:
  "cstr m a s \<Longrightarrow> c \<noteq> 0 \<Longrightarrow>
   strchr m a c = Some (if c \<in> set s
     then Some (a + of_nat (length (takeWhile (\<lambda>x. x \<noteq> c) s))) else None)"
proof (induction s arbitrary: a)
  case Nil
  then show ?case by (simp add: strchr.simps)
next
  case (Cons x s)
  then show ?case
    by (auto simp: strchr.simps [of m a c] algebra_simps)
qed

lemma cstr_cong:
  "(\<And>i. i \<le> length s \<Longrightarrow> m' (b + of_nat i) = m (a + of_nat i)) \<Longrightarrow> cstr m' b s = cstr m a s"
proof (induction s arbitrary: a b)
  case Nil
  from Nil [of 0] show ?case by simp
next
  case (Cons c s)
  have "cstr m' (b + 1) s = cstr m (a + 1) s"
    using Cons.prems [of "Suc i" for i] by (intro Cons.IH) (simp add: add.assoc)
  with Cons.prems [of 0] show ?case by simp
qed

text \<open>
  \<^verbatim>\<open>strcmp\<close> returns on any two NUL-terminated strings; its result is 0 exactly
  when they are equal and negative exactly when the first is smaller in the
  lexicographic order of unsigned bytes.
\<close>

theorem strcmp_correct:
  assumes "cstr m lhs s" and "cstr m rhs t"
  shows "\<exists>r. strcmp m lhs rhs = Some r \<and> (r = 0 \<longleftrightarrow> s = t) \<and>
           (sint r < 0 \<longleftrightarrow> ord.lexordp (<) s t)"
  using assms by (rule strcmp_cstr)

text \<open>
  \<^verbatim>\<open>strcpy\<close> onto a region the source string does not reach leaves a copy of the
  string at the destination and changes no byte outside of its \<^verbatim>\<open>strlen + 1\<close> bytes.
\<close>

lemma strcpy_correct:
  assumes str: "cstr m src s" and len: "length s < 2 ^ 63"
    and disj: "of_nat (length s) < dst - src"
  shows "\<exists>m'. strcpy m dst src = Some m' \<and> cstr m' dst s \<and>
           (\<forall>a. of_nat (length s) < a - dst \<longrightarrow> m' a = m a)"
proof -
  let ?n = "of_nat (length s) :: usize"
  have n: "unat ?n = length s" using len by (simp add: unat_of_nat_small)
  have n1: "unat (?n + 1) = length s + 1"
    using unat_inc [OF disj] n by simp
  have "?n + 1 \<le> dst - src" using disj by (rule word_inc_le)
  then have ap: "memcpy m dst src (?n + 1) a =
      (if a - dst < ?n + 1 then m (src + (a - dst)) else m a)" for a
    by (intro memcpy_apply) simp
  have "cstr (memcpy m dst src (?n + 1)) dst s = cstr m src s"
  proof (rule cstr_cong)
    fix i assume "i \<le> length s"
    then have "(of_nat i :: usize) < ?n + 1"
      using n1 len by (simp add: word_less_nat_alt unat_of_nat_small)
    then show "memcpy m dst src (?n + 1) (dst + of_nat i) = m (src + of_nat i)"
      by (simp add: ap)
  qed
  moreover have "\<not> a - dst < ?n + 1" if "?n < a - dst" for a
    using that n n1 by (simp add: word_less_nat_alt)
  ultimately show ?thesis
    using str by (simp add: strcpy_def strlen_cstr ap)
qed

theorem strcmp_correct_witness:
  "\<exists>r. strcmp ((\<lambda>_. 0)(0 := 97, 8 := 98)) 0 8 = Some r \<and> sint r < 0"
proof -
  let ?m = "((\<lambda>_. 0)(0 := 97, 8 := 98)) :: memory"
  have "cstr ?m 0 [97]" and "cstr ?m 8 [98]" by simp_all
  from strcmp_correct [OF this] show ?thesis by auto
qed

end
