(* ===== verification/Buddy_Alloc.thy ===== *)
theory Buddy_Alloc
  imports Kmem "HOL-Library.Monad_Syntax"
begin

text \<open>
  The kernel heap, \<^verbatim>\<open>mem::BuddyAlloc\<close> of \<^verbatim>\<open>src/mem/allocator.hpp\<close> and \<^verbatim>\<open>allocator.cpp\<close>, with
  the wrappers of \<^verbatim>\<open>src/klib/cstdlib.cpp\<close>. Block headers live in byte memory: an
  eight-byte little-endian size followed by the \<^verbatim>\<open>is_free\<close> byte. The loops are
  \<open>partial_function (option)\<close>, where \<open>None\<close> means that the call does not return.
  \<open>tiles\<close> says that the blocks cover the heap without gaps; \<open>rearranges\<close> is what splitting
  and merging may do to it: allocated blocks and every byte outside free blocks stay.
  The lock that every entry point holds is the subject of the theory of spinlocks.
\<close>

unbundle bit_operations_syntax

section \<open>Block headers\<close>

text \<open>\<^verbatim>\<open>Block\<close> has \<^verbatim>\<open>size\<close> at offset 0, \<^verbatim>\<open>is_free\<close> at offset 8 and \<^verbatim>\<open>sizeof(Block) = 16\<close>.\<close>

definition blk_size :: "memory \<Rightarrow> uptr \<Rightarrow> usize" where
  "blk_size m b = read64 m b"

definition blk_free :: "memory \<Rightarrow> uptr \<Rightarrow> bool" where
  "blk_free m b = (m (b + 8) \<noteq> 0)"

definition set_size :: "memory \<Rightarrow> uptr \<Rightarrow> usize \<Rightarrow> memory" where
  "set_size m b v = write64 m b v"

definition set_free :: "memory \<Rightarrow> uptr \<Rightarrow> bool \<Rightarrow> memory" where
  "set_free m b v = m(b + 8 := (if v then 1 else 0))"

definition sizeof_Block :: usize where
  "sizeof_Block = 16"

definition blk_data :: "uptr \<Rightarrow> uptr" where
  "blk_data b = b + sizeof_Block"

section \<open>Operations\<close>

record BuddyAlloc =
  ba_head :: uptr
  ba_tail :: uptr

definition ba_alignment :: usize where
  "ba_alignment = 16"

definition ba_align :: "usize \<Rightarrow> usize" where
  "ba_align i = (if i mod ba_alignment \<noteq> 0 then (i div ba_alignment + 1) * ba_alignment else i)"

partial_function (option) size_required_loop :: "usize \<Rightarrow> usize \<Rightarrow> usize option" where
  "size_required_loop sz actual_size =
     (if sz > actual_size then size_required_loop sz (actual_size * 2) else Some actual_size)"

definition size_required :: "usize \<Rightarrow> usize option" where
  "size_required sz = size_required_loop (ba_align sz) ba_alignment"

definition blk_next :: "memory \<Rightarrow> uptr \<Rightarrow> uptr option" where
  "blk_next m b = do { n \<leftarrow> size_required (blk_size m b); Some (b + n) }"

partial_function (option) split_loop :: "usize \<Rightarrow> memory \<Rightarrow> uptr \<Rightarrow> usize \<Rightarrow> (memory \<times> uptr \<times> usize) option" where
  "split_loop sz m block current_actual_size =
     (if sz < current_actual_size then
        do {
          let cur = current_actual_size div 2;
          let m1 = set_size m block cur;
          block' \<leftarrow> blk_next m1 block;
          let m2 = set_size m1 block' cur;
          let m3 = set_free m2 block' True;
          split_loop sz m3 block' cur
        }
      else Some (m, block, current_actual_size))"

text \<open>The null pointer is address 0.\<close>

definition split_until :: "memory \<Rightarrow> uptr \<Rightarrow> usize \<Rightarrow> (memory \<times> uptr) option" where
  "split_until m this sz =
     (if sz = 0 then Some (m, 0)
      else do {
        cur \<leftarrow> size_required (blk_size m this);
        (m', block, cur') \<leftarrow> split_loop sz m this cur;
        Some (m', if sz \<le> cur' then block else 0)
      })"

definition ba_init :: "memory \<Rightarrow> uptr \<Rightarrow> usize \<Rightarrow> (memory \<times> BuddyAlloc) option" where
  "ba_init m base sz =
     do {
       let m1 = set_size m base sz;
       let m2 = set_free m1 base True;
       tl \<leftarrow> blk_next m2 base;
       Some (m2, \<lparr>ba_head = base, ba_tail = tl\<rparr>)
     }"

partial_function (option) find_best_loop ::
    "uptr \<Rightarrow> usize \<Rightarrow> memory \<Rightarrow> uptr \<Rightarrow> uptr \<Rightarrow> uptr \<Rightarrow> (memory \<times> uptr) option" where
  "find_best_loop tail sz m best block buddy =
     (if block < tail \<and> buddy < tail then
        if blk_free m block \<and> blk_free m buddy \<and> blk_size m block = blk_size m buddy then
          do {
            let m1 = set_size m block (blk_size m block * 2);
            let best' = (if sz \<le> blk_size m1 block \<and> (best = 0 \<or> blk_size m1 block \<le> blk_size m1 best)
                         then block else best);
            block' \<leftarrow> blk_next m1 buddy;
            buddy' \<leftarrow> (if block' < tail then blk_next m1 block' else Some buddy);
            find_best_loop tail sz m1 best' block' buddy'
          }
        else
          do {
            absz \<leftarrow> (if best \<noteq> 0 then size_required (blk_size m best) else Some 0);
            let best1 = (if blk_free m block \<and> sz \<le> blk_size m block \<and> (best = 0 \<or> blk_size m block \<le> absz)
                         then block else best);
            let best2 = (if blk_free m buddy \<and> sz \<le> blk_size m buddy \<and> (best1 = 0 \<or> blk_size m buddy < absz)
                         then buddy else best1);
            sb \<leftarrow> size_required (blk_size m block);
            sd \<leftarrow> size_required (blk_size m buddy);
            if sb \<le> sd then
              do {
                block' \<leftarrow> blk_next m buddy;
                buddy' \<leftarrow> (if block' < tail then blk_next m block' else Some buddy);
                find_best_loop tail sz m best2 block' buddy'
              }
            else
              do {
                buddy' \<leftarrow> blk_next m buddy;
                find_best_loop tail sz m best2 buddy buddy'
              }
          }
      else Some (m, best))"

definition find_best :: "BuddyAlloc \<Rightarrow> memory \<Rightarrow> usize \<Rightarrow> (memory \<times> uptr) option" where
  "find_best this m sz =
     do {
       let block = ba_head this;
       buddy \<leftarrow> blk_next m block;
       if buddy = ba_tail this \<and> blk_free m block then split_until m block sz
       else do {
         (m', best) \<leftarrow> find_best_loop (ba_tail this) sz m 0 block buddy;
         if best \<noteq> 0 then split_until m' best sz else Some (m', 0)
       }
     }"

text \<open>One pass of \<^verbatim>\<open>coalescence\<close>; the flag is \<^verbatim>\<open>no_coalescence\<close>.\<close>

partial_function (option) coalescence_pass ::
    "uptr \<Rightarrow> memory \<Rightarrow> uptr \<Rightarrow> uptr \<Rightarrow> bool \<Rightarrow> (memory \<times> bool) option" where
  "coalescence_pass tail m block buddy none =
     (if block < tail \<and> buddy < tail then
        if blk_free m block \<and> blk_free m buddy \<and> blk_size m block = blk_size m buddy then
          do {
            let m1 = set_size m block (blk_size m block * 2);
            block' \<leftarrow> blk_next m1 block;
            if block' < tail then
              do { buddy' \<leftarrow> blk_next m1 block'; coalescence_pass tail m1 block' buddy' False }
            else coalescence_pass tail m1 block' buddy none
          }
        else
          do {
            sb \<leftarrow> size_required (blk_size m block);
            sd \<leftarrow> size_required (blk_size m buddy);
            if sb < sd then
              do { buddy' \<leftarrow> blk_next m buddy; coalescence_pass tail m buddy buddy' none }
            else
              do {
                block' \<leftarrow> blk_next m buddy;
                buddy' \<leftarrow> (if block' < tail then blk_next m block' else Some buddy);
                coalescence_pass tail m block' buddy' none
              }
          }
      else Some (m, none))"

partial_function (option) coalescence :: "BuddyAlloc \<Rightarrow> memory \<Rightarrow> memory option" where
  "coalescence this m =
     do {
       buddy \<leftarrow> blk_next m (ba_head this);
       (m', none) \<leftarrow> coalescence_pass (ba_tail this) m (ba_head this) buddy True;
       if none then Some m' else coalescence this m'
     }"

text \<open>\<^verbatim>\<open>find_best\<close>, and once more after \<^verbatim>\<open>coalescence\<close> when it found nothing.\<close>

definition find_or_coalesce :: "BuddyAlloc \<Rightarrow> memory \<Rightarrow> usize \<Rightarrow> (memory \<times> uptr) option" where
  "find_or_coalesce this m actual_size =
     do {
       (m1, found) \<leftarrow> find_best this m actual_size;
       if found = 0 then do { m2 \<leftarrow> coalescence this m1; find_best this m2 actual_size }
       else Some (m1, found)
     }"

definition ba_malloc :: "BuddyAlloc \<Rightarrow> memory \<Rightarrow> usize \<Rightarrow> (memory \<times> uptr) option" where
  "ba_malloc this m sz =
     (if sz \<noteq> 0 then
        do {
          actual_size \<leftarrow> size_required (sz + sizeof_Block);
          (m1, found) \<leftarrow> find_or_coalesce this m actual_size;
          if found \<noteq> 0 then
            Some (set_free (set_size m1 found (sz + sizeof_Block)) found False, blk_data found)
          else Some (m1, 0)
        }
      else Some (m, 0))"

definition ba_free :: "BuddyAlloc \<Rightarrow> memory \<Rightarrow> uptr \<Rightarrow> memory option" where
  "ba_free this m ptr =
     (if ptr \<noteq> 0 then
        if ba_head this > ptr then Some m
        else if ba_tail this \<le> ptr then Some m
        else do {
          let block = ptr - sizeof_Block;
          n \<leftarrow> size_required (blk_size m block);
          Some (set_free (set_size m block n) block True)
        }
      else Some m)"

definition ba_realloc :: "BuddyAlloc \<Rightarrow> memory \<Rightarrow> uptr \<Rightarrow> usize \<Rightarrow> (memory \<times> uptr) option" where
  "ba_realloc this m ptr sz =
     (if ptr = 0 then ba_malloc this m sz
      else if sz = 0 then do { m' \<leftarrow> ba_free this m ptr; Some (m', 0) }
      else if ba_head this > ptr then Some (m, 0)
      else if ba_tail this \<le> ptr then Some (m, 0)
      else do {
        let old_block = ptr - sizeof_Block;
        let old_size = blk_size m old_block;
        actual_new_size \<leftarrow> size_required (sz + sizeof_Block);
        r \<leftarrow> size_required old_size;
        if r = actual_new_size then Some (set_size m old_block (sz + sizeof_Block), blk_data old_block)
        else do {
          (m1, found) \<leftarrow> find_or_coalesce this m actual_new_size;
          if found \<noteq> 0 then
            do {
              let m2 = set_free (set_size m1 found (sz + sizeof_Block)) found False;
              let m3 = memcpy m2 (blk_data found) ptr (old_size - sizeof_Block);
              let m4 = set_free m3 old_block True;
              Some (m4, blk_data found)
            }
          else Some (m1, 0)
        }
      })"

text \<open>The wrappers of \<^verbatim>\<open>src/klib/cstdlib.cpp\<close>; the others only forward.\<close>

definition klib_calloc :: "BuddyAlloc \<Rightarrow> memory \<Rightarrow> usize \<Rightarrow> (memory \<times> uptr) option" where
  "klib_calloc this m sz = do { (m', p) \<leftarrow> ba_malloc this m sz; Some (memset m' p 0 sz, p) }"

definition klib_strdup :: "BuddyAlloc \<Rightarrow> memory \<Rightarrow> uptr \<Rightarrow> (memory \<times> uptr) option" where
  "klib_strdup this m str =
     do {
       n \<leftarrow> strlen m str;
       (m', p) \<leftarrow> ba_malloc this m (n + 1);
       Some (if p \<noteq> 0 then memcpy m' p str (n + 1) else m', p)
     }"

section \<open>Reading back a header\<close>

text \<open>Blocks start at multiples of 16, so that distinct headers do not overlap.\<close>

definition al :: "uptr \<Rightarrow> bool" where
  "al a \<longleftrightarrow> 16 dvd unat a"

lemma al_offset: "al a \<Longrightarrow> i < 16 \<Longrightarrow> unat (a + i) = unat a + unat i"
proof -
  assume "al a" "i < 16"
  then obtain k where k: "unat a = 16 * k" by (auto simp: al_def)
  have i: "unat i < 16" using \<open>i < 16\<close> by (simp add: word_less_nat_alt)
  have "16 * k < 16 * 2 ^ 60" using unat_bound [of a] k by simp
  then have "k \<le> 2 ^ 60 - 1" by simp
  then have "unat a + unat i < 2 ^ 64" using i k by simp
  then show ?thesis by (intro unat_add_nowrap) simp
qed

lemma al_offset_inj:
  assumes "al a" and "al b" and "i < 16" and "j < 16" and "a + i = b + j"
  shows "a = b"
proof -
  have "unat a + unat i = unat b + unat j" using assms by (metis al_offset)
  moreover have "unat i < 16" "unat j < 16" using assms by (simp_all add: word_less_nat_alt)
  moreover obtain p where "unat a = 16 * p" using assms(1) by (auto simp: al_def)
  moreover obtain q where "unat b = 16 * q" using assms(2) by (auto simp: al_def)
  ultimately have "unat a = unat b" by simp
  then show ?thesis by (simp add: word_unat_eq_iff)
qed

lemma al_apart: "al a \<Longrightarrow> al b \<Longrightarrow> a \<noteq> b \<Longrightarrow> i < 16 \<Longrightarrow> \<not> a + i - b < 16"
  using al_offset_inj [of a b i "a + i - b"] by auto

lemma al_apart8: "al a \<Longrightarrow> al b \<Longrightarrow> a \<noteq> b \<Longrightarrow> i < 16 \<Longrightarrow> \<not> a + i - b < 8"
  using al_apart [of a b i] by (simp add: word_less_nat_alt)

lemma read64_write64_other: "al a \<Longrightarrow> al b \<Longrightarrow> a \<noteq> b \<Longrightarrow> read64 (write64 m b v) a = read64 m a"
  using al_apart8 [of a b 0] al_apart8 [of a b 1] al_apart8 [of a b 2] al_apart8 [of a b 3]
    al_apart8 [of a b 4] al_apart8 [of a b 5] al_apart8 [of a b 6] al_apart8 [of a b 7]
  by (simp add: read64_def write64_def)

named_theorems hdr \<open>reading headers after header writes\<close>

lemma hdr_same [hdr]:
  "blk_size (set_size m b v) b = v" "blk_free (set_size m b v) b = blk_free m b"
  "blk_size (set_free m b f) b = blk_size m b" "blk_free (set_free m b f) b = f"
proof -
  show "blk_size (set_size m b v) b = v" by (simp add: blk_size_def set_size_def)
  show "blk_free (set_size m b v) b = blk_free m b" by (simp add: blk_free_def set_size_def write64_def)
  show "blk_size (set_free m b f) b = blk_size m b" by (simp add: blk_size_def set_free_def read64_def)
  show "blk_free (set_free m b f) b = f" by (simp add: blk_free_def set_free_def)
qed

lemma hdr_other [hdr]:
  assumes "al a" and "al b" and "a \<noteq> b"
  shows "blk_size (set_size m b v) a = blk_size m a" and "blk_free (set_size m b v) a = blk_free m a"
    and "blk_size (set_free m b f) a = blk_size m a" and "blk_free (set_free m b f) a = blk_free m a"
proof -
  show "blk_size (set_size m b v) a = blk_size m a"
    using assms by (simp add: blk_size_def set_size_def read64_write64_other)
  show "blk_free (set_size m b v) a = blk_free m a"
    using al_apart8 [OF assms, of 8] by (simp add: blk_free_def set_size_def write64_def)
  have ne: "a + i \<noteq> b + 8" if "i < 16" for i
    using al_offset_inj [OF assms(1,2) that, of 8] assms(3) by auto
  show "blk_size (set_free m b f) a = blk_size m a"
    using ne [of 0] ne [of 1] ne [of 2] ne [of 3] ne [of 4] ne [of 5] ne [of 6] ne [of 7]
    by (simp add: blk_size_def set_free_def read64_def)
  show "blk_free (set_free m b f) a = blk_free m a"
    using assms by (simp add: blk_free_def set_free_def)
qed

text \<open>The bytes a header write changes.\<close>

lemma set_size_frame: "al b \<Longrightarrow> unat x \<notin> {unat b..<unat b + 16} \<Longrightarrow> set_size m b v x = m x"
  and set_free_frame: "al b \<Longrightarrow> unat x \<notin> {unat b..<unat b + 16} \<Longrightarrow> set_free m b f x = m x"
proof -
  assume b: "al b" and x: "unat x \<notin> {unat b..<unat b + 16}"
  have far: "\<not> x - b < 16"
  proof
    assume less: "x - b < 16"
    then have "unat (b + (x - b)) = unat b + unat (x - b)" by (intro al_offset [OF b])
    moreover have "unat (x - b) < 16" using less by (simp add: word_less_nat_alt)
    ultimately show False using x by simp
  qed
  then have "\<not> x - b < 8" by (simp add: word_less_nat_alt)
  then show "set_size m b v x = m x" by (simp add: set_size_def write64_def)
  show "set_free m b f x = m x" using far by (auto simp: set_free_def)
qed

section \<open>The size of a block\<close>

text \<open>The least power of two that is at least 16 and at least \<open>n\<close>.\<close>

fun req :: "nat \<Rightarrow> nat" where
  "req n = (if n \<le> 16 then 16 else 2 * req ((n + 1) div 2))"

declare req.simps [simp del]

lemma req_unique: "4 \<le> k \<Longrightarrow> n \<le> 2 ^ k \<Longrightarrow> k = 4 \<or> 2 ^ (k - 1) < n \<Longrightarrow> req n = 2 ^ k"
proof (induction n arbitrary: k rule: req.induct)
  case (1 n)
  show ?case
  proof (cases "n \<le> 16")
    case True
    have "k = 4"
    proof (rule ccontr)
      assume "k \<noteq> 4"
      with 1(2) have "(2::nat) ^ 4 \<le> 2 ^ (k - 1)" by (intro power_increasing) auto
      with 1(4) \<open>k \<noteq> 4\<close> True show False by simp
    qed
    with True show ?thesis by (simp add: req.simps)
  next
    case False
    then have k: "4 < k" using 1(2,3) by (cases "k = 4") auto
    then obtain j where j: "k = Suc j" "4 \<le> j" by (cases k) auto
    have "req ((n + 1) div 2) = 2 ^ j"
    proof (rule 1(1) [OF False j(2)])
      show "(n + 1) div 2 \<le> 2 ^ j" using 1(3) j by simp
      show "j = 4 \<or> 2 ^ (j - 1) < (n + 1) div 2"
        using 1(4) j k by (cases j) auto
    qed
    then show ?thesis using False j by (simp add: req.simps)
  qed
qed

lemma req_spec: "\<exists>k. 4 \<le> k \<and> req n = 2 ^ k \<and> n \<le> 2 ^ k \<and> (k = 4 \<or> 2 ^ (k - 1) < n)"
proof (induction n rule: req.induct)
  case (1 n)
  show ?case
  proof (cases "n \<le> 16")
    case False
    then obtain k where k: "4 \<le> k" "req ((n + 1) div 2) = 2 ^ k" "(n + 1) div 2 \<le> 2 ^ k"
      "k = 4 \<or> 2 ^ (k - 1) < (n + 1) div 2" using 1 by auto
    then have "2 ^ k < n" using False
    proof (cases "k = 4")
      case False
      with k obtain j where "k = Suc j" by (cases k) auto
      with k False show ?thesis by simp
    qed simp
    with k False show ?thesis by (intro exI [of _ "Suc k"]) (simp add: req.simps [of n])
  qed (auto simp: req.simps intro: exI [of _ 4])
qed

lemma req_ge: "n \<le> req n" "16 \<le> req n" "0 < req n"
proof -
  obtain k where k: "4 \<le> k" "req n = 2 ^ k" "n \<le> 2 ^ k" using req_spec [of n] by auto
  moreover have "(2::nat) ^ 4 \<le> 2 ^ k" using k(1) by (intro power_increasing) auto
  ultimately show "n \<le> req n" "16 \<le> req n" "0 < req n" by auto
qed

lemma req_dvd: "16 dvd req n"
  using req_spec [of n] le_imp_power_dvd [of 4 _ "2::nat"] by auto

lemma req_idem [simp]: "req (req n) = req n"
proof -
  obtain k where k: "4 \<le> k" "req n = 2 ^ k" using req_spec [of n] by auto
  then show ?thesis by (auto intro!: req_unique)
qed

lemma req_double: "8 < n \<Longrightarrow> req (2 * n) = 2 * req n"
  by (simp add: req.simps [of "2 * n"])

lemma req_big: "16 < n \<Longrightarrow> 32 \<le> req n"
  using req_ge(2) [of "(n + 1) div 2"] by (simp add: req.simps [of n])

lemma req_half: "32 \<le> req n \<Longrightarrow> req (req n div 2) = req n div 2 \<and> 16 \<le> req n div 2 \<and> req n = 2 * (req n div 2)"
proof -
  assume r: "32 \<le> req n"
  obtain k where k: "4 \<le> k" "req n = 2 ^ k" using req_spec [of n] by auto
  have "k \<noteq> 4" using r k by auto
  then obtain j where j: "k = Suc j" "4 \<le> j" using k by (cases k) auto
  then have "req (2 ^ j) = 2 ^ j" by (intro req_unique) auto
  moreover have "(2::nat) ^ 4 \<le> 2 ^ j" using j by (intro power_increasing) auto
  ultimately show ?thesis using k j by simp
qed

lemma req_mono: "m \<le> n \<Longrightarrow> req m \<le> req n"
proof -
  assume "m \<le> n"
  obtain j where j: "4 \<le> j" "req m = 2 ^ j" "j = 4 \<or> 2 ^ (j - 1) < m" using req_spec [of m] by auto
  obtain k where k: "4 \<le> k" "req n = 2 ^ k" "n \<le> 2 ^ k" using req_spec [of n] by auto
  have "j \<le> k"
  proof (rule ccontr)
    assume "\<not> j \<le> k"
    with k have "(2::nat) ^ k \<le> 2 ^ (j - 1)" by (intro power_increasing) auto
    moreover have "2 ^ (j - 1) < m" using j(3) k(1) \<open>\<not> j \<le> k\<close> by auto
    ultimately show False using k(3) \<open>m \<le> n\<close> by linarith
  qed
  then show ?thesis using j k by (simp add: power_increasing)
qed

lemma req_le_pow: "n \<le> 2 ^ k \<Longrightarrow> 4 \<le> k \<Longrightarrow> req n \<le> 2 ^ k"
  using req_mono [of n "2 ^ k"] req_unique [of k "2 ^ k"] by (cases k) auto

lemma align_le_iff:
  assumes "unat s \<le> 2 ^ 63" and "4 \<le> k"
  shows "unat (ba_align s) \<le> 2 ^ k \<longleftrightarrow> unat s \<le> 2 ^ k"
proof (cases "unat s mod 16 = 0")
  case True
  then have "s mod 16 = 0" by (simp add: word_unat_eq_iff unat_mod)
  then show ?thesis by (simp add: ba_align_def ba_alignment_def)
next
  case False
  let ?q = "unat s div 16"
  have s: "unat s = 16 * ?q + unat s mod 16" "unat s mod 16 < 16" by auto
  have q: "unat (s div 16) = ?q" by (simp add: unat_div)
  have "?q + 1 \<le> 2 ^ 59 + 1" using assms(1) by (simp add: div_le_mono)
  then have "unat (s div 16 + 1) = ?q + 1" using q by (subst unat_add_nowrap) auto
  then have "unat ((s div 16 + 1) * 16) = (?q + 1) * 16" using \<open>?q + 1 \<le> 2 ^ 59 + 1\<close> by (subst unat_mult_nowrap) auto
  moreover have "s mod 16 \<noteq> 0" using False by (simp add: word_unat_eq_iff unat_mod)
  ultimately have a: "unat (ba_align s) = (?q + 1) * 16" by (simp add: ba_align_def ba_alignment_def)
  obtain p where p: "(2::nat) ^ k = 16 * p" using le_imp_power_dvd [OF assms(2), of "2::nat"] by auto
  have "(q + 1) * 16 \<le> 16 * p \<longleftrightarrow> n \<le> 16 * p" if "n = 16 * q + r" "r < 16" "r \<noteq> 0" for n q r :: nat
    using that by presburger
  from this [OF s False] show ?thesis unfolding a p .
qed

lemma size_required_loop_req:
  assumes "unat s \<le> 2 ^ 63" and "unat a = 2 ^ k" and "4 \<le> k" and "k = 4 \<or> 2 ^ (k - 1) < unat s"
  shows "size_required_loop (ba_align s) a = Some (of_nat (req (unat s)))"
  using assms(2-4)
proof (induction "64 - k" arbitrary: a k)
  case 0
  then have "(2::nat) ^ 64 \<le> 2 ^ k" by (intro power_increasing) auto
  with 0 unat_bound [of a] show ?case by simp
next
  case (Suc d)
  note exit = align_le_iff [OF assms(1) Suc.prems(2)]
  show ?case
  proof (cases "unat s \<le> 2 ^ k")
    case True
    then have "\<not> ba_align s > a" using exit Suc.prems(1) by (simp add: word_less_nat_alt)
    moreover have "req (unat s) = 2 ^ k" using True Suc.prems by (intro req_unique)
    moreover have "a = of_nat (2 ^ k)" by (simp flip: Suc.prems(1))
    ultimately show ?thesis by (simp add: size_required_loop.simps)
  next
    case False
    then have "(2::nat) ^ k < 2 ^ 63" using assms(1) by linarith
    then have "k < 63" by (rule power_less_imp_less_exp [rotated]) simp
    then have "(2::nat) ^ Suc k \<le> 2 ^ 63" by (intro power_increasing) auto
    then have "unat (a * 2) = 2 ^ Suc k" using Suc.prems(1) by (subst unat_mult_nowrap) auto
    then have "size_required_loop (ba_align s) (a * 2) = Some (of_nat (req (unat s)))"
      using Suc.hyps(2) Suc.prems(2) False \<open>k < 63\<close> by (intro Suc.hyps(1) [of "Suc k"]) auto
    moreover have "ba_align s > a" using False exit Suc.prems(1) by (simp add: word_less_nat_alt)
    ultimately show ?thesis by (simp add: size_required_loop.simps)
  qed
qed

lemma size_required_req: "unat s \<le> 2 ^ 63 \<Longrightarrow> size_required s = Some (of_nat (req (unat s)))"
  unfolding size_required_def by (rule size_required_loop_req [of _ _ 4]) (auto simp: ba_alignment_def)

lemma unat_req: "unat s \<le> 2 ^ 63 \<Longrightarrow> unat (of_nat (req (unat s)) :: usize) = req (unat s)"
  using req_le_pow [of "unat s" 63] by (intro unat_of_nat_small) simp

section \<open>Blocks tile the heap\<close>

abbreviation bsz :: "memory \<Rightarrow> uptr \<Rightarrow> nat" where
  "bsz m b \<equiv> req (unat (blk_size m b))"

fun tiles :: "memory \<Rightarrow> uptr \<Rightarrow> uptr \<Rightarrow> uptr list \<Rightarrow> bool" where
  "tiles m a t [] \<longleftrightarrow> a = t"
| "tiles m a t (b # bs) \<longleftrightarrow> b = a \<and> al a \<and> 16 < unat (blk_size m a) \<and> unat a + bsz m a \<le> unat t \<and>
     tiles m (a + of_nat (bsz m a)) t bs"

definition area :: "memory \<Rightarrow> uptr \<Rightarrow> nat set" where
  "area m b = {unat b..<unat b + bsz m b}"

definition free_area :: "memory \<Rightarrow> uptr list \<Rightarrow> nat set" where
  "free_area m bs = (\<Union>b\<in>{b \<in> set bs. blk_free m b}. area m b)"

definition allocd :: "memory \<Rightarrow> uptr list \<Rightarrow> uptr set" where
  "allocd m bs = {b \<in> set bs. \<not> blk_free m b}"

text \<open>From \<open>m\<close> to \<open>m'\<close> free blocks were split or merged and nothing else happened.\<close>

definition rearranges :: "uptr \<Rightarrow> uptr \<Rightarrow> memory \<Rightarrow> uptr list \<Rightarrow> memory \<Rightarrow> uptr list \<Rightarrow> bool" where
  "rearranges a t m bs m' bs' \<longleftrightarrow>
     tiles m' a t bs' \<and> allocd m' bs' = allocd m bs \<and> free_area m' bs' \<subseteq> free_area m bs \<and>
     (\<forall>x. unat x \<notin> free_area m bs \<longrightarrow> m' x = m x)"

lemma rearranges_refl: "tiles m a t bs \<Longrightarrow> rearranges a t m bs m bs"
  by (simp add: rearranges_def)

lemma rearranges_trans:
  "rearranges a t m bs m' bs' \<Longrightarrow> rearranges a t m' bs' m'' bs'' \<Longrightarrow> rearranges a t m bs m'' bs''"
  unfolding rearranges_def by (metis subset_iff)

lemma room_small: "a + req n \<le> 2 ^ 64 - 1 \<Longrightarrow> n \<le> 2 ^ 63"
proof -
  assume fits: "a + req n \<le> 2 ^ 64 - 1"
  obtain k where k: "req n = 2 ^ k" "n \<le> 2 ^ k" using req_spec [of n] by auto
  have "(2::nat) ^ k < 2 ^ 64" using fits k by auto
  then have "k < 64" by (rule power_less_imp_less_exp [rotated]) simp
  then have "(2::nat) ^ k \<le> 2 ^ 63" by (intro power_increasing) auto
  then show ?thesis using k(2) by linarith
qed

lemma block_small: "unat a + bsz m a \<le> unat t \<Longrightarrow> unat (blk_size m a) \<le> 2 ^ 63" for t :: uptr
  using unat_bound [of t] by (intro room_small [of "unat a"]) auto

lemma block_next:
  assumes "unat a + bsz m a \<le> unat (t :: uptr)"
  shows "blk_next m a = Some (a + of_nat (bsz m a))" and "unat (a + of_nat (bsz m a)) = unat a + bsz m a"
    and "size_required (blk_size m a) = Some (of_nat (bsz m a))" and "unat (of_nat (bsz m a) :: usize) = bsz m a"
proof -
  note small = block_small [OF assms]
  show s: "size_required (blk_size m a) = Some (of_nat (bsz m a))" by (rule size_required_req [OF small])
  then show "blk_next m a = Some (a + of_nat (bsz m a))" by (simp add: blk_next_def)
  show u: "unat (of_nat (bsz m a) :: usize) = bsz m a" by (rule unat_req [OF small])
  have "unat a + bsz m a < 2 ^ 64" using assms unat_bound [of t] by simp
  then show "unat (a + of_nat (bsz m a)) = unat a + bsz m a" using u by (subst unat_add_nowrap) auto
qed

lemma tiles_cong:
  "(\<And>b. b \<in> set bs \<Longrightarrow> blk_size m' b = blk_size m b) \<Longrightarrow> tiles m' a t bs = tiles m a t bs"
proof (induction bs arbitrary: a)
  case (Cons b bs)
  show ?case
  proof (cases "b = a")
    case True
    then have "blk_size m' a = blk_size m a" using Cons.prems by simp
    with True Cons show ?thesis by simp
  qed simp
qed simp

lemma tiles_le: "tiles m a t bs \<Longrightarrow> unat a \<le> unat t"
  by (cases bs) auto

lemma tiles_mem:
  "tiles m a t bs \<Longrightarrow> b \<in> set bs \<Longrightarrow>
   al b \<and> 16 < unat (blk_size m b) \<and> unat a \<le> unat b \<and> unat b + bsz m b \<le> unat t"
proof (induction bs arbitrary: a)
  case (Cons c bs)
  show ?case
  proof (cases "b = a")
    case False
    with Cons.prems Cons.IH [of "a + of_nat (bsz m a)"] block_next(2) [of a m t] show ?thesis by auto
  qed (use Cons.prems in auto)
qed simp

lemma tiles_append:
  "tiles m a t (us @ vs) \<longleftrightarrow> (\<exists>c. tiles m a c us \<and> tiles m c t vs)"
proof (induction us arbitrary: a)
  case (Cons u us)
  show ?case
  proof
    assume "tiles m a t ((u # us) @ vs)"
    then have u: "u = a" "al a" "16 < unat (blk_size m a)" "unat a + bsz m a \<le> unat t"
      "tiles m (a + of_nat (bsz m a)) t (us @ vs)" by auto
    then obtain c where c: "tiles m (a + of_nat (bsz m a)) c us" "tiles m c t vs" using Cons.IH by blast
    then have "unat a + bsz m a \<le> unat c" using block_next(2) [OF u(4)] tiles_le [OF c(1)] by simp
    with u c show "\<exists>c. tiles m a c (u # us) \<and> tiles m c t vs" by auto
  next
    assume "\<exists>c. tiles m a c (u # us) \<and> tiles m c t vs"
    then obtain c where c: "tiles m a c (u # us)" "tiles m c t vs" by blast
    then have "unat a + bsz m a \<le> unat t" using tiles_le [OF c(2)] by auto
    with c Cons.IH show "tiles m a t ((u # us) @ vs)" by auto
  qed
qed simp

lemma tiles_split:
  assumes "tiles m a t (us @ b # vs)"
  shows "tiles m a b us" and "tiles m (b + of_nat (bsz m b)) t vs" and "al b" and "16 < unat (blk_size m b)"
    and "unat b + bsz m b \<le> unat t" and "unat a \<le> unat b"
    and "blk_next m b = Some (case vs of [] \<Rightarrow> t | c # _ \<Rightarrow> c)" and "b < t"
proof -
  show p: "tiles m a b us" and "tiles m (b + of_nat (bsz m b)) t vs" and "al b" and "16 < unat (blk_size m b)"
    and le: "unat b + bsz m b \<le> unat t" using assms by (auto simp: tiles_append)
  show "unat a \<le> unat b" by (rule tiles_le [OF p])
  show "b < t" using le req_ge(3) [of "unat (blk_size m b)"] by (simp add: word_less_nat_alt)
  show "blk_next m b = Some (case vs of [] \<Rightarrow> t | c # _ \<Rightarrow> c)"
    using block_next(1) [OF le] \<open>tiles m (b + of_nat (bsz m b)) t vs\<close> by (cases vs) auto
qed

text \<open>Earlier blocks end before, later ones start after a block.\<close>

lemma tiles_order:
  assumes "tiles m a t (us @ b # vs)"
  shows "u \<in> set us \<Longrightarrow> unat u + bsz m u \<le> unat b" and "v \<in> set vs \<Longrightarrow> unat b + bsz m b \<le> unat v"
proof -
  show "u \<in> set us \<Longrightarrow> unat u + bsz m u \<le> unat b"
    using tiles_mem [OF tiles_split(1) [OF assms], of u] by simp
  show "v \<in> set vs \<Longrightarrow> unat b + bsz m b \<le> unat v"
    using tiles_mem [OF tiles_split(2) [OF assms], of v] block_next(2) [OF tiles_split(5) [OF assms]] by simp
qed

lemma tiles_other:
  assumes "tiles m a t (us @ b # vs)" and "c \<in> set us \<or> c \<in> set vs"
  shows "c \<noteq> b" and "al c" and "area m c \<inter> area m b = {}"
proof -
  have "unat c + bsz m c \<le> unat b \<or> unat b + bsz m b \<le> unat c" using tiles_order [OF assms(1)] assms(2) by blast
  then show "c \<noteq> b" "area m c \<inter> area m b = {}"
    using req_ge(3) [of "unat (blk_size m c)"] req_ge(3) [of "unat (blk_size m b)"] by (auto simp: area_def)
  show "al c" using tiles_mem [OF assms(1), of c] assms(2) by auto
qed

lemma alloc_disjoint:
  assumes "tiles m a t bs" and "b \<in> allocd m bs"
  shows "area m b \<inter> free_area m bs = {}"
proof -
  have "area m b \<inter> area m c = {}" if "c \<in> set bs" "blk_free m c" for c
  proof -
    from split_list [OF that(1)] obtain us vs where bs: "bs = us @ c # vs" by blast
    then have "b \<in> set us \<or> b \<in> set vs" using assms(2) that(2) by (auto simp: allocd_def)
    then show ?thesis using tiles_other(3) assms(1) bs by blast
  qed
  then show ?thesis by (auto simp: free_area_def)
qed

section \<open>Merging and splitting\<close>

text \<open>Replacing blocks whose area is free by blocks inside it.\<close>

lemma rearranges_local:
  assumes t: "tiles m a t (us @ xs @ vs)" and t': "tiles m' a t (us @ ys @ vs)"
    and same: "\<And>b. b \<in> set us \<union> set vs \<Longrightarrow> blk_free m' b = blk_free m b \<and> blk_size m' b = blk_size m b"
    and fr: "\<forall>x\<in>set xs. blk_free m x" "\<forall>y\<in>set ys. blk_free m' y"
    and sub: "(\<Union>y\<in>set ys. area m' y) \<subseteq> (\<Union>x\<in>set xs. area m x)"
    and frame: "\<And>x. unat x \<notin> (\<Union>x\<in>set xs. area m x) \<Longrightarrow> m' x = m x"
  shows "rearranges a t m (us @ xs @ vs) m' (us @ ys @ vs)"
proof -
  have alloc: "allocd m' (us @ ys @ vs) = allocd m (us @ xs @ vs)" using same fr by (auto simp: allocd_def)
  have cover: "(\<Union>x\<in>set xs. area m x) \<subseteq> free_area m (us @ xs @ vs)" using fr by (auto simp: free_area_def)
  have "area m' b \<subseteq> free_area m (us @ xs @ vs)" if "b \<in> set (us @ ys @ vs)" "blk_free m' b" for b
  proof (cases "b \<in> set ys")
    case True
    then show ?thesis using sub cover by blast
  next
    case False
    then have "b \<in> set us \<union> set vs" using that(1) by auto
    then show ?thesis using same [of b] that(2) by (auto simp: free_area_def area_def)
  qed
  then have free: "free_area m' (us @ ys @ vs) \<subseteq> free_area m (us @ xs @ vs)" unfolding free_area_def [of m'] by blast
  have "\<forall>x. unat x \<notin> free_area m (us @ xs @ vs) \<longrightarrow> m' x = m x" using frame cover by blast
  with t' alloc free show ?thesis by (simp add: rearranges_def)
qed

lemma merge_step:
  assumes t: "tiles m a t (us @ b # c # vs)" and "blk_free m b" and "blk_free m c" and eq: "blk_size m b = blk_size m c"
    and m': "m' = set_size m b (blk_size m b * 2)"
  shows "rearranges a t m (us @ b # c # vs) m' (us @ b # vs)"
    and "unat (blk_size m' b) = 2 * unat (blk_size m b)" and "blk_free m' b"
    and "\<And>d. d \<in> set us \<union> set vs \<union> {c} \<Longrightarrow> blk_free m' d = blk_free m d \<and> blk_size m' d = blk_size m d"
    and "blk_next m' b = blk_next m c"
proof -
  note b = tiles_split [OF t]
  have c: "c = b + of_nat (bsz m b)" "unat c + bsz m c \<le> unat t" "tiles m (c + of_nat (bsz m c)) t vs" "al c"
    using b(2) by auto
  have uc: "unat c = unat b + bsz m b" using block_next(2) [OF b(5)] c(1) by simp
  have "2 * unat (blk_size m b) \<le> unat t" using uc c(2) req_ge(1) [of "unat (blk_size m b)"] unfolding eq by linarith
  then show double: "unat (blk_size m' b) = 2 * unat (blk_size m b)"
    using unat_bound [of t] by (simp add: m' hdr, subst unat_mult_nowrap) auto
  show fb: "blk_free m' b" using assms(2) by (simp add: m' hdr)
  have oth: "d \<noteq> b \<and> al d" if "d \<in> set us \<union> set vs \<union> {c}" for d
    using tiles_other(1,2) [OF t, of d] that by auto
  show same: "\<And>d. d \<in> set us \<union> set vs \<union> {c} \<Longrightarrow> blk_free m' d = blk_free m d \<and> blk_size m' d = blk_size m d"
    using oth b(3) by (simp add: m' hdr)
  have area: "bsz m' b = bsz m b + bsz m c" using double b(4) eq by (simp add: req_double)
  have fits: "unat b + bsz m' b \<le> unat t" using area uc c(2) by simp
  have "b + of_nat (bsz m' b) = c + of_nat (bsz m c)" using area c(1) by simp
  then have nxt: "blk_next m' b = blk_next m c" using block_next(1) [OF fits] block_next(1) [OF c(2)] by simp
  then show "blk_next m' b = blk_next m c" .
  have "tiles m' (b + of_nat (bsz m' b)) t vs"
    using c(3) same area c(1) by (subst tiles_cong [of _ m' m]) (auto simp: add.assoc)
  moreover have "tiles m' a b us" using b(1) same by (subst tiles_cong [of _ m' m]) auto
  ultimately have t': "tiles m' a t (us @ b # vs)" using b(3,4) double fits by (auto simp: tiles_append)
  have "rearranges a t m (us @ [b, c] @ vs) m' (us @ [b] @ vs)"
  proof (rule rearranges_local)
    show "(\<Union>y\<in>set [b]. area m' y) \<subseteq> (\<Union>x\<in>set [b, c]. area m x)" using area uc by (auto simp: area_def)
    show "m' x = m x" if "unat x \<notin> (\<Union>x\<in>set [b, c]. area m x)" for x
      using that req_ge(2) [of "unat (blk_size m b)"] b(3) by (auto simp: m' area_def intro!: set_size_frame)
  qed (use t t' same assms fb in auto)
  then show "rearranges a t m (us @ b # c # vs) m' (us @ b # vs)" by simp
qed

lemma split_step:
  assumes t: "tiles m a t (us @ b # vs)" and "blk_free m b" and h: "bsz m b = 2 * unat h" "req (unat h) = unat h" "16 < unat h"
    and m': "m' = set_free (set_size (set_size m b h) (b + h) h) (b + h) True"
  shows "rearranges a t m (us @ b # vs) m' (us @ b # (b + h) # vs)"
    and "blk_next (set_size m b h) b = Some (b + h)"
    and "blk_size m' (b + h) = h" and "blk_free m' (b + h)"
proof -
  note b = tiles_split [OF t]
  have "unat b + unat h < 2 ^ 64" using b(5) h(1) unat_bound [of t] by simp
  then have uc: "unat (b + h) = unat b + unat h" by (intro unat_add_nowrap) simp
  have alc: "al (b + h)" using b(3) req_dvd [of "unat h"] uc h(2) by (simp add: al_def)
  have ne: "b + h \<noteq> b" using uc h(3) by auto
  have hb: "blk_size m' b = h" "blk_free m' b" using ne alc b(3) assms(2) by (simp_all add: m' hdr)
  show hc: "blk_size m' (b + h) = h" "blk_free m' (b + h)" by (simp_all add: m' hdr)
  have oth: "d \<noteq> b \<and> d \<noteq> b + h \<and> al d" if d: "d \<in> set us \<union> set vs" for d
  proof -
    have "d \<noteq> b" "al d" "area m d \<inter> area m b = {}" using tiles_other [OF t, of d] d by auto
    moreover have "unat (b + h) \<in> area m b" using uc h by (simp add: area_def)
    ultimately show ?thesis using req_ge(3) [of "unat (blk_size m d)"] by (auto simp: area_def)
  qed
  have same: "blk_free m' d = blk_free m d \<and> blk_size m' d = blk_size m d" if "d \<in> set us \<union> set vs" for d
    using oth [OF that] b(3) alc by (simp add: m' hdr)
  have "unat b + bsz (set_size m b h) b \<le> unat t" using b(5) h by (simp add: hdr)
  from block_next(1) [OF this] show "blk_next (set_size m b h) b = Some (b + h)" by (simp add: hdr h(2))
  have e: "b + h + h = b + of_nat (bsz m b)" unfolding h(1) by simp
  have "tiles m (b + h + h) t vs" unfolding e by (rule b(2))
  then have "tiles m' (b + h + h) t vs" using same tiles_cong [of vs m' m "b + h + h" t] by blast
  moreover have "tiles m' a b us" using b(1) same by (subst tiles_cong [of _ m' m]) auto
  ultimately have t': "tiles m' a t (us @ b # (b + h) # vs)"
    using b(3,5) h uc alc hb(1) hc(1) by (auto simp: tiles_append)
  have "rearranges a t m (us @ [b] @ vs) m' (us @ [b, b + h] @ vs)"
  proof (rule rearranges_local)
    show "(\<Union>y\<in>set [b, b + h]. area m' y) \<subseteq> (\<Union>x\<in>set [b]. area m x)" using uc h hb hc by (auto simp: area_def)
    show "m' x = m x" if "unat x \<notin> (\<Union>x\<in>set [b]. area m x)" for x
    proof -
      have "unat x \<notin> {unat b..<unat b + 16}" "unat x \<notin> {unat (b + h)..<unat (b + h) + 16}"
        using that h uc by (auto simp: area_def)
      then show ?thesis
        by (simp add: m' set_size_frame [OF b(3)] set_size_frame [OF alc] set_free_frame [OF alc] del: atLeastLessThan_iff)
    qed
  qed (use t t' same assms(2) hb hc in auto)
  then show "rearranges a t m (us @ b # vs) m' (us @ b # (b + h) # vs)" by simp
qed

lemma req_less: "req a < req b \<Longrightarrow> 2 * req a \<le> req b"
proof -
  assume less: "req a < req b"
  obtain j k where jk: "req a = 2 ^ j" "req b = 2 ^ k" using req_spec [of a] req_spec [of b] by auto
  then have "j < k" using less by (auto intro: power_less_imp_less_exp [of 2])
  then have "(2::nat) ^ Suc j \<le> 2 ^ k" by (intro power_increasing) auto
  then show ?thesis using jk by simp
qed

text \<open>A request: a power of two above 16.\<close>

definition request :: "usize \<Rightarrow> bool" where
  "request sz \<longleftrightarrow> req (unat sz) = unat sz \<and> 16 < unat sz"

lemma split_loop_splits:
  assumes "tiles m a t (us @ b # vs)" and "blk_free m b" and "bsz m b = unat cur" and "request sz" and "sz \<le> cur"
  shows "\<exists>m' b' bs'. split_loop sz m b cur = Some (m', b', sz) \<and> rearranges a t m (us @ b # vs) m' bs' \<and>
           b' \<in> set bs' \<and> blk_free m' b' \<and> bsz m' b' = unat sz"
  using assms(1-3,5)
proof (induction "unat cur" arbitrary: m us b cur rule: less_induct)
  case less
  show ?case
  proof (cases "sz < cur")
    case False
    then have "cur = sz" using less.prems(4) by simp
    then show ?thesis using less.prems rearranges_refl [OF less.prems(1)]
      by (intro exI [of _ m] exI [of _ b] exI [of _ "us @ b # vs"]) (simp add: split_loop.simps)
  next
    case True
    let ?h = "cur div 2"
    have sz: "req (unat sz) = unat sz" "16 < unat sz" using assms(4) by (auto simp: request_def)
    have twice: "2 * unat sz \<le> unat cur"
      using req_less [of "unat sz" "unat (blk_size m b)"] True sz less.prems(3) by (simp add: word_less_nat_alt)
    have uh: "unat ?h = unat cur div 2" by (simp add: unat_div)
    have half: "req (unat ?h) = unat ?h" "bsz m b = 2 * unat ?h"
      using req_half [of "unat (blk_size m b)"] less.prems(3) twice sz(2) uh by simp_all
    have big: "16 < unat ?h" using twice sz(2) uh by simp
    let ?m = "set_free (set_size (set_size m b ?h) (b + ?h) ?h) (b + ?h) True"
    note step = split_step [OF less.prems(1,2) half(2,1) big refl]
    have run: "split_loop sz m b cur = split_loop sz ?m (b + ?h) ?h"
      using True step(2) by (subst split_loop.simps) (simp add: Let_def)
    have "tiles ?m a t ((us @ [b]) @ (b + ?h) # vs)" using step(1) by (simp add: rearranges_def)
    moreover have "bsz ?m (b + ?h) = unat ?h" using step(3) half(1) by simp
    moreover have "unat ?h < unat cur" "sz \<le> ?h" using uh big twice by (simp_all add: word_le_nat_alt)
    ultimately obtain m' b' bs' where r: "split_loop sz ?m (b + ?h) ?h = Some (m', b', sz)"
      "rearranges a t ?m ((us @ [b]) @ (b + ?h) # vs) m' bs'" "b' \<in> set bs'" "blk_free m' b'" "bsz m' b' = unat sz"
      using less.hyps [of ?h ?m "us @ [b]" "b + ?h"] step(4) by blast
    moreover have "rearranges a t m (us @ b # vs) m' bs'" using rearranges_trans step(1) r(2) by simp
    ultimately show ?thesis using run by auto
  qed
qed

lemma split_until_splits:
  assumes t: "tiles m a t bs" and "b \<in> set bs" and "blk_free m b" and "request sz"
  shows "\<exists>m' r bs'. split_until m b sz = Some (m', r) \<and> rearranges a t m bs m' bs' \<and>
           (if unat sz \<le> bsz m b then r \<in> set bs' \<and> blk_free m' r \<and> bsz m' r = unat sz else r = 0)"
proof -
  from split_list [OF assms(2)] obtain us vs where bs: "bs = us @ b # vs" by blast
  note b = tiles_split [OF t [unfolded bs]] and nx = block_next [OF b(5)]
  have sz0: "sz \<noteq> 0" using assms(4) by (auto simp: request_def)
  show ?thesis
  proof (cases "unat sz \<le> bsz m b")
    case True
    then have "sz \<le> of_nat (bsz m b)" using nx(4) by (simp add: word_le_nat_alt)
    then obtain m' b' bs' where "split_loop sz m b (of_nat (bsz m b)) = Some (m', b', sz)"
      "rearranges a t m bs m' bs'" "b' \<in> set bs'" "blk_free m' b'" "bsz m' b' = unat sz"
      using split_loop_splits [OF t [unfolded bs] assms(3) _ assms(4), of "of_nat (bsz m b)"] nx(4) bs by auto
    then show ?thesis using sz0 nx(3) True by (auto simp: split_until_def)
  next
    case False
    then have "\<not> sz \<le> of_nat (bsz m b)" using nx(4) by (simp add: word_le_nat_alt)
    moreover from this have "split_loop sz m b (of_nat (bsz m b)) = Some (m, b, of_nat (bsz m b))"
      by (subst split_loop.simps) auto
    ultimately have "split_until m b sz = Some (m, 0)"
      using sz0 nx(3) by (simp add: split_until_def)
    then show ?thesis using False rearranges_refl [OF t] by auto
  qed
qed

section \<open>The search loops\<close>

text \<open>The pair of cursors: \<open>block\<close> is in the list and \<open>buddy\<close> follows it, or \<open>block\<close> is the tail.\<close>

definition cursor :: "uptr \<Rightarrow> uptr list \<Rightarrow> uptr list \<Rightarrow> uptr \<Rightarrow> uptr \<Rightarrow> bool" where
  "cursor t us ws block buddy \<longleftrightarrow>
     (case ws of [] \<Rightarrow> block = t | b # vs \<Rightarrow> block = b \<and> buddy = (case vs of [] \<Rightarrow> t | c # _ \<Rightarrow> c))"

lemma cursor_tail_or_pair:
  assumes "tiles m a t (us @ ws)" and "cursor t us ws block buddy"
  shows "block < t \<and> buddy < t \<longleftrightarrow> (\<exists>vs. ws = block # buddy # vs)"
proof (cases ws)
  case (Cons b vs)
  show ?thesis
  proof (cases vs)
    case (Cons c vs')
    have "b < t" using tiles_split(8) assms(1) \<open>ws = b # vs\<close> by blast
    moreover have "c < t" using tiles_split(8) [of m a t "us @ [b]" c vs'] assms(1) \<open>ws = b # vs\<close> Cons by simp
    ultimately show ?thesis using assms(2) \<open>ws = b # vs\<close> Cons by (simp add: cursor_def)
  qed (use assms(2) Cons in \<open>simp add: cursor_def\<close>)
qed (use assms(2) in \<open>simp add: cursor_def\<close>)

text \<open>Advancing past the buddy.\<close>

lemma cursor_advance:
  assumes "tiles m a t (us @ c # vs)"
  shows "\<exists>block buddy'. blk_next m c = Some block \<and> (if block < t then blk_next m block else Some buddy) = Some buddy' \<and>
           cursor t (us @ [c]) vs block buddy'"
proof (cases vs)
  case Nil
  then show ?thesis using tiles_split(7) [OF assms] by (simp add: cursor_def)
next
  case (Cons d ws)
  have t: "tiles m a t ((us @ [c]) @ d # ws)" using assms Cons by simp
  show ?thesis using tiles_split(7) [OF assms] tiles_split(7,8) [OF t] Cons by (simp add: cursor_def)
qed

definition candidate :: "memory \<Rightarrow> uptr list \<Rightarrow> usize \<Rightarrow> uptr \<Rightarrow> bool" where
  "candidate m bs sz best \<longleftrightarrow> best = 0 \<or> best \<in> set bs \<and> blk_free m best \<and> sz \<le> blk_size m best"

lemma candidate_keep:
  assumes "candidate m bs sz best" and "set bs \<subseteq> set bs'"
    and "\<And>b. b \<in> set bs \<Longrightarrow> (blk_free m b \<longrightarrow> blk_free m' b) \<and> blk_size m b \<le> blk_size m' b"
  shows "candidate m' bs' sz best"
  using assms unfolding candidate_def by (meson order_trans subsetD)

lemma find_best_loop_merge:
  assumes "block < t \<and> buddy < t" and "blk_free m block \<and> blk_free m buddy \<and> blk_size m block = blk_size m buddy"
    and "m1 = set_size m block (blk_size m block * 2)"
    and "best' = (if sz \<le> blk_size m1 block \<and> (best = 0 \<or> blk_size m1 block \<le> blk_size m1 best) then block else best)"
    and "blk_next m1 buddy = Some block'" and "(if block' < t then blk_next m1 block' else Some buddy) = Some buddy'"
  shows "find_best_loop t sz m best block buddy = find_best_loop t sz m1 best' block' buddy'"
  unfolding find_best_loop.simps [of t sz m best block buddy] if_P [OF assms(1)] if_P [OF assms(2)] Let_def
    assms(3) [symmetric] assms(4) [symmetric] assms(5) Option.bind.simps assms(6) ..

lemma find_best_loop_skip:
  assumes "block < t \<and> buddy < t" and "\<not> (blk_free m block \<and> blk_free m buddy \<and> blk_size m block = blk_size m buddy)"
    and "(if best \<noteq> 0 then size_required (blk_size m best) else Some 0) = Some absz"
    and "best1 = (if blk_free m block \<and> sz \<le> blk_size m block \<and> (best = 0 \<or> blk_size m block \<le> absz) then block else best)"
    and "best2 = (if blk_free m buddy \<and> sz \<le> blk_size m buddy \<and> (best1 = 0 \<or> blk_size m buddy < absz) then buddy else best1)"
    and "size_required (blk_size m block) = Some sb" and "size_required (blk_size m buddy) = Some sd"
    and "blk_next m buddy = Some block'" and "(if block' < t then blk_next m block' else Some buddy) = Some buddy'"
  shows "find_best_loop t sz m best block buddy =
    (if sb \<le> sd then find_best_loop t sz m best2 block' buddy' else find_best_loop t sz m best2 buddy block')"
  unfolding find_best_loop.simps [of t sz m best block buddy] if_P [OF assms(1)] if_not_P [OF assms(2)] assms(3)
    Option.bind.simps Let_def assms(4) [symmetric] assms(5) [symmetric] assms(6-9) ..

lemma find_best_loop_finds:
  assumes "tiles m a t (us @ ws)" and "cursor t us ws block buddy" and "candidate m (us @ take 1 ws) sz best"
  shows "\<exists>m' best' bs'. find_best_loop t sz m best block buddy = Some (m', best') \<and>
           rearranges a t m (us @ ws) m' bs' \<and> candidate m' bs' sz best'"
  using assms
proof (induction "length ws" arbitrary: m us ws block buddy best rule: less_induct)
  case less
  note t = less.prems(1)
  show ?case
  proof (cases "\<exists>vs. ws = block # buddy # vs")
    case False
    then have "\<not> (block < t \<and> buddy < t)" using cursor_tail_or_pair [OF less.prems(1,2)] by blast
    then have "find_best_loop t sz m best block buddy = Some (m, best)" by (subst find_best_loop.simps) auto
    moreover have "candidate m (us @ ws) sz best"
      using less.prems(3) by (rule candidate_keep) (auto dest: in_set_takeD)
    ultimately show ?thesis using rearranges_refl [OF t] by blast
  next
    case True
    then obtain vs where ws: "ws = block # buddy # vs" by blast
    have guard: "block < t \<and> buddy < t" using cursor_tail_or_pair [OF less.prems(1,2)] True by blast
    have tb: "tiles m a t (us @ block # buddy # vs)" using t ws by simp
    have td: "tiles m a t ((us @ [block]) @ buddy # vs)" using t ws by simp
    show ?thesis
    proof (cases "blk_free m block \<and> blk_free m buddy \<and> blk_size m block = blk_size m buddy")
      case merge: True
      let ?m = "set_size m block (blk_size m block * 2)"
      note step = merge_step [OF tb _ _ _ refl] 
      have t1: "tiles ?m a t (us @ block # vs)" using step(1) merge by (simp add: rearranges_def)
      obtain block' buddy' where adv: "blk_next ?m block = Some block'"
        "(if block' < t then blk_next ?m block' else Some buddy) = Some buddy'" "cursor t (us @ [block]) vs block' buddy'"
        using cursor_advance [OF t1] by blast
      have same: "blk_size ?m buddy = blk_size m buddy" using step(4) merge by blast
      have nb: "blk_next ?m buddy = Some block'"
        using step(5) merge adv(1) same by (simp add: blk_next_def)
      define best' where "best' = (if sz \<le> blk_size ?m block \<and> (best = 0 \<or> blk_size ?m block \<le> blk_size ?m best) then block else best)"
      have run: "find_best_loop t sz m best block buddy = find_best_loop t sz ?m best' block' buddy'"
        by (rule find_best_loop_merge [OF guard merge refl best'_def nb adv(2)])
      have "candidate ?m (us @ [block]) sz best"
      proof (rule candidate_keep)
        show "candidate m (us @ [block]) sz best" using less.prems(3) ws by simp
        show "(blk_free m b \<longrightarrow> blk_free ?m b) \<and> blk_size m b \<le> blk_size ?m b" if "b \<in> set (us @ [block])" for b
        proof (cases "b = block")
          case True
          then show ?thesis using step(2,3) merge by (simp add: word_le_nat_alt)
        next
          case False
          then show ?thesis using step(4) [of b] merge that by auto
        qed
      qed simp
      then have "candidate ?m (us @ [block]) sz best'"
        using step(3) merge by (auto simp: best'_def candidate_def)
      then have cand: "candidate ?m ((us @ [block]) @ take 1 vs) sz best'" by (rule candidate_keep) auto
      have "tiles ?m a t ((us @ [block]) @ vs)" using t1 by simp
      from less.hyps [rotated 1, OF this adv(3) cand]
      obtain m' b' bs' where "find_best_loop t sz ?m best' block' buddy' = Some (m', b')"
        "rearranges a t ?m ((us @ [block]) @ vs) m' bs'" "candidate m' bs' sz b'"
        unfolding ws by (metis length_Cons less_SucI lessI)
      moreover have "rearranges a t m (us @ ws) ?m ((us @ [block]) @ vs)" using step(1) merge ws by simp
      ultimately show ?thesis unfolding run using rearranges_trans by blast
    next
      case skip: False
      have szs: "size_required (blk_size m b) = Some (of_nat (bsz m b))" if "b \<in> set (us @ ws)" for b
        using block_next(3) tiles_mem [OF t that] by blast
      obtain absz where absz: "(if best \<noteq> 0 then size_required (blk_size m best) else Some 0) = Some absz"
        using szs [of best] less.prems(3) ws by (cases "best = 0") (auto simp: candidate_def)
      define best1 where "best1 = (if blk_free m block \<and> sz \<le> blk_size m block \<and> (best = 0 \<or> blk_size m block \<le> absz) then block else best)"
      define best2 where "best2 = (if blk_free m buddy \<and> sz \<le> blk_size m buddy \<and> (best1 = 0 \<or> blk_size m buddy < absz) then buddy else best1)"
      have "candidate m (us @ [block, buddy]) sz best2"
        using less.prems(3) ws by (auto simp: best1_def best2_def candidate_def)
      obtain block' buddy' where adv: "blk_next m buddy = Some block'"
        "(if block' < t then blk_next m block' else Some buddy) = Some buddy'" "cursor t ((us @ [block]) @ [buddy]) vs block' buddy'"
        using cursor_advance [OF td] by blast
      note run = find_best_loop_skip [OF guard skip absz best1_def best2_def szs szs adv(1,2)]
      show ?thesis
      proof (cases "(of_nat (bsz m block) :: usize) \<le> of_nat (bsz m buddy)")
        case True
        have "candidate m (((us @ [block]) @ [buddy]) @ take 1 vs) sz best2"
          using \<open>candidate m (us @ [block, buddy]) sz best2\<close> by (rule candidate_keep) auto
        then show ?thesis using less.hyps [of vs m "(us @ [block]) @ [buddy]"] adv(3) ws t run True by simp
      next
        case False
        have "block' = (case vs of [] \<Rightarrow> t | c # _ \<Rightarrow> c)" using tiles_split(7) [OF td] adv(1) by simp
        then show ?thesis
          using less.hyps [of "buddy # vs" m "us @ [block]"] \<open>candidate m (us @ [block, buddy]) sz best2\<close> ws t run False
          by (simp add: cursor_def)
      qed
    qed
  qed
qed

lemma find_best_finds:
  assumes t: "tiles m (ba_head this) (ba_tail this) bs" and "bs \<noteq> []" and "request sz"
  shows "\<exists>m' r bs'. find_best this m sz = Some (m', r) \<and>
           rearranges (ba_head this) (ba_tail this) m bs m' bs' \<and>
           (r = 0 \<or> r \<in> set bs' \<and> blk_free m' r \<and> bsz m' r = unat sz)"
proof -
  let ?a = "ba_head this" and ?t = "ba_tail this"
  obtain vs where bs: "bs = ?a # vs" using assms by (cases bs) auto
  let ?buddy = "case vs of [] \<Rightarrow> ?t | c # _ \<Rightarrow> c"
  have nx: "blk_next m ?a = Some ?buddy" using tiles_split(7) [of m ?a ?t "[]" ?a vs] t bs by simp
  show ?thesis
  proof (cases "?buddy = ?t \<and> blk_free m ?a")
    case True
    then show ?thesis using split_until_splits [OF t _ _ assms(3), of ?a] nx bs
      by (auto simp: find_best_def split: if_splits)
  next
    case False
    have "cursor ?t [] bs ?a ?buddy" using bs by (simp add: cursor_def)
    then obtain m1 best bs1 where l: "find_best_loop ?t sz m 0 ?a ?buddy = Some (m1, best)"
      "rearranges ?a ?t m bs m1 bs1" "candidate m1 bs1 sz best"
      using find_best_loop_finds [of m ?a ?t "[]" bs ?a ?buddy sz 0] t by (auto simp: candidate_def)
    show ?thesis
    proof (cases "best = 0")
      case True
      then show ?thesis using l nx False by (auto simp: find_best_def)
    next
      case best: False
      then have b: "best \<in> set bs1" "blk_free m1 best" "unat sz \<le> bsz m1 best"
        using l(3) req_ge(1) [of "unat (blk_size m1 best)"] by (auto simp: candidate_def word_le_nat_alt)
      have "tiles m1 ?a ?t bs1" using l(2) by (simp add: rearranges_def)
      then obtain m2 r bs2 where "split_until m1 best sz = Some (m2, r)" "rearranges ?a ?t m1 bs1 m2 bs2"
        "r \<in> set bs2 \<and> blk_free m2 r \<and> bsz m2 r = unat sz"
        using split_until_splits [OF _ b(1,2) assms(3)] b(3) by (metis (full_types))
      moreover have "find_best this m sz = split_until m1 best sz" using nx False l(1) best by (auto simp: find_best_def)
      ultimately show ?thesis using rearranges_trans [OF l(2)] by auto
    qed
  qed
qed

lemma coalescence_pass_merges:
  assumes "tiles m a t (us @ ws)" and "cursor t us ws block buddy"
  shows "\<exists>m' r bs'. coalescence_pass t m block buddy none = Some (m', r) \<and> rearranges a t m (us @ ws) m' bs' \<and>
           (r = none \<and> length bs' \<le> length (us @ ws) \<or> length bs' < length (us @ ws))"
  using assms
proof (induction "length ws" arbitrary: m us ws block buddy none rule: less_induct)
  case less
  note t = less.prems(1)
  show ?case
  proof (cases "\<exists>vs. ws = block # buddy # vs")
    case False
    then have "\<not> (block < t \<and> buddy < t)" using cursor_tail_or_pair [OF less.prems(1,2)] by blast
    then have "coalescence_pass t m block buddy none = Some (m, none)" by (subst coalescence_pass.simps) auto
    then show ?thesis using rearranges_refl [OF t] by blast
  next
    case True
    then obtain vs where ws: "ws = block # buddy # vs" by blast
    have guard: "block < t \<and> buddy < t" using cursor_tail_or_pair [OF less.prems(1,2)] True by blast
    have tb: "tiles m a t (us @ block # buddy # vs)" and td: "tiles m a t ((us @ [block]) @ buddy # vs)"
      using t ws by simp_all
    show ?thesis
    proof (cases "blk_free m block \<and> blk_free m buddy \<and> blk_size m block = blk_size m buddy")
      case merge: True
      define m1 where "m1 = set_size m block (blk_size m block * 2)"
      have step: "rearranges a t m (us @ ws) m1 ((us @ [block]) @ vs)" using merge_step(1) [OF tb _ _ _ m1_def] merge ws by simp
      then have t1: "tiles m1 a t ((us @ [block]) @ vs)" by (simp add: rearranges_def)
      obtain block' buddy' where adv: "blk_next m1 block = Some block'"
        "(if block' < t then blk_next m1 block' else Some buddy) = Some buddy'" "cursor t (us @ [block]) vs block' buddy'"
        using cursor_advance [of m1 a t us block vs buddy] t1 by auto
      define none' where "none' = (if block' < t then False else none)"
      have run: "coalescence_pass t m block buddy none = coalescence_pass t m1 block' buddy' none'"
        unfolding coalescence_pass.simps [of t m block buddy] if_P [OF guard] if_P [OF merge] Let_def m1_def [symmetric]
          adv(1) Option.bind.simps using adv(2) by (cases "block' < t") (simp_all add: none'_def)
      obtain m' r bs' where r: "coalescence_pass t m1 block' buddy' none' = Some (m', r)"
        "rearranges a t m1 ((us @ [block]) @ vs) m' bs'"
        "r = none' \<and> length bs' \<le> length ((us @ [block]) @ vs) \<or> length bs' < length ((us @ [block]) @ vs)"
        using less.hyps [rotated 1, OF t1 adv(3), of none'] unfolding ws by (metis length_Cons less_SucI lessI)
      have "length bs' < length (us @ ws)" using r(3) ws by auto
      then show ?thesis unfolding run using rearranges_trans [OF step r(2)] r(1) by blast
    next
      case skip: False
      have szs: "size_required (blk_size m b) = Some (of_nat (bsz m b))" if "b \<in> set (us @ ws)" for b
        using block_next(3) tiles_mem [OF t that] by blast
      obtain block' buddy' where adv: "blk_next m buddy = Some block'"
        "(if block' < t then blk_next m block' else Some buddy) = Some buddy'" "cursor t ((us @ [block]) @ [buddy]) vs block' buddy'"
        using cursor_advance [OF td] by blast
      have run: "coalescence_pass t m block buddy none =
          (if (of_nat (bsz m block) :: usize) < of_nat (bsz m buddy) then coalescence_pass t m buddy block' none
           else coalescence_pass t m block' buddy' none)"
        unfolding coalescence_pass.simps [of t m block buddy] if_P [OF guard] if_not_P [OF skip]
        using szs [of block] szs [of buddy] ws adv(1,2) by simp
      have "block' = (case vs of [] \<Rightarrow> t | c # _ \<Rightarrow> c)" using tiles_split(7) [OF td] adv(1) by simp
      then have "cursor t (us @ [block]) (buddy # vs) buddy block'" by (simp add: cursor_def)
      then show ?thesis
        using less.hyps [of vs m "(us @ [block]) @ [buddy]" block' buddy' none]
          less.hyps [of "buddy # vs" m "us @ [block]" buddy block' none] adv(3) ws t
        unfolding run by simp
    qed
  qed
qed

lemma coalescence_merges:
  assumes "tiles m (ba_head this) (ba_tail this) bs" and "bs \<noteq> []"
  shows "\<exists>m' bs'. coalescence this m = Some m' \<and> rearranges (ba_head this) (ba_tail this) m bs m' bs' \<and> bs' \<noteq> []"
  using assms
proof (induction "length bs" arbitrary: m bs rule: less_induct)
  case less
  let ?a = "ba_head this" and ?t = "ba_tail this"
  obtain vs where bs: "bs = ?a # vs" using less.prems by (cases bs) auto
  let ?buddy = "case vs of [] \<Rightarrow> ?t | c # _ \<Rightarrow> c"
  have nx: "blk_next m ?a = Some ?buddy" using tiles_split(7) [of m ?a ?t "[]" ?a vs] less.prems bs by simp
  have "?a < ?t" using tiles_split(8) [of m ?a ?t "[]" ?a vs] less.prems bs by simp
  then have ne: "bs' \<noteq> []" if "rearranges ?a ?t m bs m' bs'" for m' bs'
    using that by (auto simp: rearranges_def)
  have "cursor ?t [] bs ?a ?buddy" using bs by (simp add: cursor_def)
  then obtain m1 r bs1 where p: "coalescence_pass ?t m ?a ?buddy True = Some (m1, r)" "rearranges ?a ?t m bs m1 bs1"
    "r = True \<and> length bs1 \<le> length bs \<or> length bs1 < length bs"
    using coalescence_pass_merges [of m ?a ?t "[]" bs ?a ?buddy True] less.prems(1) by auto
  have run: "coalescence this m = (if r then Some m1 else coalescence this m1)"
    using nx p(1) by (subst coalescence.simps) simp
  show ?case
  proof (cases r)
    case True
    then show ?thesis using run p(2) ne by auto
  next
    case False
    then have "\<exists>m' bs'. coalescence this m1 = Some m' \<and> rearranges ?a ?t m1 bs1 m' bs' \<and> bs' \<noteq> []"
      using p ne less.hyps [of bs1 m1] by (auto simp: rearranges_def)
    then show ?thesis using run False rearranges_trans [OF p(2)] by auto
  qed
qed

lemma find_or_coalesce_finds:
  assumes "tiles m (ba_head this) (ba_tail this) bs" and "bs \<noteq> []" and "request sz"
  shows "\<exists>m' r bs'. find_or_coalesce this m sz = Some (m', r) \<and>
           rearranges (ba_head this) (ba_tail this) m bs m' bs' \<and>
           (r = 0 \<or> r \<in> set bs' \<and> blk_free m' r \<and> bsz m' r = unat sz)"
proof -
  let ?a = "ba_head this" and ?t = "ba_tail this"
  obtain m1 r1 bs1 where f1: "find_best this m sz = Some (m1, r1)" "rearranges ?a ?t m bs m1 bs1"
    "r1 = 0 \<or> r1 \<in> set bs1 \<and> blk_free m1 r1 \<and> bsz m1 r1 = unat sz" using find_best_finds [OF assms] by blast
  show ?thesis
  proof (cases "r1 = 0")
    case True
    have "?a \<noteq> ?t" using assms(1,2) req_ge(3) [of "unat (blk_size m ?t)"] by (cases bs) auto
    then have "tiles m1 ?a ?t bs1" "bs1 \<noteq> []" using f1(2) by (auto simp: rearranges_def)
    then obtain m2 bs2 where c: "coalescence this m1 = Some m2" "rearranges ?a ?t m1 bs1 m2 bs2" "bs2 \<noteq> []"
      using coalescence_merges by blast
    then have "tiles m2 ?a ?t bs2" by (simp add: rearranges_def)
    then obtain m3 r3 bs3 where f3: "find_best this m2 sz = Some (m3, r3)" "rearranges ?a ?t m2 bs2 m3 bs3"
      "r3 = 0 \<or> r3 \<in> set bs3 \<and> blk_free m3 r3 \<and> bsz m3 r3 = unat sz" using find_best_finds c(3) assms(3) by blast
    have "find_or_coalesce this m sz = Some (m3, r3)" using f1(1) True c(1) f3(1) by (simp add: find_or_coalesce_def)
    then show ?thesis using rearranges_trans [OF f1(2) rearranges_trans [OF c(2) f3(2)]] f3(3) by blast
  next
    case False
    then have "find_or_coalesce this m sz = Some (m1, r1)" using f1(1) by (simp add: find_or_coalesce_def)
    then show ?thesis using f1 by blast
  qed
qed

section \<open>Allocating and freeing\<close>

definition heap_inv :: "BuddyAlloc \<Rightarrow> memory \<Rightarrow> uptr list \<Rightarrow> bool" where
  "heap_inv this m bs \<longleftrightarrow> tiles m (ba_head this) (ba_tail this) bs \<and> bs \<noteq> [] \<and> ba_head this \<noteq> 0"

lemma tiles_cong_bsz:
  "(\<And>b. b \<in> set bs \<Longrightarrow> bsz m' b = bsz m b \<and> 16 < unat (blk_size m' b)) \<Longrightarrow> tiles m a t bs \<Longrightarrow> tiles m' a t bs"
  by (induction bs arbitrary: a) auto

lemma heap_mem:
  assumes "heap_inv this m bs" and "b \<in> set bs"
  shows "al b" and "b \<noteq> 0" and "32 \<le> bsz m b" and "unat (blk_data b) = unat b + 16"
    and "ba_head this \<le> blk_data b" and "blk_data b < ba_tail this" and "unat (blk_size m b) \<le> 2 ^ 63"
    and "16 < unat (blk_size m b)" and "blk_data b - sizeof_Block = b" and "blk_data b \<noteq> 0"
proof -
  have t: "tiles m (ba_head this) (ba_tail this) bs" and "ba_head this \<noteq> 0" using assms(1) by (auto simp: heap_inv_def)
  then have h: "0 < unat (ba_head this)" by (simp add: unat_gt_0)
  from tiles_mem [OF t assms(2)] show "al b" and big: "16 < unat (blk_size m b)" by auto
  from tiles_mem [OF t assms(2)] have le: "unat (ba_head this) \<le> unat b" "unat b + bsz m b \<le> unat (ba_tail this)" by auto
  show c: "32 \<le> bsz m b" using big by (rule req_big)
  show "b \<noteq> 0" using h le(1) by auto
  have "unat b + 16 < 2 ^ 64" using le(2) c unat_bound [of "ba_tail this"] by simp
  then show d: "unat (blk_data b) = unat b + 16"
    unfolding blk_data_def sizeof_Block_def by (subst unat_add_nowrap) auto
  then show "blk_data b \<noteq> 0" by auto
  show "ba_head this \<le> blk_data b" "blk_data b < ba_tail this"
    using d le c by (simp_all add: word_le_nat_alt word_less_nat_alt)
  show "unat (blk_size m b) \<le> 2 ^ 63" using block_small [OF le(2)] .
  show "blk_data b - sizeof_Block = b" by (simp add: blk_data_def)
qed

text \<open>Rewriting one block, header or payload, without changing its size class.\<close>

lemma hdr_frame:
  assumes "al b" and "\<forall>x. unat x \<in> {unat b..<unat b + 16} \<longrightarrow> m' x = m x"
  shows "blk_size m' b = blk_size m b" and "blk_free m' b = blk_free m b"
proof -
  have e: "m' (b + i) = m (b + i)" if "i < 16" for i
    using al_offset [OF assms(1) that] that assms(2) by (simp add: word_less_nat_alt)
  show "blk_size m' b = blk_size m b"
    using e [of 0] e [of 1] e [of 2] e [of 3] e [of 4] e [of 5] e [of 6] e [of 7] by (simp add: blk_size_def read64_def)
  show "blk_free m' b = blk_free m b" using e [of 8] by (simp add: blk_free_def)
qed

lemma rewrite_block:
  assumes h: "heap_inv this m bs" and r: "r \<in> set bs"
    and frame: "\<forall>x. unat x \<notin> area m r \<longrightarrow> m' x = m x"
    and size': "bsz m' r = bsz m r" "16 < unat (blk_size m' r)"
  shows "heap_inv this m' bs"
    and "allocd m' bs = (if blk_free m' r then allocd m bs - {r} else insert r (allocd m bs))"
    and "b \<in> set bs \<Longrightarrow> area m' b = area m b"
    and "b \<in> set bs \<Longrightarrow> b \<noteq> r \<Longrightarrow> blk_size m' b = blk_size m b \<and> blk_free m' b = blk_free m b"
proof -
  have t: "tiles m (ba_head this) (ba_tail this) bs" using h by (simp add: heap_inv_def)
  from split_list [OF r] obtain us vs where bs: "bs = us @ r # vs" by blast
  have other: "blk_size m' b = blk_size m b \<and> blk_free m' b = blk_free m b" if "b \<in> set bs" "b \<noteq> r" for b
  proof -
    have "b \<in> set us \<or> b \<in> set vs" using that bs by auto
    then have "area m b \<inter> area m r = {}" using tiles_other(3) t bs by blast
    moreover have "{unat b..<unat b + 16} \<subseteq> area m b" using heap_mem(3) [OF h that(1)] by (auto simp: area_def)
    ultimately show ?thesis using hdr_frame [of b m' m] heap_mem(1) [OF h that(1)] frame by blast
  qed
  then show "b \<in> set bs \<Longrightarrow> b \<noteq> r \<Longrightarrow> blk_size m' b = blk_size m b \<and> blk_free m' b = blk_free m b" .
  have sizes: "bsz m' b = bsz m b \<and> 16 < unat (blk_size m' b)" if "b \<in> set bs" for b
    using other [OF that] size' heap_mem(8) [OF h that] by (cases "b = r") auto
  then show "b \<in> set bs \<Longrightarrow> area m' b = area m b" by (simp add: area_def)
  show "heap_inv this m' bs" using tiles_cong_bsz [OF sizes t] h by (simp add: heap_inv_def)
  show "allocd m' bs = (if blk_free m' r then allocd m bs - {r} else insert r (allocd m bs))"
    using other r by (auto simp: allocd_def)
qed

lemma claim_block:
  assumes h: "heap_inv this m bs" and r: "r \<in> set bs" and n: "req (unat n) = bsz m r" "16 < unat n"
    and m': "m' = set_free (set_size m r n) r False"
  shows "heap_inv this m' bs" and "allocd m' bs = insert r (allocd m bs)" and "blk_size m' r = n"
    and "\<forall>x. unat x \<notin> area m r \<longrightarrow> m' x = m x"
    and "b \<in> set bs \<Longrightarrow> b \<noteq> r \<Longrightarrow> blk_size m' b = blk_size m b \<and> blk_free m' b = blk_free m b"
proof -
  note mem = heap_mem [OF h r]
  show hd: "blk_size m' r = n" by (simp add: m' hdr)
  have nf: "\<not> blk_free m' r" by (simp add: m' hdr)
  have "m' x = m x" if "unat x \<notin> area m r" for x
  proof -
    have "unat x \<notin> {unat r..<unat r + 16}" using that mem(3) by (auto simp: area_def)
    then show ?thesis using mem(1) by (simp add: m' set_size_frame set_free_frame del: atLeastLessThan_iff)
  qed
  then show frame: "\<forall>x. unat x \<notin> area m r \<longrightarrow> m' x = m x" by blast
  note rw = rewrite_block [OF h r frame, unfolded hd n(1), OF refl n(2)]
  show "heap_inv this m' bs" "allocd m' bs = insert r (allocd m bs)" using rw(1,2) nf by simp_all
  show "b \<in> set bs \<Longrightarrow> b \<noteq> r \<Longrightarrow> blk_size m' b = blk_size m b \<and> blk_free m' b = blk_free m b" by (rule rw(4))
qed

text \<open>What an allocation does: the returned block lies in an area that was free.\<close>

lemma take_block:
  assumes h: "heap_inv this m bs" and n: "16 < unat n" "unat n \<le> 2 ^ 63"
  shows "\<exists>m1 r bs1. size_required n = Some (of_nat (req (unat n))) \<and>
      find_or_coalesce this m (of_nat (req (unat n))) = Some (m1, r) \<and>
      rearranges (ba_head this) (ba_tail this) m bs m1 bs1 \<and> heap_inv this m1 bs1 \<and>
      (r = 0 \<or> r \<in> set bs1 \<and> blk_free m1 r \<and> bsz m1 r = req (unat n) \<and> area m1 r \<subseteq> free_area m bs \<and> r \<notin> allocd m bs)"
proof -
  let ?a = "ba_head this" and ?t = "ba_tail this" and ?sz = "of_nat (req (unat n)) :: usize"
  have t: "tiles m ?a ?t bs" "bs \<noteq> []" "?a \<noteq> 0" using h by (auto simp: heap_inv_def)
  have u: "unat ?sz = req (unat n)" using unat_req [OF n(2)] .
  have "request ?sz" using u req_big [OF n(1)] by (simp add: request_def)
  then obtain m1 r bs1 where f: "find_or_coalesce this m ?sz = Some (m1, r)" "rearranges ?a ?t m bs m1 bs1"
    "r = 0 \<or> r \<in> set bs1 \<and> blk_free m1 r \<and> bsz m1 r = unat ?sz" using find_or_coalesce_finds [OF t(1,2)] by blast
  have "?a \<noteq> ?t" using t(1,2) req_ge(3) [of "unat (blk_size m ?t)"] by (cases bs) auto
  then have h1: "heap_inv this m1 bs1" using f(2) t(3) by (auto simp: heap_inv_def rearranges_def)
  have "area m1 r \<subseteq> free_area m bs \<and> r \<notin> allocd m bs" if "r \<in> set bs1" "blk_free m1 r"
    using that f(2) by (auto simp: rearranges_def free_area_def allocd_def)
  then show ?thesis using f h1 u size_required_req [OF n(2)] by auto
qed

lemma malloc_takes_free:
  assumes h: "heap_inv this m bs" and s: "sz \<noteq> 0" "unat sz + 16 \<le> 2 ^ 63"
  shows "\<exists>m' p bs'. ba_malloc this m sz = Some (m', p) \<and> heap_inv this m' bs' \<and>
      (\<forall>x. unat x \<notin> free_area m bs \<longrightarrow> m' x = m x) \<and>
      (if p = 0 then allocd m' bs' = allocd m bs
       else allocd m' bs' = insert (p - 16) (allocd m bs) \<and> p - 16 \<notin> allocd m bs \<and>
            blk_size m' (p - 16) = sz + 16 \<and> {unat p..<unat p + unat sz} \<subseteq> free_area m bs)"
proof -
  let ?n = "sz + sizeof_Block"
  have n: "unat ?n = unat sz + 16" using s(2) by (simp add: sizeof_Block_def, subst unat_add_nowrap) auto
  have pos: "0 < unat sz" using s(1) by (simp add: unat_gt_0)
  obtain m1 r bs1 where f: "size_required ?n = Some (of_nat (req (unat ?n)))"
    "find_or_coalesce this m (of_nat (req (unat ?n))) = Some (m1, r)"
    "rearranges (ba_head this) (ba_tail this) m bs m1 bs1" "heap_inv this m1 bs1"
    "r = 0 \<or> r \<in> set bs1 \<and> blk_free m1 r \<and> bsz m1 r = req (unat ?n) \<and> area m1 r \<subseteq> free_area m bs \<and> r \<notin> allocd m bs"
    using take_block [OF h, of ?n] n pos s(2) by auto
  have frame: "\<forall>x. unat x \<notin> free_area m bs \<longrightarrow> m1 x = m x" "allocd m1 bs1 = allocd m bs"
    using f(3) by (auto simp: rearranges_def)
  show ?thesis
  proof (cases "r = 0")
    case True
    then show ?thesis using f(1,2,4) frame s(1) by (auto simp: ba_malloc_def)
  next
    case False
    then have r: "r \<in> set bs1" "bsz m1 r = req (unat ?n)" "area m1 r \<subseteq> free_area m bs" "r \<notin> allocd m bs"
      using f(5) by auto
    let ?m = "set_free (set_size m1 r ?n) r False"
    note mem = heap_mem [OF f(4) r(1)]
    have big: "16 < unat ?n" using n pos by simp
    note cl = claim_block [OF f(4) r(1) r(2) [symmetric] big refl]
    have run: "ba_malloc this m sz = Some (?m, blk_data r)" using f(1,2) False s(1) by (simp add: ba_malloc_def)
    have prev: "blk_data r - 16 = r" using mem(9) by (simp add: sizeof_Block_def)
    have "{unat (blk_data r)..<unat (blk_data r) + unat sz} \<subseteq> area m1 r"
      using mem(4) r(2) req_ge(1) [of "unat ?n"] n by (auto simp: area_def)
    moreover have "?m x = m x" if "unat x \<notin> free_area m bs" for x
      using that r(3) frame(1) cl(4) by (metis subsetD)
    ultimately show ?thesis using run cl(1-3) frame(2) r(3,4) mem(10) prev
      by (intro exI [of _ ?m] exI [of _ "blk_data r"] exI [of _ bs1]) (auto simp: sizeof_Block_def)
  qed
qed

lemma free_releases:
  assumes h: "heap_inv this m bs" and b: "b \<in> allocd m bs"
  shows "\<exists>m'. ba_free this m (blk_data b) = Some m' \<and> heap_inv this m' bs \<and> allocd m' bs = allocd m bs - {b} \<and>
           (\<forall>x. unat x \<notin> {unat b..<unat b + 16} \<longrightarrow> m' x = m x) \<and> free_area m' bs = free_area m bs \<union> area m b"
proof -
  have bs: "b \<in> set bs" using b by (simp add: allocd_def)
  note mem = heap_mem [OF h bs]
  let ?n = "of_nat (bsz m b) :: usize" and ?m = "set_free (set_size m b (of_nat (bsz m b))) b True"
  have u: "unat ?n = bsz m b" by (rule unat_req [OF mem(7)])
  have run: "ba_free this m (blk_data b) = Some ?m"
    using mem size_required_req [OF mem(7)] by (simp add: ba_free_def not_less [symmetric])
  have hd: "blk_size ?m b = ?n" "blk_free ?m b" by (simp_all add: hdr)
  have frame: "?m x = m x" if "unat x \<notin> {unat b..<unat b + 16}" for x
    using that mem(1) by (simp add: set_size_frame set_free_frame del: atLeastLessThan_iff)
  have "\<forall>x. unat x \<notin> area m b \<longrightarrow> ?m x = m x" using mem(3) frame by (auto simp: area_def)
  note rw = rewrite_block [OF h bs this]
  have size': "bsz ?m b = bsz m b" "16 < unat (blk_size ?m b)" unfolding hd u using mem(3) by auto
  have "c \<in> set bs \<Longrightarrow> blk_free ?m c \<longleftrightarrow> c = b \<or> blk_free m c" for c
    using rw(4) [OF size', of c] hd(2) by (cases "c = b") auto
  then have "free_area ?m bs = free_area m bs \<union> area m b"
    using rw(3) [OF size'] bs unfolding free_area_def by auto
  then show ?thesis using run frame rw(1,2) [OF size'] hd(2) by auto
qed

lemma heap_top: "heap_inv this m bs \<Longrightarrow> c \<in> set bs \<Longrightarrow> unat c + bsz m c < 2 ^ 64"
proof -
  assume h: "heap_inv this m bs" "c \<in> set bs"
  then have "unat c + bsz m c \<le> unat (ba_tail this)"
    using tiles_mem [of m "ba_head this" "ba_tail this" bs c] by (simp add: heap_inv_def)
  from order.strict_trans1 [OF this unat_bound] show ?thesis by simp
qed

lemma heap_disjoint:
  assumes "heap_inv this m bs" and "b \<in> set bs" and "c \<in> set bs" and "b \<noteq> c"
  shows "area m b \<inter> area m c = {}"
proof -
  from split_list [OF assms(2)] obtain us vs where bs: "bs = us @ b # vs" by blast
  then have "c \<in> set us \<or> c \<in> set vs" using assms(3,4) by auto
  then show ?thesis using tiles_other(3) [of m "ba_head this" "ba_tail this" us b vs c] assms(1) bs
    by (auto simp: heap_inv_def)
qed

text \<open>\<^verbatim>\<open>memcpy\<close> from one block to another, within the payload of the target.\<close>

lemma copy_between:
  assumes h: "heap_inv this m bs" and rb: "r \<in> set bs" "b \<in> set bs" "r \<noteq> b"
    and n: "unat n + 16 \<le> bsz m r" "unat n + 16 \<le> bsz m b"
  shows "i < n \<Longrightarrow> memcpy m (blk_data r) (blk_data b) n (blk_data r + i) = m (blk_data b + i)"
    and "unat x \<notin> {unat r + 16..<unat r + bsz m r} \<Longrightarrow> memcpy m (blk_data r) (blk_data b) n x = m x"
proof -
  note r = heap_mem(4) [OF h rb(1)] and b = heap_mem(4) [OF h rb(2)]
  note top = heap_top [OF h]
  have "area m r \<inter> area m b = {}" using heap_disjoint [OF h rb] .
  then have apart: "unat r + bsz m r \<le> unat b \<or> unat b + bsz m b \<le> unat r"
    using req_ge(3) [of "unat (blk_size m r)"] req_ge(3) [of "unat (blk_size m b)"]
    by (auto simp: area_def)
  have "n \<le> blk_data r - blk_data b"
    using apart r b n top [OF rb(1)] top [OF rb(2)]
    by (auto simp: word_le_nat_alt unat_sub_if_size word_size)
  then have app: "memcpy m (blk_data r) (blk_data b) n x =
      (if x - blk_data r < n then m (blk_data b + (x - blk_data r)) else m x)" for x
    by (intro memcpy_apply) simp
  show "i < n \<Longrightarrow> memcpy m (blk_data r) (blk_data b) n (blk_data r + i) = m (blk_data b + i)" by (simp add: app)
  show "memcpy m (blk_data r) (blk_data b) n x = m x" if out: "unat x \<notin> {unat r + 16..<unat r + bsz m r}"
  proof -
    have "\<not> x - blk_data r < n"
    proof
      assume l: "x - blk_data r < n"
      then have "unat (blk_data r + (x - blk_data r)) = unat (blk_data r) + unat (x - blk_data r)"
        using r n top [OF rb(1)] by (intro unat_add_nowrap) (simp add: word_less_nat_alt)
      then show False using l out r n by (simp add: word_less_nat_alt)
    qed
    then show ?thesis by (simp add: app)
  qed
qed

text \<open>The address of a payload byte.\<close>

lemma payload_addr:
  assumes "heap_inv this m bs" and "b \<in> set bs" and "i < blk_size m b - 16"
  shows "unat (blk_data b + i) = unat b + 16 + unat i" and "unat b + 16 + unat i < unat b + bsz m b"
proof -
  note mem = heap_mem [OF assms(1,2)]
  have "unat i < unat (blk_size m b) - 16"
    using assms(3) mem(8) by (simp add: word_less_nat_alt unat_sub_nowrap word_le_nat_alt)
  then show less: "unat b + 16 + unat i < unat b + bsz m b" using req_ge(1) [of "unat (blk_size m b)"] by simp
  then show "unat (blk_data b + i) = unat b + 16 + unat i"
    using mem(4) heap_top [OF assms(1,2)] by (subst unat_add_nowrap) auto
qed

definition moved :: "memory \<Rightarrow> memory \<Rightarrow> uptr \<Rightarrow> uptr \<Rightarrow> bool" where
  "moved m m' b p \<longleftrightarrow> (\<forall>i < blk_size m b - 16. m' (p + i) = m (blk_data b + i))"

definition untouched :: "memory \<Rightarrow> memory \<Rightarrow> uptr set \<Rightarrow> bool" where
  "untouched m m' A \<longleftrightarrow> (\<forall>c\<in>A. \<forall>x. unat x \<in> area m c \<longrightarrow> m' x = m x)"

lemma realloc_in_place:
  assumes h: "heap_inv this m bs" and b: "b \<in> allocd m bs"
    and n: "req (unat n) = bsz m b" "16 < unat n" and m': "m' = set_size m b n"
  shows "heap_inv this m' bs" and "allocd m' bs = allocd m bs" and "blk_size m' b = n"
    and "moved m m' b (blk_data b)" and "untouched m m' (allocd m bs - {b})"
proof -
  have bs: "b \<in> set bs" and nf: "\<not> blk_free m b" using b by (auto simp: allocd_def)
  note mem = heap_mem [OF h bs]
  show hd: "blk_size m' b = n" by (simp add: m' hdr)
  have nf': "\<not> blk_free m' b" using nf by (simp add: m' hdr)
  have frame: "m' x = m x" if "unat x \<notin> {unat b..<unat b + 16}" for x using set_size_frame [OF mem(1) that] m' by simp
  have out: "\<forall>x. unat x \<notin> area m b \<longrightarrow> m' x = m x" using mem(3) frame by (auto simp: area_def)
  note rw = rewrite_block [OF h bs out]
  have size': "bsz m' b = bsz m b" "16 < unat (blk_size m' b)" unfolding hd using n by auto
  show "heap_inv this m' bs" "allocd m' bs = allocd m bs" using rw(1,2) [OF size'] nf' b by auto
  show "moved m m' b (blk_data b)" using payload_addr [OF h bs] by (auto simp: moved_def intro!: frame)
  show "untouched m m' (allocd m bs - {b})"
    using heap_disjoint [OF h _ bs] out by (auto simp: untouched_def allocd_def)
qed

lemma copy_block:
  assumes h: "heap_inv this m bs" and rb: "r \<in> set bs" "b \<in> set bs" "r \<noteq> b" and fits: "unat (blk_size m b) \<le> unat (blk_size m r)"
    and m': "m' = memcpy m (blk_data r) (blk_data b) (blk_size m b - sizeof_Block)"
  shows "heap_inv this m' bs" and "\<And>c. c \<in> set bs \<Longrightarrow> blk_size m' c = blk_size m c \<and> blk_free m' c = blk_free m c"
    and "moved m m' b (blk_data r)" and "\<forall>x. unat x \<notin> area m r \<longrightarrow> m' x = m x"
proof -
  let ?c = "blk_size m b - sizeof_Block"
  note mr = heap_mem [OF h rb(1)] and mb = heap_mem [OF h rb(2)]
  have c: "unat ?c = unat (blk_size m b) - 16"
    using mb(8) by (simp add: sizeof_Block_def unat_sub_nowrap word_le_nat_alt)
  have room: "unat ?c + 16 \<le> bsz m r" "unat ?c + 16 \<le> bsz m b"
    using c fits mb(8) req_ge(1) [of "unat (blk_size m r)"] req_ge(1) [of "unat (blk_size m b)"] by auto
  note cp = copy_between [OF h rb room, folded m']
  show "moved m m' b (blk_data r)" using cp(1) by (simp add: moved_def sizeof_Block_def)
  show frame: "\<forall>x. unat x \<notin> area m r \<longrightarrow> m' x = m x" using cp(2) by (auto simp: area_def)
  have "\<forall>x. unat x \<in> {unat r..<unat r + 16} \<longrightarrow> m' x = m x" using cp(2) by auto
  note hr = hdr_frame [OF mr(1) this]
  note rw = rewrite_block [OF h rb(1) frame, unfolded hr, OF refl mr(8)]
  show "heap_inv this m' bs" by (rule rw(1))
  show "\<And>c. c \<in> set bs \<Longrightarrow> blk_size m' c = blk_size m c \<and> blk_free m' c = blk_free m c"
    using rw(4) hr by blast
qed

lemma release_block:
  assumes h: "heap_inv this m bs" and b: "b \<in> set bs" and m': "m' = set_free m b True"
  shows "heap_inv this m' bs" and "allocd m' bs = allocd m bs - {b}"
    and "\<forall>x. unat x \<notin> {unat b..<unat b + 16} \<longrightarrow> m' x = m x"
    and "c \<in> set bs \<Longrightarrow> c \<noteq> b \<Longrightarrow> blk_size m' c = blk_size m c"
proof -
  note mem = heap_mem [OF h b]
  show f: "\<forall>x. unat x \<notin> {unat b..<unat b + 16} \<longrightarrow> m' x = m x" using set_free_frame [OF mem(1)] m' by simp
  have hd: "blk_size m' b = blk_size m b" "blk_free m' b" by (simp_all add: m' hdr)
  have "\<forall>x. unat x \<notin> area m b \<longrightarrow> m' x = m x" using f mem(3) by (auto simp: area_def)
  note rw = rewrite_block [OF h b this, unfolded hd(1), OF refl mem(8)]
  show "heap_inv this m' bs" "allocd m' bs = allocd m bs - {b}" using rw(1,2) hd by simp_all
  show "c \<in> set bs \<Longrightarrow> c \<noteq> b \<Longrightarrow> blk_size m' c = blk_size m c" using rw(4) by blast
qed

lemma realloc_move:
  assumes h: "heap_inv this m bs" and b: "b \<in> allocd m bs" and r: "r \<in> set bs" "blk_free m r"
    and n: "req (unat n) = bsz m r" "16 < unat n" and fits: "unat (blk_size m b) \<le> unat n"
    and m2: "m2 = set_free (set_size m r n) r False"
    and m3: "m3 = memcpy m2 (blk_data r) (blk_data b) (blk_size m b - sizeof_Block)"
    and m4: "m4 = set_free m3 b True"
  shows "heap_inv this m4 bs" and "allocd m4 bs = insert r (allocd m bs - {b})" and "blk_size m4 r = n"
    and "moved m m4 b (blk_data r)" and "untouched m m4 (allocd m bs - {b})"
proof -
  have bs: "b \<in> set bs" and ne: "r \<noteq> b" using b r by (auto simp: allocd_def)
  note s2 = claim_block [OF h r(1) n m2]
  have b2: "blk_size m2 b = blk_size m b" "\<not> blk_free m2 b" using s2(5) [OF bs] ne b by (auto simp: allocd_def)
  note s3 = copy_block [OF s2(1) r(1) bs ne, unfolded b2(1) s2(3), OF fits m3]
  note s4 = release_block [OF s3(1) bs m4]
  have b3: "allocd m3 bs = allocd m2 bs" using s3(2) by (auto simp: allocd_def)
  show "heap_inv this m4 bs" by (rule s4(1))
  show "allocd m4 bs = insert r (allocd m bs - {b})" using s4(2) b3 s2(2) ne by auto
  show "blk_size m4 r = n" using s4(4) [OF r(1) ne] s3(2) [OF r(1)] s2(3) by simp
  have dis: "area m c \<inter> area m d = {}" if "c \<in> set bs" "d \<in> set bs" "c \<noteq> d" for c d by (rule heap_disjoint [OF h that])
  have hdb: "{unat b..<unat b + 16} \<subseteq> area m b" using heap_mem(3) [OF h bs] by (auto simp: area_def)
  have ar: "area m2 r = area m r" using s2(3) n(1) by (simp add: area_def)
  have keep: "m4 x = m x" if "unat x \<notin> area m r" "unat x \<notin> {unat b..<unat b + 16}" for x
    using that s4(3) s3(4) s2(4) ar by simp
  show "untouched m m4 (allocd m bs - {b})"
    unfolding untouched_def
  proof (intro ballI allI impI keep)
    fix c x assume "c \<in> allocd m bs - {b}" "unat x \<in> area m c"
    then have "c \<in> set bs" "c \<noteq> b" "c \<noteq> r" using r(2) by (auto simp: allocd_def)
    then show "unat x \<notin> area m r" "unat x \<notin> {unat b..<unat b + 16}"
      using dis [OF _ r(1)] dis [OF _ bs] hdb \<open>unat x \<in> area m c\<close> by blast+
  qed
  show "moved m m4 b (blk_data r)"
    unfolding moved_def
  proof (intro allI impI)
    fix i assume i: "i < blk_size m b - 16"
    note p = payload_addr [OF h bs i]
    have "unat (blk_data b + i) \<in> area m b" using p by (simp add: area_def)
    then have src: "m2 (blk_data b + i) = m (blk_data b + i)" using s2(4) dis [OF bs r(1)] ne by blast
    have "i < blk_size m2 r - 16"
      using i fits n(2) heap_mem(8) [OF h bs] unfolding s2(3)
      by (simp add: word_less_nat_alt unat_sub_nowrap word_le_nat_alt)
    note q = payload_addr [OF s2(1) r(1) this]
    have "unat (blk_data r + i) \<in> area m r" using q unfolding ar [symmetric] by (simp add: area_def)
    then have "unat (blk_data r + i) \<notin> {unat b..<unat b + 16}" using dis [OF bs r(1)] ne hdb by blast
    then have "m4 (blk_data r + i) = m3 (blk_data r + i)" using s4(3) by blast
    also have "\<dots> = m2 (blk_data b + i)" using s3(3) i b2(1) by (simp add: moved_def)
    finally show "m4 (blk_data r + i) = m (blk_data b + i)" using src by simp
  qed
qed

lemma realloc_run:
  assumes h: "heap_inv this m bs" and b: "b \<in> set bs" and s: "sz \<noteq> 0" "unat (sz + sizeof_Block) \<le> 2 ^ 63"
  shows "ba_realloc this m (blk_data b) sz =
      (if bsz m b = req (unat (sz + sizeof_Block)) then Some (set_size m b (sz + sizeof_Block), blk_data b)
       else find_or_coalesce this m (of_nat (req (unat (sz + sizeof_Block)))) \<bind> (\<lambda>(m1, found).
         if found \<noteq> 0 then Some (set_free (memcpy (set_free (set_size m1 found (sz + sizeof_Block)) found False)
              (blk_data found) (blk_data b) (blk_size m b - sizeof_Block)) b True, blk_data found) else Some (m1, 0)))"
proof -
  note mem = heap_mem [OF h b]
  have "(of_nat (bsz m b) :: usize) = of_nat (req (unat (sz + sizeof_Block))) \<longleftrightarrow> bsz m b = req (unat (sz + sizeof_Block))"
    using unat_req [OF s(2)] unat_req [OF mem(7)] by metis
  then show ?thesis
    using mem s(1) size_required_req [OF s(2)] size_required_req [OF mem(7)]
    unfolding ba_realloc_def Let_def mem(9) by (simp add: not_less [symmetric])
qed

lemma untouched_mono: "untouched m m' A \<Longrightarrow> B \<subseteq> A \<Longrightarrow> untouched m m' B"
  by (auto simp: untouched_def)

text \<open>Allocated blocks are untouched by rearranging the free ones.\<close>

lemma rearranges_untouched:
  assumes "heap_inv this m bs" and "rearranges (ba_head this) (ba_tail this) m bs m1 bs1"
  shows "untouched m m1 (allocd m bs)" and "c \<in> allocd m bs \<Longrightarrow> blk_size m1 c = blk_size m c"
proof -
  have t: "tiles m (ba_head this) (ba_tail this) bs" using assms(1) by (simp add: heap_inv_def)
  show u: "untouched m m1 (allocd m bs)"
    using alloc_disjoint [OF t] assms(2) unfolding untouched_def rearranges_def by blast
  show "blk_size m1 c = blk_size m c" if c: "c \<in> allocd m bs"
  proof -
    have "c \<in> set bs" using c by (simp add: allocd_def)
    note mem = heap_mem [OF assms(1) this]
    have "\<forall>x. unat x \<in> {unat c..<unat c + 16} \<longrightarrow> m1 x = m x" using u c mem(3) by (auto simp: untouched_def area_def)
    then show ?thesis by (rule hdr_frame [OF mem(1)])
  qed
qed

lemma realloc_grows:
  assumes h: "heap_inv this m bs" and b: "b \<in> allocd m bs" and s: "sz \<noteq> 0" "unat sz + 16 \<le> 2 ^ 63"
    and grow: "unat (blk_size m b) \<le> unat sz + 16"
  shows "\<exists>m' p bs'. ba_realloc this m (blk_data b) sz = Some (m', p) \<and> heap_inv this m' bs' \<and>
      untouched m m' (allocd m bs - {b}) \<and>
      (if p = 0 then allocd m' bs' = allocd m bs \<and> untouched m m' {b}
       else allocd m' bs' = insert (p - 16) (allocd m bs - {b}) \<and> p - 16 \<notin> allocd m bs - {b} \<and> blk_size m' (p - 16) = sz + 16 \<and>
            moved m m' b p)"
proof -
  let ?n = "sz + sizeof_Block"
  have bs: "b \<in> set bs" using b by (simp add: allocd_def)
  note mem = heap_mem [OF h bs]
  have n: "unat ?n = unat sz + 16" using s(2) by (simp add: sizeof_Block_def, subst unat_add_nowrap) auto
  have n': "16 < unat ?n" "unat ?n \<le> 2 ^ 63" using n s by (auto simp: unat_gt_0)
  note run = realloc_run [OF h bs s(1) n'(2)]
  show ?thesis
  proof (cases "bsz m b = req (unat ?n)")
    case True
    note r = realloc_in_place [OF h b True [symmetric] n'(1) refl]
    show ?thesis using run True r b mem(9,10) 
      by (intro exI [of _ "set_size m b ?n"] exI [of _ "blk_data b"] exI [of _ bs]) (auto simp: sizeof_Block_def)
  next
    case False
    obtain m1 r bs1 where f: "find_or_coalesce this m (of_nat (req (unat ?n))) = Some (m1, r)"
      "rearranges (ba_head this) (ba_tail this) m bs m1 bs1" "heap_inv this m1 bs1"
      "r = 0 \<or> r \<in> set bs1 \<and> blk_free m1 r \<and> bsz m1 r = req (unat ?n) \<and> area m1 r \<subseteq> free_area m bs \<and> r \<notin> allocd m bs"
      using take_block [OF h n'] by auto
    have al: "allocd m1 bs1 = allocd m bs" using f(2) by (simp add: rearranges_def)
    note un = rearranges_untouched [OF h f(2)]
    have sb: "blk_size m1 b = blk_size m b" by (rule un(2) [OF b])
    show ?thesis
    proof (cases "r = 0")
      case True
      then show ?thesis using run False f(1,3) al untouched_mono [OF un(1)] b by auto
    next
      case r0: False
      then have r: "r \<in> set bs1" "blk_free m1 r" "req (unat ?n) = bsz m1 r" and fresh: "r \<notin> allocd m bs" using f(4) by auto
      have b1: "b \<in> allocd m1 bs1" using b al by simp
      have fits: "unat (blk_size m1 b) \<le> unat ?n" using grow n sb by simp
      note mv = realloc_move [OF f(3) b1 r n'(1) fits refl refl refl]
      have "untouched m m4 (allocd m bs - {b})" if "untouched m1 m4 (allocd m1 bs1 - {b})" for m4
        using that un al by (auto simp: untouched_def area_def)
      moreover have "moved m m4 b p" if "moved m1 m4 b p" for m4 p
      proof -
        have "unat (blk_data b + i) \<in> area m b" if "i < blk_size m b - 16" for i
          using payload_addr [OF h bs that] by (simp add: area_def)
        then show ?thesis using that un(1) b sb by (auto simp: moved_def untouched_def)
      qed
      ultimately show ?thesis using run False f(1) r0 mv al sb fresh heap_mem(9,10) [OF f(3) r(1)]
        by (simp add: sizeof_Block_def) blast
    qed
  qed
qed

section \<open>The contract of the heap\<close>

text \<open>What the kernel relies on: an allocation returns null or a pointer that is not live, and
  releasing a live pointer forgets only that pointer.\<close>

fun alloc_all :: "('m \<Rightarrow> 's \<Rightarrow> ('m \<times> 'p) option) \<Rightarrow> 'm \<Rightarrow> 's list \<Rightarrow> ('m \<times> 'p list) option" where
  "alloc_all alloc m [] = Some (m, [])"
| "alloc_all alloc m (s # ss) =
     do { (m1, p) \<leftarrow> alloc m s; (m2, ps) \<leftarrow> alloc_all alloc m1 ss; Some (m2, p # ps) }"

locale heap_contract =
  fixes holds :: "'m \<Rightarrow> 'p set \<Rightarrow> bool"
    and ok :: "'s \<Rightarrow> bool"
    and alloc :: "'m \<Rightarrow> 's \<Rightarrow> ('m \<times> 'p) option"
    and release :: "'m \<Rightarrow> 'p \<Rightarrow> 'm option"
    and null :: 'p
  assumes alloc_fresh: "holds m A \<Longrightarrow> ok s \<Longrightarrow> \<exists>m' p. alloc m s = Some (m', p) \<and>
      (if p = null then holds m' A else p \<notin> A \<and> holds m' (insert p A))"
    and release_live: "holds m A \<Longrightarrow> p \<in> A \<Longrightarrow> \<exists>m'. release m p = Some m' \<and> holds m' (A - {p})"
begin

lemma alloc_release: "holds m A \<Longrightarrow> ok s \<Longrightarrow>
    \<exists>m' p. alloc m s = Some (m', p) \<and> (p \<noteq> null \<longrightarrow> (\<exists>m''. release m' p = Some m'' \<and> holds m'' A))"
proof -
  assume "holds m A" "ok s"
  then obtain m' p where a: "alloc m s = Some (m', p)" "if p = null then holds m' A else p \<notin> A \<and> holds m' (insert p A)"
    using alloc_fresh by blast
  then show ?thesis using release_live [of m' "insert p A" p] by (auto split: if_splits)
qed

lemma alloc_all_distinct:
  "holds m A \<Longrightarrow> \<forall>s\<in>set ss. ok s \<Longrightarrow>
   \<exists>m' ps. alloc_all alloc m ss = Some (m', ps) \<and> length ps = length ss \<and>
     distinct (filter (\<lambda>p. p \<noteq> null) ps) \<and> set (filter (\<lambda>p. p \<noteq> null) ps) \<inter> A = {} \<and>
     holds m' (A \<union> set (filter (\<lambda>p. p \<noteq> null) ps))"
proof (induction ss arbitrary: m A)
  case (Cons s ss)
  then obtain m1 p where a: "alloc m s = Some (m1, p)" "if p = null then holds m1 A else p \<notin> A \<and> holds m1 (insert p A)"
    using alloc_fresh [of m A s] by auto
  let ?A = "if p = null then A else insert p A"
  have "holds m1 ?A" using a(2) by (auto split: if_splits)
  then obtain m2 ps where r: "alloc_all alloc m1 ss = Some (m2, ps)" "length ps = length ss"
    "distinct (filter (\<lambda>p. p \<noteq> null) ps)" "set (filter (\<lambda>p. p \<noteq> null) ps) \<inter> ?A = {}"
    "holds m2 (?A \<union> set (filter (\<lambda>p. p \<noteq> null) ps))" using Cons by (metis list.set_intros(2))
  then show ?case using a by (intro exI [of _ m2] exI [of _ "p # ps"]) (auto split: if_splits)
qed simp

end

definition heap_holds :: "BuddyAlloc \<Rightarrow> memory \<Rightarrow> uptr set \<Rightarrow> bool" where
  "heap_holds this m A \<longleftrightarrow> (\<exists>bs. heap_inv this m bs \<and> A = blk_data ` allocd m bs)"

definition malloc_ok :: "usize \<Rightarrow> bool" where
  "malloc_ok sz \<longleftrightarrow> sz \<noteq> 0 \<and> unat sz + 16 \<le> 2 ^ 63"

interpretation heap: heap_contract "heap_holds this" malloc_ok "ba_malloc this" "ba_free this" 0
  for this :: BuddyAlloc
proof
  have inj: "inj blk_data" by (simp add: inj_def blk_data_def)
  fix m A and s :: usize
  assume "heap_holds this m A" and s: "malloc_ok s"
  then obtain bs where h: "heap_inv this m bs" and A: "A = blk_data ` allocd m bs" by (auto simp: heap_holds_def)
  obtain m' p bs' where r: "ba_malloc this m s = Some (m', p)" "heap_inv this m' bs'"
    "if p = 0 then allocd m' bs' = allocd m bs else allocd m' bs' = insert (p - 16) (allocd m bs) \<and> p - 16 \<notin> allocd m bs"
    using malloc_takes_free [OF h, of s] s unfolding malloc_ok_def by (metis (no_types, lifting))
  have "blk_data (p - 16) = p" by (simp add: blk_data_def sizeof_Block_def)
  then have "if p = 0 then heap_holds this m' A else p \<notin> A \<and> heap_holds this m' (insert p A)"
    using r A inj_image_mem_iff [OF inj, of "p - 16" "allocd m bs"] 
    by (auto simp: heap_holds_def intro!: exI [of _ bs'] split: if_splits)
  then show "\<exists>m' p. ba_malloc this m s = Some (m', p) \<and> (if p = 0 then heap_holds this m' A else p \<notin> A \<and> heap_holds this m' (insert p A))"
    using r(1) by blast
next
  have inj: "inj blk_data" by (simp add: inj_def blk_data_def)
  fix m A p assume "heap_holds this m A" "p \<in> A"
  then obtain bs b where h: "heap_inv this m bs" "b \<in> allocd m bs" "p = blk_data b" "A = blk_data ` allocd m bs"
    by (auto simp: heap_holds_def)
  obtain m' where r: "ba_free this m p = Some m'" "heap_inv this m' bs" "allocd m' bs = allocd m bs - {b}"
    using free_releases [OF h(1,2)] h(3) by blast
  moreover have "A - {p} = blk_data ` (allocd m bs - {b})" using h(3,4) inj by (auto simp: inj_def)
  ultimately show "\<exists>m'. ba_free this m p = Some m' \<and> heap_holds this m' (A - {p})" unfolding heap_holds_def by metis
qed

section \<open>Properties\<close>

lemma init_heap:
  assumes "al base" and "base \<noteq> 0" and "16 < unat sz" and "unat base + req (unat sz) < 2 ^ 64"
  shows "\<exists>m' this. ba_init m base sz = Some (m', this) \<and> ba_head this = base \<and>
           unat (ba_tail this) = unat base + req (unat sz) \<and> heap_inv this m' [base] \<and> allocd m' [base] = {}"
proof -
  let ?m = "set_free (set_size m base sz) base True" and ?t = "base + of_nat (req (unat sz))"
  have hd: "blk_size ?m base = sz" "blk_free ?m base" by (simp_all add: hdr)
  have small: "unat sz \<le> 2 ^ 63" using assms(4) by (intro room_small [of "unat base"]) simp
  have ut: "unat ?t = unat base + req (unat sz)"
    using unat_req [OF small] assms(4) by (subst unat_add_nowrap) auto
  have "ba_init m base sz = Some (?m, \<lparr>ba_head = base, ba_tail = ?t\<rparr>)"
    using size_required_req [OF small] hd by (simp add: ba_init_def blk_next_def)
  then show ?thesis using assms hd ut by (auto simp: heap_inv_def allocd_def)
qed

text \<open>The heap the kernel sets up at boot, of 1 GiB.\<close>

definition boot_base :: uptr where
  "boot_base = NOT 0 - 1073741824 - 4096 + 1"

definition boot_heap :: BuddyAlloc where
  "boot_heap = snd (the (ba_init (\<lambda>_. 0) boot_base 1073741824))"

definition boot_mem :: memory where
  "boot_mem = fst (the (ba_init (\<lambda>_. 0) boot_base 1073741824))"

lemma boot_base_facts: "unat boot_base = 18446744072635805696" "al boot_base" "boot_base \<noteq> 0"
proof -
  show u: "unat boot_base = 18446744072635805696" by (simp add: boot_base_def)
  then show "al boot_base" "boot_base \<noteq> 0" by (auto simp: al_def)
qed

lemma boot_heap_inv: "heap_inv boot_heap boot_mem [boot_base]" "allocd boot_mem [boot_base] = {}"
proof -
  have r: "req 1073741824 = 1073741824" using req_unique [of 30 1073741824] by simp
  have fits: "16 < unat (1073741824 :: usize)" "unat boot_base + req (unat (1073741824 :: usize)) < 2 ^ 64"
    using r by (simp_all add: boot_base_facts)
  from init_heap [OF boot_base_facts(2,3) fits, of "\<lambda>_. 0"]
  show "heap_inv boot_heap boot_mem [boot_base]" "allocd boot_mem [boot_base] = {}"
    unfolding boot_heap_def boot_mem_def by auto
qed

text \<open>C6. \<^verbatim>\<open>malloc\<close> of the kernel heap, on a heap whose blocks tile it: the call returns; it writes only
  inside blocks that were free, so that no live block changes; the blocks tile the heap again;
  and the pointer is null or the payload of a new live block that lay in free space and
  has room for the request.\<close>

theorem malloc_sound:
  assumes "heap_inv this m bs" and "sz \<noteq> 0" and "unat sz + 16 \<le> 2 ^ 63"
  shows "\<exists>m' p bs'. ba_malloc this m sz = Some (m', p) \<and> heap_inv this m' bs' \<and>
      (\<forall>x. unat x \<notin> free_area m bs \<longrightarrow> m' x = m x) \<and>
      (if p = 0 then allocd m' bs' = allocd m bs
       else allocd m' bs' = insert (p - 16) (allocd m bs) \<and> p - 16 \<notin> allocd m bs \<and>
            blk_size m' (p - 16) = sz + 16 \<and> {unat p..<unat p + unat sz} \<subseteq> free_area m bs)"
  by (rule malloc_takes_free [OF assms])

theorem malloc_sound_witness:
  "\<exists>m' p bs'. ba_malloc boot_heap boot_mem 100 = Some (m', p) \<and> heap_inv boot_heap m' bs' \<and>
      (\<forall>x. unat x \<notin> free_area boot_mem [boot_base] \<longrightarrow> m' x = boot_mem x) \<and>
      (if p = 0 then allocd m' bs' = allocd boot_mem [boot_base]
       else allocd m' bs' = insert (p - 16) (allocd boot_mem [boot_base]) \<and> p - 16 \<notin> allocd boot_mem [boot_base] \<and>
            blk_size m' (p - 16) = 100 + 16 \<and> {unat p..<unat p + unat (100 :: usize)} \<subseteq> free_area boot_mem [boot_base])"
  by (rule malloc_sound [OF boot_heap_inv(1)]) simp_all

text \<open>Any sequence of \<^verbatim>\<open>malloc\<close> calls returns, and the non-null pointers it hands out are
  pairwise different and different from every pointer that was live before.\<close>

theorem malloc_sequence_distinct:
  assumes "heap_holds this m A" and "\<forall>s\<in>set ss. malloc_ok s"
  shows "\<exists>m' ps. alloc_all (ba_malloc this) m ss = Some (m', ps) \<and> length ps = length ss \<and>
     distinct (filter (\<lambda>p. p \<noteq> 0) ps) \<and> set (filter (\<lambda>p. p \<noteq> 0) ps) \<inter> A = {} \<and>
     heap_holds this m' (A \<union> set (filter (\<lambda>p. p \<noteq> 0) ps))"
  by (rule heap.alloc_all_distinct [OF assms])

theorem malloc_sequence_distinct_witness:
  "\<exists>m' ps. alloc_all (ba_malloc boot_heap) boot_mem [100, 5000] = Some (m', ps) \<and> length ps = length [100 :: usize, 5000] \<and>
     distinct (filter (\<lambda>p. p \<noteq> 0) ps) \<and> set (filter (\<lambda>p. p \<noteq> 0) ps) \<inter> {} = {} \<and>
     heap_holds boot_heap m' ({} \<union> set (filter (\<lambda>p. p \<noteq> 0) ps))"
  using boot_heap_inv by (intro malloc_sequence_distinct) (auto simp: heap_holds_def malloc_ok_def)

text \<open>C7. \<^verbatim>\<open>free\<close> of a live pointer returns, changes nothing but the header of that block, forgets
  exactly that block and makes exactly its bytes available again.\<close>

theorem free_sound:
  assumes "heap_inv this m bs" and "b \<in> allocd m bs"
  shows "\<exists>m'. ba_free this m (blk_data b) = Some m' \<and> heap_inv this m' bs \<and> allocd m' bs = allocd m bs - {b} \<and>
           (\<forall>x. unat x \<notin> {unat b..<unat b + 16} \<longrightarrow> m' x = m x) \<and> free_area m' bs = free_area m bs \<union> area m b"
  by (rule free_releases [OF assms])

text \<open>A heap of 128 bytes with a free and a live block of 64 bytes; the live one holds 17 bytes.\<close>

definition small_heap :: BuddyAlloc where
  "small_heap = \<lparr>ba_head = 4096, ba_tail = 4224\<rparr>"

definition small_mem :: memory where
  "small_mem = (\<lambda>x. if x = 4096 then 64 else if x = 4104 then 1 else if x = 4160 then 33 else 0)"

lemma small_headers:
  "blk_size small_mem 4096 = 64" "blk_size small_mem 4160 = 33" "blk_free small_mem 4096" "\<not> blk_free small_mem 4160"
  by code_simp+

lemma small_req: "req 64 = 64" "req 33 = 64"
  by (simp_all add: req.simps)

lemma small_inv: "heap_inv small_heap small_mem [4096, 4160]" "4160 \<in> allocd small_mem [4096, 4160]"
  by (simp_all add: heap_inv_def small_heap_def small_headers small_req al_def allocd_def)

theorem free_sound_witness:
  "\<exists>m'. ba_free small_heap small_mem (blk_data 4160) = Some m' \<and> heap_inv small_heap m' [4096, 4160] \<and>
     allocd m' [4096, 4160] = allocd small_mem [4096, 4160] - {4160} \<and>
     (\<forall>x. unat x \<notin> {unat (4160 :: uptr)..<unat (4160 :: uptr) + 16} \<longrightarrow> m' x = small_mem x) \<and>
     free_area m' [4096, 4160] = free_area small_mem [4096, 4160] \<union> area small_mem 4160"
  by (rule free_sound [OF small_inv])

text \<open>\<^verbatim>\<open>realloc\<close> to at least the old size: the call returns; every other live block keeps its
  bytes; on success the block has the new size, is the only new live block in place
  of the old one (no other live block has its address) and starts with the old contents; on failure the old block is intact.\<close>

theorem realloc_grow_sound:
  assumes "heap_inv this m bs" and "b \<in> allocd m bs" and "sz \<noteq> 0" and "unat sz + 16 \<le> 2 ^ 63"
    and "unat (blk_size m b) \<le> unat sz + 16"
  shows "\<exists>m' p bs'. ba_realloc this m (blk_data b) sz = Some (m', p) \<and> heap_inv this m' bs' \<and>
      untouched m m' (allocd m bs - {b}) \<and>
      (if p = 0 then allocd m' bs' = allocd m bs \<and> untouched m m' {b}
       else allocd m' bs' = insert (p - 16) (allocd m bs - {b}) \<and> p - 16 \<notin> allocd m bs - {b} \<and> blk_size m' (p - 16) = sz + 16 \<and>
            moved m m' b p)"
  by (rule realloc_grows [OF assms])

theorem realloc_grow_sound_witness:
  "\<exists>m' p bs'. ba_realloc small_heap small_mem (blk_data 4160) 20 = Some (m', p) \<and> heap_inv small_heap m' bs' \<and>
      untouched small_mem m' (allocd small_mem [4096, 4160] - {4160}) \<and>
      (if p = 0 then allocd m' bs' = allocd small_mem [4096, 4160] \<and> untouched small_mem m' {4160}
       else allocd m' bs' = insert (p - 16) (allocd small_mem [4096, 4160] - {4160}) \<and>
            p - 16 \<notin> allocd small_mem [4096, 4160] - {4160} \<and> blk_size m' (p - 16) = 20 + 16 \<and> moved small_mem m' 4160 p)"
  by (rule realloc_grow_sound [OF small_inv]) (simp_all add: small_headers)

declare size_required_loop.simps [code] split_loop.simps [code] find_best_loop.simps [code]
  coalescence_pass.simps [code] coalescence.simps [code]

text \<open>\<^verbatim>\<open>realloc\<close> to a smaller size class copies the old length and so writes past the new block:
  on a well-formed heap where the old block follows the new one, shrinking 17 bytes to 10
  overwrites the size in the header of the following block.\<close>

theorem realloc_shrink_overruns:
  "heap_inv small_heap small_mem [4096, 4160] \<and> blk_size small_mem 4160 = 33 \<and>
   map_option (\<lambda>(m', p). (p, blk_size m' 4128, blk_size m' 4160)) (ba_realloc small_heap small_mem (blk_data 4160) 10) =
     Some (4144, 26, 0)"
proof -
  have "map_option (\<lambda>(m', p). (p, blk_size m' 4128, blk_size m' 4160)) (ba_realloc small_heap small_mem (blk_data 4160) 10) =
     Some (4144, 26, 0)" by code_simp
  then show ?thesis using small_inv small_headers by simp
qed

lemma size_required_loop_result:
  assumes "size_required_loop s a = Some y"
  shows "s \<le> y \<and> (\<exists>j. y = a * 2 ^ j)"
proof (rule size_required_loop.raw_induct [where P = "\<lambda>s a y. s \<le> y \<and> (\<exists>j. y = a * 2 ^ j)", OF _ assms])
  fix loop :: "usize \<Rightarrow> usize \<Rightarrow> usize option" and s a y
  assume 1: "\<And>s a y. loop s a = Some y \<Longrightarrow> s \<le> y \<and> (\<exists>j. y = a * 2 ^ j)"
    "(if s > a then loop s (a * 2) else Some a) = Some y"
  show "s \<le> y \<and> (\<exists>j. y = a * 2 ^ j)"
  proof (cases "s > a")
    case True
    then have "s \<le> y \<and> (\<exists>j. y = a * 2 * 2 ^ j)" using 1 by auto
    then show ?thesis by (metis mult.assoc power_Suc)
  next
    case False
    then have "y = a * 2 ^ 0 \<and> s \<le> y" using 1(2) by auto
    then show ?thesis by blast
  qed
qed

lemma unat_pow_le: "unat (2 ^ k :: usize) \<le> 2 ^ 63"
proof (cases "k < 64")
  case True
  then have "(2::nat) ^ k \<le> 2 ^ 63" by (intro power_increasing) auto
  then show ?thesis using unat_of_nat_small [of "2 ^ k", where 'i = 64] by simp
next
  case False
  then have z: "(2 :: usize) ^ k = 0" by (simp add: exp_eq_zero_iff)
  show ?thesis unfolding z by simp
qed

lemma size_required_hangs: "2 ^ 63 < unat (ba_align s) \<Longrightarrow> size_required s = None"
proof (rule ccontr)
  assume big: "2 ^ 63 < unat (ba_align s)" and "size_required s \<noteq> None"
  then obtain y where "size_required_loop (ba_align s) 16 = Some y" by (auto simp: size_required_def ba_alignment_def)
  then obtain j where y: "ba_align s \<le> y" "y = 16 * 2 ^ j" using size_required_loop_result by blast
  have "y = 2 ^ (4 + j)" unfolding y(2) power_add by simp
  then have "unat y \<le> 2 ^ 63" using unat_pow_le by simp
  then show False using big y(1) by (simp add: word_le_nat_alt)
qed



end
