(* ===== verification/Vector.thy ===== *)
theory Vector
  imports Buddy_Alloc "HOL-Library.Sublist"
begin

text \<open>
  The growing array \<^verbatim>\<open>klib::Vector<T>\<close> of \<^verbatim>\<open>src/klib/vector.hpp\<close> over the kernel heap. An element is the sequence of its
  \<^verbatim>\<open>sizeof(T)\<close> bytes and \<open>w\<close> stands for \<^verbatim>\<open>sizeof(T)\<close>, so that the model covers every instance the kernel uses. \<open>None\<close> is a
  call that does not return. The properties say that a vector is the list of the elements pushed onto it, for any state of
  the heap around it: growing moves the elements and never touches another live block, and the destructor gives the storage
  of the vector, and nothing else, to the heap again.
\<close>

unbundle bit_operations_syntax

section \<open>Definitions\<close>

record Vector =
  vec_buffer :: uptr
  vec_size :: usize
  vec_capacity :: usize

definition vec_new :: "BuddyAlloc \<Rightarrow> usize \<Rightarrow> memory \<Rightarrow> usize \<Rightarrow> (memory \<times> Vector) option" where
  "vec_new this w m reserve =
     do { (m1, buffer) \<leftarrow> (if reserve \<noteq> 0 then ba_malloc this m (reserve * w) else Some (m, 0));
          Some (m1, \<lparr>vec_buffer = buffer, vec_size = 0, vec_capacity = reserve\<rparr>) }"

definition vec_delete :: "BuddyAlloc \<Rightarrow> memory \<Rightarrow> Vector \<Rightarrow> memory option" where
  "vec_delete this m v = ba_free this m (vec_buffer v)"

definition vec_slot :: "usize \<Rightarrow> Vector \<Rightarrow> usize \<Rightarrow> uptr" where
  "vec_slot w v i = vec_buffer v + i * w"

definition vec_index :: "usize \<Rightarrow> memory \<Rightarrow> Vector \<Rightarrow> usize \<Rightarrow> u8 list" where
  "vec_index w m v i = bytes_at m (vec_slot w v i) (unat w)"

definition vec_grow :: "BuddyAlloc \<Rightarrow> usize \<Rightarrow> memory \<Rightarrow> Vector \<Rightarrow> (memory \<times> Vector) option" where
  "vec_grow this w m v =
     (let capacity = (if vec_capacity v \<noteq> 0 then vec_capacity v * 2 else 1)
      in do { (m1, buffer) \<leftarrow> ba_realloc this m (vec_buffer v) (capacity * w);
              Some (m1, v\<lparr>vec_capacity := capacity, vec_buffer := buffer\<rparr>) })"

definition vec_push_back :: "BuddyAlloc \<Rightarrow> usize \<Rightarrow> memory \<Rightarrow> Vector \<Rightarrow> u8 list \<Rightarrow> (memory \<times> Vector) option" where
  "vec_push_back this w m v elem =
     do { (m1, v1) \<leftarrow> (if vec_size v = vec_capacity v then vec_grow this w m v else Some (m, v));
          Some (store_bytes m1 (vec_slot w v1 (vec_size v1)) elem, v1\<lparr>vec_size := vec_size v1 + 1\<rparr>) }"

text \<open>A range loop over \<^verbatim>\<open>begin()\<close> and \<^verbatim>\<open>end()\<close>, visiting the elements by address.\<close>

definition vec_begin :: "Vector \<Rightarrow> uptr" where
  "vec_begin v = vec_buffer v"

definition vec_end :: "usize \<Rightarrow> Vector \<Rightarrow> uptr" where
  "vec_end w v = vec_buffer v + vec_size v * w"

partial_function (option) vec_each :: "usize \<Rightarrow> memory \<Rightarrow> uptr \<Rightarrow> uptr \<Rightarrow> u8 list list option" where
  [code]: "vec_each w m it stop =
     (if it \<noteq> stop then do { es \<leftarrow> vec_each w m (it + w) stop; Some (bytes_at m it (unat w) # es) } else Some [])"

definition vec_elems :: "usize \<Rightarrow> memory \<Rightarrow> Vector \<Rightarrow> u8 list list option" where
  "vec_elems w m v = vec_each w m (vec_begin v) (vec_end w v)"

text \<open>Several elements pushed one after another.\<close>

fun vec_push_all :: "BuddyAlloc \<Rightarrow> usize \<Rightarrow> memory \<Rightarrow> Vector \<Rightarrow> u8 list list \<Rightarrow> (memory \<times> Vector) option" where
  "vec_push_all this w m v [] = Some (m, v)"
| "vec_push_all this w m v (e # es) = do { (m1, v1) \<leftarrow> vec_push_back this w m v e; vec_push_all this w m1 v1 es }"

section \<open>The list a vector stands for\<close>

definition vec_items :: "usize \<Rightarrow> memory \<Rightarrow> Vector \<Rightarrow> u8 list list" where
  "vec_items w m v = map (\<lambda>i. vec_index w m v (of_nat i)) [0..<unat (vec_size v)]"

definition vec_block :: "Vector \<Rightarrow> uptr" where
  "vec_block v = vec_buffer v - 16"

definition vec_blocks :: "Vector \<Rightarrow> uptr set" where
  "vec_blocks v = (if vec_capacity v = 0 then {} else {vec_block v})"

definition vec_ok :: "BuddyAlloc \<Rightarrow> usize \<Rightarrow> memory \<Rightarrow> uptr list \<Rightarrow> Vector \<Rightarrow> bool" where
  "vec_ok this w m bs v \<longleftrightarrow> heap_inv this m bs \<and> vec_size v \<le> vec_capacity v \<and>
     (if vec_capacity v = 0 then vec_buffer v = 0
      else vec_block v \<in> allocd m bs \<and> unat (blk_size m (vec_block v)) = unat (vec_capacity v) * unat w + 16)"

lemma blk_data_block [simp]: "blk_data (vec_block v) = vec_buffer v"
  by (simp add: blk_data_def vec_block_def sizeof_Block_def)

lemma vec_items_nth: "i < unat (vec_size v) \<Longrightarrow> vec_items w m v ! i = vec_index w m v (of_nat i)"
  by (simp add: vec_items_def)

lemma vec_items_length [simp]: "length (vec_items w m v) = unat (vec_size v)"
  by (simp add: vec_items_def)

text \<open>Where the slots are: one after another in the payload of the block of the vector.\<close>

lemma slot_addr:
  assumes ok: "vec_ok this w m bs v" and i: "i < unat (vec_capacity v)"
  shows "unat (vec_slot w v (of_nat i)) = unat (vec_block v) + 16 + i * unat w"
    and "16 + i * unat w + unat w \<le> bsz m (vec_block v)"
    and "unat (vec_block v) + 16 + i * unat w + unat w < 2 ^ 64"
proof -
  have cap: "vec_capacity v \<noteq> 0" using i by auto
  then have b: "vec_block v \<in> set bs" and h: "heap_inv this m bs"
    and sz: "unat (blk_size m (vec_block v)) = unat (vec_capacity v) * unat w + 16"
    using ok by (auto simp: vec_ok_def allocd_def)
  have "(i + 1) * unat w \<le> unat (vec_capacity v) * unat w" using i by (intro mult_le_mono1) simp
  then have fits: "16 + i * unat w + unat w \<le> unat (blk_size m (vec_block v))" using sz by simp
  then show le: "16 + i * unat w + unat w \<le> bsz m (vec_block v)" using req_ge(1) order_trans by blast
  then show top: "unat (vec_block v) + 16 + i * unat w + unat w < 2 ^ 64" using heap_top [OF h b] by simp
  have ui: "unat (of_nat i :: usize) = i" using i unat_bound [of "vec_capacity v"] by (intro unat_of_nat_small) simp
  have m: "unat (of_nat i * w) = i * unat w" using top ui by (subst unat_mult_nowrap) simp_all
  have "unat (vec_buffer v) = unat (vec_block v) + 16" using heap_mem(4) [OF h b] by simp
  then show "unat (vec_slot w v (of_nat i)) = unat (vec_block v) + 16 + i * unat w"
    using top m unfolding vec_slot_def by (subst unat_add_nowrap) simp_all
qed

lemma slot_byte:
  assumes ok: "vec_ok this w m bs v" and i: "i < unat (vec_capacity v)" and k: "k < unat w"
  shows "unat (vec_slot w v (of_nat i) + of_nat k) = unat (vec_block v) + 16 + i * unat w + k"
proof -
  have "unat (of_nat k :: usize) = k" using k unat_bound [of w] by (intro unat_of_nat_small) simp
  then show ?thesis using slot_addr [OF ok i] k by (subst unat_add_nowrap) simp_all
qed

lemma slots_apart:
  fixes i j k l w :: nat
  assumes "k < w" "l < w" "i * w + k = j * w + l"
  shows "i = j"
proof -
  have "(i * w + k) div w = i" "(j * w + l) div w = j" using assms(1,2) by simp_all
  then show ?thesis using assms(3) by simp
qed

text \<open>Storing one element.\<close>

lemma store_slot:
  assumes ok: "vec_ok this w m bs v" and i: "i < unat (vec_capacity v)" and e: "length e = unat w"
    and m': "m' = store_bytes m (vec_slot w v (of_nat i)) e"
  shows "vec_ok this w m' bs v" and "allocd m' bs = allocd m bs" and "untouched m m' (allocd m bs - {vec_block v})"
    and "j < unat (vec_capacity v) \<Longrightarrow> vec_index w m' v (of_nat j) = (if j = i then e else vec_index w m v (of_nat j))"
proof -
  let ?b = "vec_block v" and ?p = "vec_slot w v (of_nat i)"
  have b: "?b \<in> set bs" and nf: "\<not> blk_free m ?b" and h: "heap_inv this m bs"
    and sz: "unat (blk_size m ?b) = unat (vec_capacity v) * unat w + 16"
    using ok i by (auto simp: vec_ok_def allocd_def split: if_splits)
  note s = slot_addr [OF ok i] and mem = heap_mem [OF h b]
  have frame: "m' x = m x" if "unat x \<notin> {unat ?b + 16 + i * unat w..<unat ?b + 16 + i * unat w + unat w}" for x
    unfolding m' using that s e by (intro store_bytes_frame) simp_all
  have out: "\<forall>x. unat x \<notin> area m ?b \<longrightarrow> m' x = m x" using s(2) frame by (auto simp: area_def)
  have "\<forall>x. unat x \<in> {unat ?b..<unat ?b + 16} \<longrightarrow> m' x = m x" using frame by auto
  note hd = hdr_frame [OF mem(1) this]
  note rw = rewrite_block [OF h b out, unfolded hd, OF refl mem(8)]
  show al: "allocd m' bs = allocd m bs" using rw(2) nf b by (auto simp: allocd_def)
  show "vec_ok this w m' bs v" using ok rw(1) al hd sz by (auto simp: vec_ok_def)
  show "untouched m m' (allocd m bs - {?b})" using heap_disjoint [OF h _ b] out by (auto simp: untouched_def allocd_def)
  show "vec_index w m' v (of_nat j) = (if j = i then e else vec_index w m v (of_nat j))" if j: "j < unat (vec_capacity v)"
  proof (cases "j = i")
    case True
    have "length e < 2 ^ 64" using unat_bound [of w] e by simp
    then show ?thesis using True e bytes_at_store [of e m ?p] by (simp add: vec_index_def m')
  next
    case False
    have "m' (vec_slot w v (of_nat j) + of_nat k) = m (vec_slot w v (of_nat j) + of_nat k)" if k: "k < unat w" for k
    proof (rule frame, rule notI)
      assume "unat (vec_slot w v (of_nat j) + of_nat k) \<in> {unat ?b + 16 + i * unat w..<unat ?b + 16 + i * unat w + unat w}"
      then have r: "i * unat w \<le> j * unat w + k" "j * unat w + k < i * unat w + unat w" unfolding slot_byte [OF ok j k] by auto
      from le_Suc_ex [OF r(1)] obtain l where l: "j * unat w + k = i * unat w + l" by blast
      then have "l < unat w" using r(2) by simp
      then show False using slots_apart [OF k _ l] False by simp
    qed
    then have "bytes_at m' (vec_slot w v (of_nat j)) (unat w) = bytes_at m (vec_slot w v (of_nat j)) (unat w)" by (rule bytes_at_cong)
    then show ?thesis using False by (simp add: vec_index_def)
  qed
qed

section \<open>Pushing an element\<close>

lemma push_in_place:
  assumes ok: "vec_ok this w m bs v" and room: "vec_size v < vec_capacity v" and e: "length e = unat w"
    and m': "m' = store_bytes m (vec_slot w v (vec_size v)) e" and v': "v' = v\<lparr>vec_size := vec_size v + 1\<rparr>"
  shows "vec_ok this w m' bs v'" and "vec_items w m' v' = vec_items w m v @ [e]" and "allocd m' bs = allocd m bs"
    and "untouched m m' (allocd m bs - {vec_block v})" and "vec_blocks v' = vec_blocks v"
proof -
  let ?n = "unat (vec_size v)"
  have n: "?n < unat (vec_capacity v)" using room by (simp add: word_less_nat_alt)
  have m'': "m' = store_bytes m (vec_slot w v (of_nat ?n)) e" by (simp add: m')
  note st = store_slot [OF ok n e m'']
  have inc: "unat (vec_size v + 1) = Suc ?n" by (rule unat_inc [OF room])
  have blk: "vec_block v' = vec_block v" "vec_index w m' v' = vec_index w m' v" for m'
    by (auto simp: v' vec_block_def vec_index_def vec_slot_def fun_eq_iff)
  have "vec_size v + 1 \<le> vec_capacity v" by (rule word_inc_le [OF room])
  then show "vec_ok this w m' bs v'" using st(1) room unfolding vec_ok_def blk by (simp add: v')
  show "allocd m' bs = allocd m bs" "untouched m m' (allocd m bs - {vec_block v})" by (rule st(2,3))+
  show "vec_blocks v' = vec_blocks v" unfolding vec_blocks_def blk by (simp add: v')
  have "vec_index w m' v (of_nat j) = vec_index w m v (of_nat j)" if "j < ?n" for j using st(4) [of j] that n by simp
  then show "vec_items w m' v' = vec_items w m v @ [e]" using st(4) [OF n] unfolding vec_items_def blk by (simp add: v' inc)
qed

text \<open>Growing moves the elements to a block twice as large, or leaves a null buffer when the heap is exhausted.\<close>

lemma untouched_sizes:
  assumes h: "heap_inv this m bs" and u: "untouched m m' A" and c: "c \<in> A" "c \<in> set bs"
  shows "area m' c = area m c"
proof -
  note mem = heap_mem [OF h c(2)]
  have "\<forall>x. unat x \<in> {unat c..<unat c + 16} \<longrightarrow> m' x = m x" using u c(1) mem(3) by (auto simp: untouched_def area_def)
  from hdr_frame(1) [OF mem(1) this] show ?thesis by (simp add: area_def)
qed

lemma untouched_trans:
  assumes h: "heap_inv this m bs" and u: "untouched m m1 A" "untouched m1 m2 A" and A: "A \<subseteq> set bs"
  shows "untouched m m2 A"
  using untouched_sizes [OF h u(1)] u A by (auto simp: untouched_def)

lemma grow_ok:
  assumes ok: "vec_ok this w m bs v" and full: "vec_size v = vec_capacity v" and w: "w \<noteq> 0"
    and room: "unat (vec_capacity v) * unat w * 2 + unat w + 16 \<le> 2 ^ 63"
  shows "\<exists>m1 v1 bs1. vec_grow this w m v = Some (m1, v1) \<and> vec_size v1 = vec_size v \<and>
     (vec_buffer v1 = 0 \<or>
      vec_ok this w m1 bs1 v1 \<and> vec_size v1 < vec_capacity v1 \<and> vec_items w m1 v1 = vec_items w m v \<and>
      allocd m1 bs1 - vec_blocks v1 = allocd m bs - vec_blocks v \<and> untouched m m1 (allocd m bs - vec_blocks v))"
proof (cases "vec_capacity v = 0")
  case True
  have h: "heap_inv this m bs" and null: "vec_buffer v = 0" using ok True by (simp_all add: vec_ok_def)
  have w': "unat w + 16 \<le> 2 ^ 63" using room by simp
  obtain m1 p bs1 where r: "ba_malloc this m w = Some (m1, p)" "heap_inv this m1 bs1"
    "\<forall>x. unat x \<notin> free_area m bs \<longrightarrow> m1 x = m x"
    "p \<noteq> 0 \<Longrightarrow> allocd m1 bs1 = insert (p - 16) (allocd m bs) \<and> p - 16 \<notin> allocd m bs \<and> blk_size m1 (p - 16) = w + 16"
    using malloc_takes_free [OF h w w'] by (auto split: if_splits)
  let ?v = "v\<lparr>vec_capacity := 1, vec_buffer := p\<rparr>"
  have g: "vec_grow this w m v = Some (m1, ?v)" using r(1) null True by (simp add: vec_grow_def ba_realloc_def)
  show ?thesis
  proof (cases "p = 0")
    case False
    have sz: "unat (w + 16) = unat w + 16" using w' by (subst unat_add_nowrap) simp_all
    have "vec_ok this w m1 bs1 ?v" using r(2) r(4) [OF False] sz full True by (simp add: vec_ok_def vec_block_def)
    moreover have "untouched m m1 (allocd m bs)"
      using alloc_disjoint h r(3) unfolding heap_inv_def untouched_def by blast
    moreover have "allocd m1 bs1 - vec_blocks ?v = allocd m bs - vec_blocks v"
      using r(4) [OF False] True by (auto simp: vec_blocks_def vec_block_def)
    ultimately show ?thesis using g full True
      by (intro exI [of _ m1] exI [of _ ?v] exI [of _ bs1]) (simp add: vec_items_def vec_blocks_def)
  qed (use g in auto)
next
  case False
  let ?b = "vec_block v" and ?c = "vec_capacity v * 2"
  have h: "heap_inv this m bs" and b: "?b \<in> allocd m bs" and bsz: "unat (blk_size m ?b) = unat (vec_capacity v) * unat w + 16"
    using ok False by (simp_all add: vec_ok_def)
  have pos: "0 < unat w" "0 < unat (vec_capacity v)" using w False by (simp_all add: unat_gt_0)
  have le: "unat (vec_capacity v) * 1 \<le> unat (vec_capacity v) * unat w" using pos by (intro mult_le_mono2) simp
  have c: "unat ?c = unat (vec_capacity v) * 2" proof (subst unat_mult_nowrap)
    have "(2 :: nat) ^ 63 = 2 * 2 ^ 62" by simp
    then have "unat (vec_capacity v) \<le> 2 ^ 62" using le room by linarith
    then show "unat (vec_capacity v) * unat (2 :: usize) < 2 ^ LENGTH(64)" by simp
  qed simp
  have e: "unat ?c * unat w = unat (vec_capacity v) * unat w * 2" by (simp add: c)
  have "(2 :: nat) ^ 63 < 2 ^ LENGTH(64)" by simp
  then have "unat ?c * unat w < 2 ^ LENGTH(64)" unfolding e using room by linarith
  from unat_mult_nowrap [OF this] have cw: "unat (?c * w) = unat (vec_capacity v) * unat w * 2" using e by simp
  have cw': "unat (?c * w + 16) = unat ?c * unat w + 16"
  proof -
    have "(2 :: nat) ^ 63 < 2 ^ LENGTH(64)" by simp
    moreover have "unat (16 :: usize) = 16" by simp
    ultimately have "unat (?c * w) + unat (16 :: usize) < 2 ^ LENGTH(64)" unfolding cw using room by linarith
    from unat_add_nowrap [OF this] show ?thesis unfolding cw e by simp
  qed
  have "?c * w \<noteq> 0" using cw pos by (metis mult_is_0 neq0_conv unat_0 zero_neq_numeral)
  moreover have "unat (?c * w) + 16 \<le> 2 ^ 63" "unat (blk_size m ?b) \<le> unat (?c * w) + 16"
    unfolding cw bsz using room by linarith+
  ultimately obtain m1 p bs1 where r: "ba_realloc this m (vec_buffer v) (?c * w) = Some (m1, p)" "heap_inv this m1 bs1"
      "untouched m m1 (allocd m bs - {?b})"
      "p \<noteq> 0 \<Longrightarrow> allocd m1 bs1 = insert (p - 16) (allocd m bs - {?b}) \<and> p - 16 \<notin> allocd m bs - {?b} \<and> blk_size m1 (p - 16) = ?c * w + 16 \<and> moved m m1 ?b p"
    using realloc_grows [OF h b, of "?c * w"] by (auto split: if_splits)
  let ?v = "v\<lparr>vec_capacity := ?c, vec_buffer := p\<rparr>"
  have g: "vec_grow this w m v = Some (m1, ?v)" using r(1) False by (simp add: vec_grow_def)
  show ?thesis
  proof (cases "p = 0")
    case p: False
    note al = r(4) [OF p]
    have c0: "?c \<noteq> 0" using c pos by (metis mult_is_0 neq0_conv unat_0 zero_neq_numeral)
    have less: "vec_size v < ?c" "vec_size v \<le> ?c" using full c pos by (simp_all add: word_less_nat_alt word_le_nat_alt)
    have ok1: "vec_ok this w m1 bs1 ?v" using r(2) al cw' c0 less by (simp add: vec_ok_def vec_block_def)
    have "vec_index w m1 ?v (of_nat i) = vec_index w m v (of_nat i)" if i: "i < unat (vec_size v)" for i
    proof -
      have i': "i < unat (vec_capacity v)" using i full by simp
      have "m1 (p + (of_nat i * w + of_nat k)) = m (vec_buffer v + (of_nat i * w + of_nat k))" if k: "k < unat w" for k
      proof -
        have bs: "?b \<in> set bs" using b by (simp add: allocd_def)
        have "i * unat w + k < unat (vec_capacity v) * unat w"
          using mult_le_mono1 [of "i + 1" "unat (vec_capacity v)" "unat w"] i' k by simp
        moreover have "unat (blk_size m ?b - 16) = unat (vec_capacity v) * unat w"
          using bsz by (subst unat_sub_nowrap) (simp_all add: word_le_nat_alt)
        moreover have "unat (of_nat i * w + of_nat k) = i * unat w + k"
          using slot_byte [OF ok i' k] heap_mem(4) [OF h bs]
            unat_sub_nowrap [of "vec_buffer v" "vec_slot w v (of_nat i) + of_nat k"]
          by (simp add: vec_slot_def word_le_nat_alt add.assoc)
        ultimately have "of_nat i * w + of_nat k < blk_size m ?b - 16" by (simp add: word_less_nat_alt)
        then show ?thesis using al by (simp add: moved_def)
      qed
      then show ?thesis by (simp add: vec_index_def vec_slot_def bytes_at_def add.assoc)
    qed
    then have items: "vec_items w m1 ?v = vec_items w m v" by (simp add: vec_items_def)
    have "allocd m1 bs1 - vec_blocks ?v = allocd m bs - vec_blocks v"
      using al c0 False by (auto simp: vec_blocks_def vec_block_def)
    then show ?thesis using g ok1 items less c r(3) False
      by (intro exI [of _ m1] exI [of _ ?v] exI [of _ bs1]) (simp add: vec_blocks_def)
  qed (use g in auto)
qed

text \<open>One \<^verbatim>\<open>push_back\<close>: it returns; unless the heap is exhausted the vector is one element longer.\<close>

definition vec_fits :: "usize \<Rightarrow> nat \<Rightarrow> bool" where
  "vec_fits w n \<longleftrightarrow> w \<noteq> 0 \<and> n * unat w * 2 + unat w + 16 \<le> 2 ^ 63"

lemma vec_fits_mono: "vec_fits w n \<Longrightarrow> k \<le> n \<Longrightarrow> vec_fits w k"
  unfolding vec_fits_def using mult_le_mono1 [of k n "unat w"] by linarith

lemma push_back_ok:
  assumes ok: "vec_ok this w m bs v" and e: "length e = unat w" and fits: "vec_fits w (unat (vec_size v))"
  shows "\<exists>m' v'. vec_push_back this w m v e = Some (m', v') \<and>
     (vec_buffer v' = 0 \<or> (\<exists>bs'. vec_ok this w m' bs' v' \<and> vec_items w m' v' = vec_items w m v @ [e] \<and>
        allocd m' bs' - vec_blocks v' = allocd m bs - vec_blocks v \<and> untouched m m' (allocd m bs - vec_blocks v)))"
proof (cases "vec_size v = vec_capacity v")
  case False
  then have room: "vec_size v < vec_capacity v" using ok by (simp add: vec_ok_def order.strict_iff_order)
  then have blk: "vec_blocks v = {vec_block v}" by (auto simp: vec_blocks_def)
  note p = push_in_place [OF ok room e refl refl]
  show ?thesis using False p blk by (auto simp: vec_push_back_def)
next
  case True
  have h: "heap_inv this m bs" using ok by (simp add: vec_ok_def)
  obtain m1 v1 bs1 where g: "vec_grow this w m v = Some (m1, v1)" "vec_size v1 = vec_size v"
    "vec_buffer v1 = 0 \<or> vec_ok this w m1 bs1 v1 \<and> vec_size v1 < vec_capacity v1 \<and> vec_items w m1 v1 = vec_items w m v \<and>
      allocd m1 bs1 - vec_blocks v1 = allocd m bs - vec_blocks v \<and> untouched m m1 (allocd m bs - vec_blocks v)"
    using grow_ok [OF ok True] fits True unfolding vec_fits_def by metis
  let ?m = "store_bytes m1 (vec_slot w v1 (vec_size v1)) e" and ?v = "v1\<lparr>vec_size := vec_size v1 + 1\<rparr>"
  have run: "vec_push_back this w m v e = Some (?m, ?v)" using g(1) True by (simp add: vec_push_back_def)
  show ?thesis
  proof (cases "vec_buffer v1 = 0")
    case False
    then have o: "vec_ok this w m1 bs1 v1" "vec_size v1 < vec_capacity v1" "vec_items w m1 v1 = vec_items w m v"
      "allocd m1 bs1 - vec_blocks v1 = allocd m bs - vec_blocks v" "untouched m m1 (allocd m bs - vec_blocks v)" using g(3) by auto
    note p = push_in_place [OF o(1,2) e refl refl]
    have blk: "vec_blocks v1 = {vec_block v1}" using o(2) by (auto simp: vec_blocks_def)
    have "untouched m1 ?m (allocd m bs - vec_blocks v)" using p(4) o(4) blk by simp
    from untouched_trans [OF h o(5) this] have "untouched m ?m (allocd m bs - vec_blocks v)" by (auto simp: allocd_def)
    moreover have "allocd ?m bs1 - vec_blocks ?v = allocd m bs - vec_blocks v" using p(3,5) o(4) by simp
    ultimately show ?thesis using run p(1,2) o(3) by (intro exI [of _ ?m] exI [of _ ?v]) auto
  qed (use run in simp)
qed

text \<open>The whole life of a vector, on any heap: created empty, given any list of elements, then destroyed. A failed allocation
  shows as a null buffer.\<close>

lemma push_all_ok:
  assumes "vec_ok this w m bs v" and "\<forall>e \<in> set es. length e = unat w" and "vec_fits w (unat (vec_size v) + length es)"
  shows "(\<exists>done_es m' v'. prefix done_es es \<and> vec_push_all this w m v done_es = Some (m', v') \<and> done_es \<noteq> [] \<and> vec_buffer v' = 0) \<or>
    (\<exists>m' v' bs'. vec_push_all this w m v es = Some (m', v') \<and> vec_ok this w m' bs' v' \<and> vec_items w m' v' = vec_items w m v @ es \<and>
        allocd m' bs' - vec_blocks v' = allocd m bs - vec_blocks v \<and> untouched m m' (allocd m bs - vec_blocks v))"
  using assms
proof (induction es arbitrary: m v bs)
  case Nil
  then show ?case by (auto simp: untouched_def)
next
  case (Cons e es)
  have h: "heap_inv this m bs" using Cons.prems(1) by (simp add: vec_ok_def)
  obtain m1 v1 where p: "vec_push_back this w m v e = Some (m1, v1)"
    "vec_buffer v1 = 0 \<or> (\<exists>bs1. vec_ok this w m1 bs1 v1 \<and> vec_items w m1 v1 = vec_items w m v @ [e] \<and>
        allocd m1 bs1 - vec_blocks v1 = allocd m bs - vec_blocks v \<and> untouched m m1 (allocd m bs - vec_blocks v))"
    using push_back_ok [OF Cons.prems(1), of e] Cons.prems(2) vec_fits_mono [OF Cons.prems(3)] by auto
  show ?case
  proof (cases "vec_buffer v1 = 0")
    case True
    have "vec_push_all this w m v [e] = Some (m1, v1)" using p(1) by simp
    moreover have "prefix [e] (e # es)" by simp
    ultimately show ?thesis using True by blast
  next
    case False
    then obtain bs1 where o: "vec_ok this w m1 bs1 v1" "vec_items w m1 v1 = vec_items w m v @ [e]"
      "allocd m1 bs1 - vec_blocks v1 = allocd m bs - vec_blocks v" "untouched m m1 (allocd m bs - vec_blocks v)" using p(2) by blast
    have "unat (vec_size v1) = unat (vec_size v) + 1" using arg_cong [OF o(2), of length] by simp
    then have "vec_fits w (unat (vec_size v1) + length es)" using Cons.prems(3) by (simp add: add.commute add.left_commute)
    from Cons.IH [OF o(1) _ this] Cons.prems(2)
    consider ds m2 v2 where "prefix ds es" "vec_push_all this w m1 v1 ds = Some (m2, v2)" "vec_buffer v2 = 0"
      | m2 v2 bs2 where "vec_push_all this w m1 v1 es = Some (m2, v2)" "vec_ok this w m2 bs2 v2" "vec_items w m2 v2 = vec_items w m1 v1 @ es"
        "allocd m2 bs2 - vec_blocks v2 = allocd m1 bs1 - vec_blocks v1" "untouched m1 m2 (allocd m1 bs1 - vec_blocks v1)" by auto
    then show ?thesis
    proof cases
      case (1 ds m2 v2)
      then have "prefix (e # ds) (e # es)" "vec_push_all this w m v (e # ds) = Some (m2, v2)" using p(1) by simp_all
      then show ?thesis using 1(3) by blast
    next
      case (2 m2 v2 bs2)
      have "untouched m m2 (allocd m bs - vec_blocks v)"
        using untouched_trans [OF h o(4), of m2] 2(5) o(3) by (auto simp: allocd_def)
      then show ?thesis using 2 p(1) o by auto
    qed
  qed
qed

section \<open>Reading the elements, and the end\<close>

lemma each_from:
  assumes ok: "vec_ok this w m bs v" and w: "w \<noteq> 0"
  shows "i \<le> unat (vec_size v) \<Longrightarrow> vec_each w m (vec_slot w v (of_nat i)) (vec_end w v) = Some (drop i (vec_items w m v))"
proof (induction "unat (vec_size v) - i" arbitrary: i)
  case 0
  then have i: "i = unat (vec_size v)" by simp
  have "vec_slot w v (of_nat i) = vec_end w v" by (simp add: i vec_slot_def vec_end_def)
  then show ?case using 0 by (subst vec_each.simps) simp
next
  case (Suc d)
  then have i: "i < unat (vec_size v)" "d = unat (vec_size v) - Suc i" by simp_all
  have sc: "unat (vec_size v) \<le> unat (vec_capacity v)" using ok by (simp add: vec_ok_def word_le_nat_alt)
  have pos: "0 < unat w" using w by (simp add: unat_gt_0)
  obtain n where n: "unat (vec_size v) = Suc n" using i by (cases "unat (vec_size v)") simp_all
  have "of_nat (unat (vec_size v)) = (of_nat (Suc n) :: usize)" by (simp only: n)
  then have "vec_size v = of_nat n + 1" by simp
  then have stop: "vec_end w v = vec_slot w v (of_nat n) + w" by (simp add: vec_end_def vec_slot_def algebra_simps)
  have "unat (vec_end w v) = unat (vec_slot w v (of_nat n)) + unat w"
    unfolding stop using slot_addr [OF ok, of n] n sc by (subst unat_add_nowrap) simp_all
  then have "unat (vec_slot w v (of_nat i)) < unat (vec_end w v)"
    using slot_addr(1) [OF ok, of i] slot_addr(1) [OF ok, of n] i n sc pos mult_le_mono1 [of i n "unat w"] by linarith
  then have ne: "vec_slot w v (of_nat i) \<noteq> vec_end w v" by auto
  have "vec_slot w v (of_nat i) + w = vec_slot w v (of_nat (Suc i))" by (simp add: vec_slot_def algebra_simps)
  then have "vec_each w m (vec_slot w v (of_nat i)) (vec_end w v) = Some (vec_index w m v (of_nat i) # drop (Suc i) (vec_items w m v))"
    using Suc.hyps(1) [of "Suc i"] i ne by (subst vec_each.simps) (simp add: vec_index_def)
  then show ?case using i(1) Cons_nth_drop_Suc [of i "vec_items w m v"] by (simp add: vec_items_nth)
qed

lemma elems_ok: "vec_ok this w m bs v \<Longrightarrow> w \<noteq> 0 \<Longrightarrow> vec_elems w m v = Some (vec_items w m v)"
  using each_from [of this w m bs v 0] by (simp add: vec_elems_def vec_begin_def vec_slot_def)

lemma delete_ok:
  assumes "vec_ok this w m bs v"
  shows "\<exists>m'. vec_delete this m v = Some m' \<and> heap_inv this m' bs \<and> allocd m' bs = allocd m bs - vec_blocks v \<and>
    untouched m m' (allocd m bs - vec_blocks v)"
proof (cases "vec_capacity v = 0")
  case True
  then show ?thesis using assms by (auto simp: vec_ok_def vec_delete_def ba_free_def vec_blocks_def untouched_def)
next
  case False
  then have h: "heap_inv this m bs" and b: "vec_block v \<in> allocd m bs" using assms by (auto simp: vec_ok_def)
  have bs: "vec_block v \<in> set bs" using b by (simp add: allocd_def)
  obtain m' where r: "ba_free this m (vec_buffer v) = Some m'" "heap_inv this m' bs" "allocd m' bs = allocd m bs - {vec_block v}"
    "\<forall>x. unat x \<notin> {unat (vec_block v)..<unat (vec_block v) + 16} \<longrightarrow> m' x = m x"
    using free_releases [OF h b] by auto
  have "\<forall>x. unat x \<notin> area m (vec_block v) \<longrightarrow> m' x = m x" using r(4) heap_mem(3) [OF h bs] by (auto simp: area_def)
  then have "untouched m m' (allocd m bs - {vec_block v})" using heap_disjoint [OF h _ bs] by (auto simp: untouched_def allocd_def)
  then show ?thesis using r False by (simp add: vec_delete_def vec_blocks_def)
qed

section \<open>Properties\<close>

text \<open>A vector is a list: starting from an empty vector, on any well-formed heap, pushing any elements either runs
  out of heap, which shows as a null buffer after some of them, or leaves a vector whose subscripts and whose range loop give
  exactly these elements in order. Growing never changes another live block, and the destructor leaves exactly the blocks that were
  live before the vector existed.\<close>

theorem vector_is_pushed_list:
  assumes h: "heap_inv this m bs" and es: "\<forall>e \<in> set es. length e = unat w" and fits: "vec_fits w (length es)"
    and new: "vec_new this w m 0 = Some (m0, v0)"
  shows "(\<exists>ds m' v'. prefix ds es \<and> vec_push_all this w m0 v0 ds = Some (m', v') \<and> ds \<noteq> [] \<and> vec_buffer v' = 0) \<or>
    (\<exists>m' v'. vec_push_all this w m0 v0 es = Some (m', v') \<and> unat (vec_size v') = length es \<and>
       (\<forall>i < length es. vec_index w m' v' (of_nat i) = es ! i) \<and> vec_elems w m' v' = Some es \<and> untouched m m' (allocd m bs) \<and>
       (\<exists>m'' bs'. vec_delete this m' v' = Some m'' \<and> heap_inv this m'' bs' \<and> allocd m'' bs' = allocd m bs))"
proof -
  have v0: "v0 = \<lparr>vec_buffer = 0, vec_size = 0, vec_capacity = 0\<rparr>" "m0 = m" using new by (simp_all add: vec_new_def)
  have ok: "vec_ok this w m0 bs v0" using h by (simp add: vec_ok_def v0)
  have e: "vec_items w m0 v0 = []" "vec_blocks v0 = {}" by (simp_all add: vec_items_def vec_blocks_def v0(1))
  have w: "w \<noteq> 0" using fits by (simp add: vec_fits_def)
  have "vec_fits w (unat (vec_size v0) + length es)" using fits by (simp add: v0(1))
  note push = push_all_ok [OF ok es this, unfolded e Diff_empty append_Nil]
  then consider "\<exists>ds m' v'. prefix ds es \<and> vec_push_all this w m0 v0 ds = Some (m', v') \<and> ds \<noteq> [] \<and> vec_buffer v' = 0"
    | m' v' bs' where "vec_push_all this w m0 v0 es = Some (m', v')" "vec_ok this w m' bs' v'" "vec_items w m' v' = es"
      "allocd m' bs' - vec_blocks v' = allocd m bs" "untouched m m' (allocd m bs)"
    unfolding v0(2) by blast
  then show ?thesis
  proof cases
    case (2 m' v' bs')
    have len: "unat (vec_size v') = length es" using 2(3) vec_items_length by metis
    have "vec_index w m' v' (of_nat i) = es ! i" if "i < length es" for i using vec_items_nth [of i v' w m'] that len 2(3) by simp
    moreover have "vec_elems w m' v' = Some es" using elems_ok [OF 2(2) w] 2(3) by simp
    moreover have "\<exists>m'' bs'. vec_delete this m' v' = Some m'' \<and> heap_inv this m'' bs' \<and> allocd m'' bs' = allocd m bs"
      using delete_ok [OF 2(2)] 2(4) by auto
    ultimately show ?thesis using 2(1,5) len by blast
  qed blast
qed

theorem vector_is_pushed_list_witness:
  "(\<exists>ds m' v'. prefix ds [[1, 0], [2, 3]] \<and>
      vec_push_all boot_heap 2 boot_mem \<lparr>vec_buffer = 0, vec_size = 0, vec_capacity = 0\<rparr> ds = Some (m', v') \<and> ds \<noteq> [] \<and> vec_buffer v' = 0) \<or>
   (\<exists>m' v'. vec_push_all boot_heap 2 boot_mem \<lparr>vec_buffer = 0, vec_size = 0, vec_capacity = 0\<rparr> [[1, 0], [2, 3]] = Some (m', v') \<and>
      vec_elems 2 m' v' = Some [[1, 0], [2, 3]])"
proof -
  have "vec_fits 2 (length [[1, 0], [2, 3 :: u8]])" by (simp add: vec_fits_def)
  from vector_is_pushed_list [OF boot_heap_inv(1) _ this, of boot_mem] show ?thesis by (auto simp: vec_new_def)
qed

end
