(* ===== verification/Spinlock.thy ===== *)
theory Spinlock
  imports Fish_Prelude
begin

text \<open>
  The spinlock of \<^verbatim>\<open>src/klib/lock.hpp\<close>. Processors interleave: \<open>lock_step\<close> has one rule for each atomic action of
  \<^verbatim>\<open>lock\<close> and \<^verbatim>\<open>unlock\<close> (the two stores of \<^verbatim>\<open>unlock\<close> are separate steps). \<open>lock_alone\<close> is \<^verbatim>\<open>lock\<close> while no other
  processor runs.
\<close>

section \<open>Definitions\<close>

record Spinlock =
  locked :: bool
  sl_i :: u32

definition new_lock :: Spinlock where
  "new_lock = \<lparr>locked = False, sl_i = 0\<rparr>"

definition test_and_set :: "Spinlock \<Rightarrow> bool \<times> Spinlock" where
  "test_and_set l = (locked l, l\<lparr>locked := True\<rparr>)"

text \<open>The body of the loop: the deadlock counter.\<close>

definition spin :: "Spinlock \<Rightarrow> Spinlock outcome" where
  "spin l =
     (let l1 = l\<lparr>sl_i := sl_i l + 1\<rparr>
      in if sl_i l1 = 10000000 then Panics ''Spinlock spun too much'' else Returns l1)"

definition reset_count :: "Spinlock \<Rightarrow> Spinlock" where
  "reset_count l = l\<lparr>sl_i := 0\<rparr>"

definition clear_lock :: "Spinlock \<Rightarrow> Spinlock" where
  "clear_lock l = l\<lparr>locked := False\<rparr>"

definition unlock :: "Spinlock \<Rightarrow> Spinlock" where
  "unlock l = clear_lock (reset_count l)"

function lock_alone :: "Spinlock \<Rightarrow> Spinlock outcome" where
  "lock_alone l =
     (case test_and_set l of (held, l1) \<Rightarrow>
        if held then (case spin l1 of Panics msg \<Rightarrow> Panics msg | Returns l2 \<Rightarrow> lock_alone l2) else Returns l1)"
  by pat_completeness auto
termination
proof (relation "measure (\<lambda>l. unat (9999999 - sl_i l))", goal_cases)
  case (2 l held l1 l2)
  then have l2: "sl_i l2 = sl_i l + 1" "sl_i l + 1 \<noteq> 10000000"
    by (auto simp: test_and_set_def spin_def Let_def split: if_splits)
  have "9999999 - sl_i l \<noteq> 0"
  proof
    assume "9999999 - sl_i l = 0"
    then have "sl_i l = 9999999" by simp
    then show False using l2(2) by simp
  qed
  then have "1 \<le> 9999999 - sl_i l" by (simp add: word_le_nat_alt Suc_le_eq unat_gt_0)
  then have "unat (9999999 - sl_i l - 1) = unat (9999999 - sl_i l) - 1"
    using unat_sub_nowrap [of 1 "9999999 - sl_i l"] by (simp only: unat_1)
  moreover have "9999999 - sl_i l2 = 9999999 - sl_i l - 1" by (simp add: l2(1))
  moreover have "0 < unat (9999999 - sl_i l)" using \<open>9999999 - sl_i l \<noteq> 0\<close> using unat_gt_0 by blast
  ultimately have "unat (9999999 - sl_i l2) < unat (9999999 - sl_i l)" by (metis diff_less zero_less_one)
  then show ?case by simp
qed simp

declare lock_alone.simps [simp del]

text \<open>\<^verbatim>\<open>LockGuard\<close>: the lock is taken before the body runs and released after it.\<close>

definition with_lock :: "('s \<Rightarrow> 's) \<Rightarrow> Spinlock \<Rightarrow> 's \<Rightarrow> (Spinlock \<times> 's) outcome" where
  "with_lock body l s =
     (case lock_alone l of Panics msg \<Rightarrow> Panics msg | Returns l1 \<Rightarrow> let s' = body s in Returns (unlock l1, s'))"

section \<open>Processors that share a lock\<close>

datatype phase = Outside | Waiting | Holding | Releasing | Dead

record machine =
  mc_lock :: Spinlock
  mc_phase :: "nat \<Rightarrow> phase"
  mc_if :: "nat \<Rightarrow> bool"

inductive lock_step :: "machine \<Rightarrow> machine \<Rightarrow> bool" where
  cli: "mc_phase s c = Outside \<Longrightarrow> lock_step s (s\<lparr>mc_phase := (mc_phase s)(c := Waiting), mc_if := (mc_if s)(c := False)\<rparr>)"
| taken: "mc_phase s c = Waiting \<Longrightarrow> test_and_set (mc_lock s) = (False, l) \<Longrightarrow>
    lock_step s (s\<lparr>mc_lock := l, mc_phase := (mc_phase s)(c := Holding)\<rparr>)"
| again: "mc_phase s c = Waiting \<Longrightarrow> test_and_set (mc_lock s) = (True, l) \<Longrightarrow> spin l = Returns l' \<Longrightarrow>
    lock_step s (s\<lparr>mc_lock := l'\<rparr>)"
| panic: "mc_phase s c = Waiting \<Longrightarrow> test_and_set (mc_lock s) = (True, l) \<Longrightarrow> spin l = Panics msg \<Longrightarrow>
    lock_step s (s\<lparr>mc_phase := (mc_phase s)(c := Dead)\<rparr>)"
| reset: "mc_phase s c = Holding \<Longrightarrow>
    lock_step s (s\<lparr>mc_lock := reset_count (mc_lock s), mc_phase := (mc_phase s)(c := Releasing)\<rparr>)"
| clear: "mc_phase s c = Releasing \<Longrightarrow>
    lock_step s (s\<lparr>mc_lock := clear_lock (mc_lock s), mc_phase := (mc_phase s)(c := Outside), mc_if := (mc_if s)(c := True)\<rparr>)"

inductive_cases lock_stepE: "lock_step s s'"

definition owns :: "machine \<Rightarrow> nat \<Rightarrow> bool" where
  "owns s c \<longleftrightarrow> mc_phase s c = Holding \<or> mc_phase s c = Releasing"

text \<open>The flag is set exactly while one processor owns the lock, and waiting processors and owners have interrupts off.\<close>

definition lock_inv :: "machine \<Rightarrow> bool" where
  "lock_inv s \<longleftrightarrow> (\<forall>c c'. owns s c \<and> owns s c' \<longrightarrow> c = c') \<and> (locked (mc_lock s) \<longleftrightarrow> (\<exists>c. owns s c)) \<and>
     (\<forall>c. owns s c \<or> mc_phase s c = Waiting \<longrightarrow> \<not> mc_if s c)"

definition machine_start :: machine where
  "machine_start = \<lparr>mc_lock = new_lock, mc_phase = (\<lambda>_. Outside), mc_if = (\<lambda>_. True)\<rparr>"

lemma spin_locked: "spin l = Returns l' \<Longrightarrow> locked l' = locked l"
  by (auto simp: spin_def Let_def split: if_splits)

lemma lock_step_inv: "lock_step s s' \<Longrightarrow> lock_inv s \<Longrightarrow> lock_inv s'"
proof (induction rule: lock_step.induct)
  case (cli s c)
  let ?s = "s\<lparr>mc_phase := (mc_phase s)(c := Waiting), mc_if := (mc_if s)(c := False)\<rparr>"
  have "owns ?s = owns s" using cli(1) by (auto simp: owns_def fun_eq_iff)
  then show ?case using cli(2) by (simp add: lock_inv_def)
next
  case (taken s c l)
  let ?s = "s\<lparr>mc_lock := l, mc_phase := (mc_phase s)(c := Holding)\<rparr>"
  have l: "\<not> locked (mc_lock s)" "locked l" using taken(2) by (auto simp: test_and_set_def)
  then have "owns ?s c' \<longleftrightarrow> c' = c" for c' using taken(3) by (auto simp: owns_def lock_inv_def)
  then show ?case using l(2) taken(1,3) by (simp add: lock_inv_def)
next
  case (again s c l l')
  have "owns (s\<lparr>mc_lock := l'\<rparr>) = owns s" by (simp add: owns_def fun_eq_iff)
  moreover have "locked (mc_lock s)" "locked l'" using again(2,3) spin_locked by (auto simp: test_and_set_def)
  ultimately show ?case using again(4) by (simp add: lock_inv_def)
next
  case (panic s c l msg)
  have "owns (s\<lparr>mc_phase := (mc_phase s)(c := Dead)\<rparr>) = owns s" using panic(1) by (auto simp: owns_def fun_eq_iff)
  then show ?case using panic(4) by (simp add: lock_inv_def)
next
  case (reset s c)
  let ?s = "s\<lparr>mc_lock := reset_count (mc_lock s), mc_phase := (mc_phase s)(c := Releasing)\<rparr>"
  have "owns ?s = owns s" using reset(1) by (auto simp: owns_def fun_eq_iff)
  moreover have "owns s c" using reset(1) by (simp add: owns_def)
  ultimately show ?case using reset(2) by (simp add: lock_inv_def reset_count_def)
next
  case (clear s c)
  let ?s = "s\<lparr>mc_lock := clear_lock (mc_lock s), mc_phase := (mc_phase s)(c := Outside), mc_if := (mc_if s)(c := True)\<rparr>"
  have "owns s c" using clear(1) by (simp add: owns_def)
  then have "\<not> owns ?s c'" for c' using clear(2) unfolding lock_inv_def owns_def by (cases "c' = c") auto
  then show ?case using clear(2) by (simp add: lock_inv_def clear_lock_def)
qed

section \<open>Properties\<close>

lemma lock_alone_held: "locked l \<Longrightarrow> lock_alone l = Panics ''Spinlock spun too much''"
proof (induction l rule: lock_alone.induct)
  case (1 l)
  have ts: "test_and_set l = (True, l)" using 1(2) by (simp add: test_and_set_def)
  show ?case
  proof (cases "spin l")
    case (Returns l2)
    then have "locked l2" using spin_locked 1(2) by simp
    then show ?thesis using 1(1) [OF ts [symmetric] _ Returns] ts Returns by (simp add: lock_alone.simps [of l])
  next
    case (Panics msg)
    then show ?thesis using ts by (auto simp: lock_alone.simps [of l] spin_def Let_def split: if_splits)
  qed
qed

lemma lock_alone_free: "\<not> locked l \<Longrightarrow> lock_alone l = Returns (l\<lparr>locked := True\<rparr>)"
  by (simp add: lock_alone.simps test_and_set_def)



end
