(* ===== verification/Cpp_Runtime.thy ===== *)
theory Cpp_Runtime
  imports Buddy_Alloc Spinlock
begin

text \<open>
  The C++ support routines of \<^verbatim>\<open>src/klib/cppruntime.cpp\<close>: the guards of function-local static objects and the operators \<^verbatim>\<open>new\<close> and
  \<^verbatim>\<open>delete\<close>. Processors that reach the declaration of the same static object interleave: \<open>guard_step\<close> has one rule for each atomic
  action of \<^verbatim>\<open>__cxa_guard_acquire\<close> and \<^verbatim>\<open>__cxa_guard_release\<close>, with the constructor running between them.
  \<open>gu_inits\<close> counts how often the constructor was started.
\<close>

unbundle bit_operations_syntax

section \<open>Definitions\<close>

definition set_guard_in_use :: "u64 \<Rightarrow> u64" where "set_guard_in_use g = g OR 2"
definition guard_in_use :: "u64 \<Rightarrow> bool" where "guard_in_use g \<longleftrightarrow> g AND 2 \<noteq> 0"
definition set_guard_initialized :: "u64 \<Rightarrow> u64" where "set_guard_initialized g = g OR 1"
definition guard_initialized :: "u64 \<Rightarrow> bool" where "guard_initialized g \<longleftrightarrow> g AND 1 \<noteq> 0"

text \<open>The calls of one processor while no other one runs.\<close>

definition cxa_guard_acquire :: "Spinlock \<Rightarrow> u64 \<Rightarrow> (u32 \<times> Spinlock \<times> u64) outcome" where
  "cxa_guard_acquire l g =
     (if g \<noteq> 0 then Returns (0, l, g)
      else case lock_alone l of
        Panics msg \<Rightarrow> Panics msg
      | Returns l1 \<Rightarrow>
          if guard_initialized g then Returns (0, unlock l1, g)
          else if guard_in_use g then Panics ''__cxa_guard_acquire: guard in use''
          else Returns (1, l1, set_guard_in_use g))"

definition cxa_guard_release :: "Spinlock \<Rightarrow> u64 \<Rightarrow> Spinlock \<times> u64" where
  "cxa_guard_release l g = (let g1 = set_guard_initialized g in (unlock l, g1))"

text \<open>Where a processor is. \<open>Guard_Panicked\<close> is the panic of \<^verbatim>\<open>__cxa_guard_acquire\<close> itself, \<open>Guard_Dead\<close> that of the lock.\<close>

datatype guard_phase = Arriving | Locking | Testing | Initialising | Unlocking | Using | Guard_Panicked | Guard_Dead

record guards =
  gu_guard :: u64
  gu_lock :: Spinlock
  gu_phase :: "nat \<Rightarrow> guard_phase"
  gu_inits :: nat

definition at_phase :: "nat \<Rightarrow> guard_phase \<Rightarrow> guards \<Rightarrow> guards" where
  "at_phase c p s = s\<lparr>gu_phase := (gu_phase s)(c := p)\<rparr>"

inductive guard_step :: "guards \<Rightarrow> guards \<Rightarrow> bool" where
  set_already: "gu_phase s c = Arriving \<Longrightarrow> gu_guard s \<noteq> 0 \<Longrightarrow> guard_step s (at_phase c Using s)"
| go_lock: "gu_phase s c = Arriving \<Longrightarrow> gu_guard s = 0 \<Longrightarrow> guard_step s (at_phase c Locking s)"
| got_lock: "gu_phase s c = Locking \<Longrightarrow> test_and_set (gu_lock s) = (False, l) \<Longrightarrow> guard_step s (at_phase c Testing (s\<lparr>gu_lock := l\<rparr>))"
| spin_lock: "gu_phase s c = Locking \<Longrightarrow> test_and_set (gu_lock s) = (True, l) \<Longrightarrow> spin l = Returns l' \<Longrightarrow> guard_step s (s\<lparr>gu_lock := l'\<rparr>)"
| spin_out: "gu_phase s c = Locking \<Longrightarrow> test_and_set (gu_lock s) = (True, l) \<Longrightarrow> spin l = Panics msg \<Longrightarrow> guard_step s (at_phase c Guard_Dead s)"
| was_done: "gu_phase s c = Testing \<Longrightarrow> guard_initialized (gu_guard s) \<Longrightarrow> guard_step s (at_phase c Using (s\<lparr>gu_lock := unlock (gu_lock s)\<rparr>))"
| was_used: "gu_phase s c = Testing \<Longrightarrow> \<not> guard_initialized (gu_guard s) \<Longrightarrow> guard_in_use (gu_guard s) \<Longrightarrow>
    guard_step s (at_phase c Guard_Panicked s)"
| construct: "gu_phase s c = Testing \<Longrightarrow> \<not> guard_initialized (gu_guard s) \<Longrightarrow> \<not> guard_in_use (gu_guard s) \<Longrightarrow>
    guard_step s (at_phase c Initialising (s\<lparr>gu_guard := set_guard_in_use (gu_guard s), gu_inits := gu_inits s + 1\<rparr>))"
| constructed: "gu_phase s c = Initialising \<Longrightarrow>
    guard_step s (at_phase c Unlocking (s\<lparr>gu_guard := set_guard_initialized (gu_guard s)\<rparr>))"
| released: "gu_phase s c = Unlocking \<Longrightarrow> guard_step s (at_phase c Using (s\<lparr>gu_lock := unlock (gu_lock s)\<rparr>))"

definition guards_start :: guards where
  "guards_start = \<lparr>gu_guard = 0, gu_lock = new_lock, gu_phase = (\<lambda>_. Arriving), gu_inits = 0\<rparr>"

text \<open>\<^verbatim>\<open>operator new\<close> and \<^verbatim>\<open>operator delete\<close>, in all their forms.\<close>

definition operator_new :: "BuddyAlloc \<Rightarrow> memory \<Rightarrow> usize \<Rightarrow> (memory \<times> uptr) option" where
  "operator_new heap m sz = ba_malloc heap m sz"

definition operator_delete :: "BuddyAlloc \<Rightarrow> memory \<Rightarrow> uptr \<Rightarrow> memory option" where
  "operator_delete heap m ptr = ba_free heap m ptr"

definition operator_delete_sized :: "BuddyAlloc \<Rightarrow> memory \<Rightarrow> uptr \<Rightarrow> usize \<Rightarrow> memory option" where
  "operator_delete_sized heap m ptr sz = operator_delete heap m ptr"

section \<open>The invariant\<close>

definition in_guard :: "guards \<Rightarrow> nat \<Rightarrow> bool" where
  "in_guard s c \<longleftrightarrow> gu_phase s c \<in> {Testing, Initialising, Unlocking}"

text \<open>\<open>own\<close> is the processor inside, if there is one.\<close>

definition guard_inv :: "nat option \<Rightarrow> guards \<Rightarrow> bool" where
  "guard_inv own s \<longleftrightarrow> (\<forall>c. in_guard s c \<longleftrightarrow> own = Some c) \<and> (locked (gu_lock s) \<longleftrightarrow> own \<noteq> None) \<and> (\<forall>c. gu_phase s c \<noteq> Guard_Panicked) \<and>
     (gu_guard s = 0 \<and> gu_inits s = 0 \<and> (\<forall>c. gu_phase s c \<notin> {Initialising, Unlocking, Using}) \<or>
      gu_guard s = 2 \<and> gu_inits s = 1 \<and> (\<exists>c. own = Some c \<and> gu_phase s c = Initialising) \<or>
      gu_guard s = 3 \<and> gu_inits s = 1 \<and> (\<forall>c. gu_phase s c \<noteq> Initialising))"

lemma guard_bits [simp]: "\<not> guard_initialized 0" "\<not> guard_in_use 0" "\<not> guard_initialized 2" "guard_in_use 2" "guard_initialized 3"
  "set_guard_in_use 0 = 2" "set_guard_initialized 2 = 3"
  by (simp_all add: guard_initialized_def guard_in_use_def set_guard_in_use_def set_guard_initialized_def)

lemma at_phase_simps [simp]:
  "gu_guard (at_phase c p s) = gu_guard s" "gu_lock (at_phase c p s) = gu_lock s" "gu_inits (at_phase c p s) = gu_inits s"
  "gu_phase (at_phase c p s) = (gu_phase s)(c := p)"
  by (simp_all add: at_phase_def)

lemma locked_unlock [simp]: "\<not> locked (unlock l)"
  by (simp add: unlock_def clear_lock_def)

text \<open>A move that neither enters nor leaves, and one that does.\<close>

lemma guard_inv_stay:
  assumes "guard_inv own s" "gu_phase s c \<notin> {Testing, Initialising, Unlocking}" "p \<in> {Locking, Using, Guard_Dead}" "p = Using \<longrightarrow> gu_guard s \<noteq> 0"
  shows "guard_inv own (at_phase c p s)"
proof -
  have g: "in_guard (at_phase c p s) c' = in_guard s c'" for c' using assms(2,3) by (auto simp: in_guard_def)
  show ?thesis using assms unfolding guard_inv_def g by (auto simp: in_guard_def)
qed

lemma guard_inv_leave:
  assumes "guard_inv own s" "in_guard s c" "gu_guard s = 3"
  shows "guard_inv None (at_phase c Using (s\<lparr>gu_lock := unlock (gu_lock s)\<rparr>))"
proof -
  have "\<not> in_guard (at_phase c Using (s\<lparr>gu_lock := unlock (gu_lock s)\<rparr>)) c'" for c' using assms(1,2) by (auto simp: in_guard_def guard_inv_def)
  then show ?thesis using assms unfolding guard_inv_def by auto
qed

lemma guard_step_inv: "guard_step s s' \<Longrightarrow> guard_inv own s \<Longrightarrow> \<exists>own'. guard_inv own' s'"
proof (induction rule: guard_step.induct)
  case (set_already s c)
  then show ?case using guard_inv_stay [of own s c Using] by auto
next
  case (go_lock s c)
  then show ?case using guard_inv_stay [of own s c Locking] by auto
next
  case (got_lock s c l)
  have l: "\<not> locked (gu_lock s)" "locked l" using got_lock(2) by (auto simp: test_and_set_def)
  then have "in_guard (at_phase c Testing (s\<lparr>gu_lock := l\<rparr>)) c' \<longleftrightarrow> c' = c" for c' using got_lock(3) by (auto simp: in_guard_def guard_inv_def)
  then have "guard_inv (Some c) (at_phase c Testing (s\<lparr>gu_lock := l\<rparr>))" using l got_lock(1,3) unfolding guard_inv_def by auto
  then show ?case by blast
next
  case (spin_lock s c l l')
  then have "locked (gu_lock s)" "locked l'" using spin_locked by (auto simp: test_and_set_def)
  then have "guard_inv own (s\<lparr>gu_lock := l'\<rparr>)" using spin_lock(4) by (simp add: guard_inv_def in_guard_def)
  then show ?case by blast
next
  case (spin_out s c l msg)
  then show ?case using guard_inv_stay [of own s c Guard_Dead] by auto
next
  case (was_done s c)
  have "in_guard s c" using was_done(1) by (simp add: in_guard_def)
  then have "own = Some c" using was_done(3) by (simp add: guard_inv_def)
  then have "gu_guard s = 3" using was_done by (auto simp: guard_inv_def)
  then show ?case using guard_inv_leave [OF was_done(3) \<open>in_guard s c\<close>] by blast
next
  case (was_used s c)
  have "own = Some c" using was_used(1,4) by (auto simp: guard_inv_def in_guard_def)
  then show ?case using was_used by (auto simp: guard_inv_def)
next
  case (construct s c)
  let ?s = "at_phase c Initialising (s\<lparr>gu_guard := set_guard_in_use (gu_guard s), gu_inits := gu_inits s + 1\<rparr>)"
  have own: "own = Some c" using construct(1,4) by (auto simp: guard_inv_def in_guard_def)
  have "gu_guard s = 0" "gu_inits s = 0" using construct by (auto simp: guard_inv_def)
  moreover have "in_guard ?s c' = in_guard s c'" for c' using construct(1) by (auto simp: in_guard_def)
  ultimately have "guard_inv own ?s" using construct(4) own unfolding guard_inv_def by auto
  then show ?case by blast
next
  case (constructed s c)
  let ?s = "at_phase c Unlocking (s\<lparr>gu_guard := set_guard_initialized (gu_guard s)\<rparr>)"
  have own: "own = Some c" using constructed by (auto simp: guard_inv_def in_guard_def)
  have g: "gu_guard s = 2" "gu_inits s = 1" using constructed by (auto simp: guard_inv_def)
  have same: "in_guard ?s c' = in_guard s c'" for c' using constructed(1) by (auto simp: in_guard_def)
  have "gu_phase s c' \<noteq> Initialising" if "c' \<noteq> c" for c' using constructed(2) own that by (auto simp: guard_inv_def in_guard_def)
  then have "guard_inv own ?s" using constructed(2) own g unfolding guard_inv_def same by auto
  then show ?case by blast
next
  case (released s c)
  have i: "in_guard s c" using released(1) by (simp add: in_guard_def)
  then have "own = Some c" using released(2) by (simp add: guard_inv_def)
  then have "gu_guard s = 3" using released by (auto simp: guard_inv_def)
  then show ?case using guard_inv_leave [OF released(2) i] by blast
qed

section \<open>Properties\<close>

lemma guard_reachable: "guard_step\<^sup>*\<^sup>* guards_start s \<Longrightarrow> \<exists>own. guard_inv own s"
proof (induction rule: rtranclp_induct)
  case base
  have "guard_inv None guards_start" by (simp add: guard_inv_def in_guard_def guards_start_def new_lock_def)
  then show ?case by blast
qed (use guard_step_inv in blast)

text \<open>A static object is constructed at most once: in every reachable state of any number of processors that reach its declaration, the
  constructor was started at most once, no two processors are between acquire and release, no processor takes the panic
  for a guard in use, and once the guard is marked initialised no constructor runs. Nobody gets at the object before a constructor was started. A
  processor that arrives while the lock is held for another static object, with no other processor running, panics instead of waiting for ever.\<close>

theorem static_init_once:
  assumes "guard_step\<^sup>*\<^sup>* guards_start s"
  shows "gu_inits s \<le> 1 \<and> (in_guard s c \<and> in_guard s c' \<longrightarrow> c = c') \<and> gu_phase s c \<noteq> Guard_Panicked \<and>
     (guard_initialized (gu_guard s) \<longrightarrow> gu_phase s c \<noteq> Initialising) \<and> (gu_phase s c = Using \<longrightarrow> gu_inits s = 1) \<and>
     (in_guard s c \<longrightarrow> cxa_guard_acquire (gu_lock s) 0 = Panics ''Spinlock spun too much'')"
proof -
  obtain own where i: "guard_inv own s" using guard_reachable [OF assms] by blast
  have "locked (gu_lock s)" if "in_guard s c" using i that by (auto simp: guard_inv_def)
  then have "in_guard s c \<longrightarrow> cxa_guard_acquire (gu_lock s) 0 = Panics ''Spinlock spun too much''"
    by (simp add: cxa_guard_acquire_def lock_alone_held)
  then show ?thesis using i unfolding guard_inv_def by auto
qed

text \<open>The object can be used before its constructor has finished: the test at the start of acquire lets everybody pass who finds the guard in use.\<close>

definition early_use :: guards where
  "early_use = \<lparr>gu_guard = 2, gu_lock = new_lock\<lparr>locked := True\<rparr>, gu_phase = (\<lambda>_. Arriving)(0 := Initialising, 1 := Using), gu_inits = 1\<rparr>"

lemma used_while_initialising: "guard_step\<^sup>*\<^sup>* guards_start early_use"
proof -
  define s1 where "s1 = at_phase 0 Locking guards_start"
  define s2 where "s2 = at_phase 0 Testing (s1\<lparr>gu_lock := new_lock\<lparr>locked := True\<rparr>\<rparr>)"
  define s3 where "s3 = at_phase 0 Initialising (s2\<lparr>gu_guard := set_guard_in_use (gu_guard s2), gu_inits := gu_inits s2 + 1\<rparr>)"
  have 1: "guard_step guards_start s1" unfolding s1_def by (rule guard_step.go_lock) (simp_all add: guards_start_def)
  have 2: "guard_step s1 s2" unfolding s2_def
    by (rule guard_step.got_lock) (simp_all add: s1_def guards_start_def test_and_set_def new_lock_def)
  have 3: "guard_step s2 s3" unfolding s3_def by (rule guard_step.construct) (simp_all add: s2_def s1_def guards_start_def)
  have 4: "guard_step s3 (at_phase 1 Using s3)" by (rule guard_step.set_already) (simp_all add: s3_def s2_def s1_def guards_start_def)
  have "guard_step\<^sup>*\<^sup>* guards_start s1" using 1 by (rule r_into_rtranclp)
  then have "guard_step\<^sup>*\<^sup>* guards_start s2" using 2 by (rule rtranclp.rtrancl_into_rtrancl)
  then have "guard_step\<^sup>*\<^sup>* guards_start s3" using 3 by (rule rtranclp.rtrancl_into_rtrancl)
  then have "guard_step\<^sup>*\<^sup>* guards_start (at_phase 1 Using s3)" using 4 by (rule rtranclp.rtrancl_into_rtrancl)
  moreover have "at_phase 1 Using s3 = early_use" by (simp add: s3_def s2_def s1_def guards_start_def early_use_def at_phase_def fun_upd_twist)
  ultimately show ?thesis by simp
qed

theorem static_init_once_witness:
  "gu_inits early_use \<le> 1 \<and> gu_phase early_use 0 = Initialising \<and> gu_phase early_use 1 = Using \<and> \<not> in_guard early_use 1 \<and>
   cxa_guard_acquire (gu_lock early_use) 0 = Panics ''Spinlock spun too much''"
  using static_init_once [OF used_while_initialising, of 0 1] by (auto simp: early_use_def in_guard_def)

text \<open>What \<^verbatim>\<open>new\<close> returned can be given to \<^verbatim>\<open>delete\<close>, and the heap is as before.\<close>

lemma new_delete: "heap_holds heap m A \<Longrightarrow> malloc_ok sz \<Longrightarrow>
    \<exists>m' p. operator_new heap m sz = Some (m', p) \<and>
      (p \<noteq> 0 \<longrightarrow> (\<exists>m''. operator_delete_sized heap m' p sz = Some m'' \<and> heap_holds heap m'' A))"
  unfolding operator_new_def operator_delete_sized_def operator_delete_def by (rule heap.alloc_release)

end
