(* ===== verification/Bitmap.thy ===== *)
theory Bitmap
  imports Kmem
begin

text \<open>
  \<^verbatim>\<open>klib::Bitmap\<close> of \<^verbatim>\<open>src/klib/bitmap.hpp\<close>: a bit array in byte memory, used by the
  page allocator (\<^verbatim>\<open>mem/pmm.cpp\<close>) and by the interrupt vector allocator
  (\<^verbatim>\<open>cpu/interrupts/idt.cpp\<close>). The locale \<open>bit_store\<close> is the contract the two
  clients rely on; \<open>bits\<close> interprets it on the bitmap's own get and set.
\<close>

section \<open>Definitions\<close>

record Bitmap =
  m_buffer :: uptr
  m_size :: usize

definition bitmap_get :: "memory \<Rightarrow> Bitmap \<Rightarrow> usize \<Rightarrow> bool" where
  "bitmap_get m bm index =
     (drop_bit (unat (index mod 8)) (m (m_buffer bm + index div 8)) AND 1 \<noteq> 0)"

definition bitmap_set :: "memory \<Rightarrow> Bitmap \<Rightarrow> usize \<Rightarrow> bool \<Rightarrow> memory" where
  "bitmap_set m bm index v =
     (let d = m_buffer bm + index div 8;
          r = unat (index mod 8);
          m1 = m(d := m d AND NOT (push_bit r 1))
      in m1(d := m1 d OR push_bit r (of_bool v)))"

definition bitmap_fill :: "memory \<Rightarrow> Bitmap \<Rightarrow> bool \<Rightarrow> memory" where
  "bitmap_fill m bm v =
     for_range (\<lambda>i m. bitmap_set m bm (m_size bm - i) True) 0 (m_size bm mod 8)
       (memset m (m_buffer bm) (NOT 0) (m_size bm div 8))"

section \<open>The contract of a bit array\<close>

locale bit_store =
  fixes get :: "'s \<Rightarrow> 'i::len word \<Rightarrow> bool"
    and set :: "'s \<Rightarrow> 'i word \<Rightarrow> bool \<Rightarrow> 's"
  assumes get_set: "get (set s i v) j = (if j = i then v else get s j)"
begin

text \<open>A loop that writes one value over a range of indices.\<close>

lemma get_set_range:
  "get (for_range (\<lambda>i s. set s i v) a n s) j = (if a \<le> j \<and> j < n then v else get s j)"
proof (cases "a \<le> n")
  case True
  let ?P = "\<lambda>i t. \<forall>j. get t j = (if a \<le> j \<and> j < i then v else get s j)"
  have "?P n (for_range (\<lambda>i s. set s i v) a n s)"
  proof (rule for_range_inv [OF True, where P = ?P])
    show "?P a s" by auto
    fix i t assume "a \<le> i" "i < n" "?P i t"
    then show "?P (i + 1) (set t i v)"
      by (auto simp: get_set word_le_nat_alt word_less_nat_alt unat_inc word_unat_eq_iff less_Suc_eq)
  qed
  then show ?thesis by simp
next
  case False
  then show ?thesis by (auto dest: order_trans)
qed

end

section \<open>The bitmap keeps the contract\<close>

lemma bitmap_get_bit:
  "bitmap_get m bm i = bit (m (m_buffer bm + i div 8)) (unat (i mod 8))"
  by (simp add: bitmap_get_def and_one_eq bit_iff_odd_drop_bit odd_iff_mod_2_eq_one)

lemma div8_eq_mod8_eq: "i div 8 = j div 8 \<Longrightarrow> i mod 8 = j mod 8 \<Longrightarrow> i = j"
  for i j :: usize
  by (metis div_mult_mod_eq)

lemma unat_mod8: "unat (i mod 8) < 8"
  for i :: usize
  by (simp add: unat_mod)

lemma bitmap_get_set:
  "bitmap_get (bitmap_set m bm i v) bm j = (if j = i then v else bitmap_get m bm j)"
proof (cases "j div 8 = i div 8")
  case True
  then have "j = i \<longleftrightarrow> unat (j mod 8) = unat (i mod 8)"
    by (metis div8_eq_mod8_eq word_unat_eq_iff)
  with True show ?thesis
    using unat_mod8 [of j] unat_mod8 [of i]
    by (auto simp: bitmap_get_bit bitmap_set_def Let_def bit_simps)
next
  case False
  then show ?thesis
    by (auto simp: bitmap_get_bit bitmap_set_def Let_def)
qed

interpretation bits: bit_store "\<lambda>m. bitmap_get m bm" "\<lambda>m. bitmap_set m bm" for bm
  by unfold_locales (rule bitmap_get_set)

lemma bitmap_set_frame: "a \<noteq> m_buffer bm + i div 8 \<Longrightarrow> bitmap_set m bm i v a = m a"
  by (simp add: bitmap_set_def Let_def)

section \<open>Filling\<close>

lemma fill_loop_get:
  assumes "r \<le> m_size bm"
  shows "bitmap_get (for_range (\<lambda>i m. bitmap_set m bm (m_size bm - i) True) 0 r m) bm j =
    ((\<exists>k<r. j = m_size bm - k) \<or> bitmap_get m bm j)"
proof -
  let ?P = "\<lambda>i t. bitmap_get t bm j = ((\<exists>k<i. j = m_size bm - k) \<or> bitmap_get m bm j)"
  have "?P r (for_range (\<lambda>i m. bitmap_set m bm (m_size bm - i) True) 0 r m)"
  proof (rule for_range_inv [where P = ?P])
    fix i t assume "i < r" and P: "?P i t"
    then have "k < i + 1 \<longleftrightarrow> k < i \<or> k = i" for k
      by (auto simp: word_less_nat_alt word_unat_eq_iff unat_inc less_Suc_eq)
    with P show "?P (i + 1) (bitmap_set t bm (m_size bm - i) True)"
      by (auto simp: bitmap_get_set)
  qed auto
  then show ?thesis .
qed

lemma fill_memset_get:
  assumes "j < m_size bm"
  shows "bitmap_get (memset m (m_buffer bm) (NOT 0) (m_size bm div 8)) bm j =
    (j div 8 < m_size bm div 8 \<or> bitmap_get m bm j)"
  using unat_mod8 [of j] by (auto simp: bitmap_get_bit memset_apply bit_simps)

lemma bitmap_fill_get:
  assumes "j < m_size bm"
  shows "bitmap_get (bitmap_fill m bm v) bm j =
    (if m_size bm mod 8 \<noteq> 0 \<and> j = m_size bm - m_size bm mod 8 then bitmap_get m bm j else True)"
proof -
  let ?n = "m_size bm" and ?r = "m_size bm mod 8"
  have r: "?r \<le> ?n" by (simp add: word_le_nat_alt unat_mod)
  have fill: "bitmap_get (bitmap_fill m bm v) bm j =
      ((\<exists>k<?r. j = ?n - k) \<or> j div 8 < ?n div 8 \<or> bitmap_get m bm j)"
    using fill_loop_get [OF r] fill_memset_get [OF assms] by (simp add: bitmap_fill_def)
  have nat: "unat (?n - ?r) = 8 * (unat ?n div 8)" "unat j < unat ?n"
    using unat_sub [OF r] assms by (simp_all only: unat_mod word_less_nat_alt) (simp_all add: minus_mod_eq_mult_div)
  show ?thesis
  proof (cases "unat j < 8 * (unat ?n div 8)")
    case True
    then have "unat j div 8 < unat ?n div 8" by (simp add: less_mult_imp_div_less mult.commute)
    with True nat show ?thesis
      by (auto simp: fill word_less_nat_alt unat_div word_unat_eq_iff)
  next
    case False
    then have ge: "8 * (unat ?n div 8) \<le> unat j" by simp
    define t where "t = unat ?n - unat j"
    have k: "(\<exists>k<?r. j = ?n - k) \<longleftrightarrow> t < unat ?r"
    proof
      assume "\<exists>k<?r. j = ?n - k"
      then obtain k where "k < ?r" "j = ?n - k" by blast
      moreover then have "unat j = unat ?n - unat k" using r by (simp add: unat_sub order_trans)
      ultimately show "t < unat ?r" by (simp add: t_def word_less_nat_alt)
    next
      assume "t < unat ?r"
      moreover then have "unat (of_nat t :: usize) = t"
        using unat_bound [of ?r] by (intro unat_of_nat_small) simp
      ultimately have "of_nat t < ?r" "j = ?n - of_nat t"
        using nat(2) r by (simp_all add: word_less_nat_alt word_unat_eq_iff unat_sub_if_size t_def)
      then show "\<exists>k<?r. j = ?n - k" by blast
    qed
    have "\<not> j div 8 < ?n div 8"
      using ge by (simp add: word_less_nat_alt unat_div)
    moreover have "t < unat ?r \<longleftrightarrow> j \<noteq> ?n - ?r"
    proof -
      have "unat ?r = unat ?n - 8 * (unat ?n div 8)"
        by (simp add: unat_mod minus_mult_div_eq_mod)
      then have "t < unat ?r \<longleftrightarrow> unat j \<noteq> 8 * (unat ?n div 8)"
        using ge nat(2) by (simp add: t_def) linarith
      with nat(1) show ?thesis by (simp only: word_unat_eq_iff)
    qed
    moreover have "j = ?n - ?r \<Longrightarrow> ?r \<noteq> 0"
      using assms by (metis diff_zero less_irrefl)
    ultimately show ?thesis
      unfolding fill k by metis
  qed
qed

text \<open>
  \<^verbatim>\<open>Bitmap::fill\<close> sets every bit of the bitmap, whatever \<^verbatim>\<open>value\<close> it is given,
  except that when the size is not a multiple of 8 the first bit of the last,
  partial byte keeps its old value: the remainder loop writes the bits
  \<^verbatim>\<open>m_size - i\<close> instead of \<^verbatim>\<open>m_size - 1 - i\<close>.
\<close>

theorem bitmap_fill_spec:
  assumes "j < m_size bm"
  shows "bitmap_get (bitmap_fill m bm v) bm j =
    (if m_size bm mod 8 \<noteq> 0 \<and> j = m_size bm - m_size bm mod 8 then bitmap_get m bm j else True)"
  using assms by (rule bitmap_fill_get)

theorem bitmap_fill_spec_witness:
  "(8 :: usize) < 12 \<and>
   bitmap_get (bitmap_fill (\<lambda>_. 0) \<lparr>m_buffer = 0, m_size = 12\<rparr> True) \<lparr>m_buffer = 0, m_size = 12\<rparr> 8 = False"
  using bitmap_fill_spec [of 8 "\<lparr>m_buffer = 0, m_size = 12\<rparr>" "\<lambda>_. 0" True]
  by (simp add: bitmap_get_def)

end
