(* ===== verification/Pmm.thy ===== *)
theory Pmm
  imports Bitmap
begin

text \<open>
  The physical page allocator \<^verbatim>\<open>mem::pmm\<close> (\<^verbatim>\<open>src/mem/pmm.cpp\<close>): a next-fit search in
  a bitmap with one bit per 4 KiB page, set while the page is in use. The state
  is the file's static variables and the memory that holds the bitmap. Every
  operation runs under \<^verbatim>\<open>pmm_lock\<close>, so the operations are modelled as atomic.
\<close>

section \<open>Definitions\<close>

definition LIMINE_MEMMAP_USABLE :: u64 where "LIMINE_MEMMAP_USABLE = 0"
definition LIMINE_MEMMAP_BOOTLOADER_RECLAIMABLE :: u64 where
  "LIMINE_MEMMAP_BOOTLOADER_RECLAIMABLE = 5"
definition LIMINE_MEMMAP_KERNEL_AND_MODULES :: u64 where "LIMINE_MEMMAP_KERNEL_AND_MODULES = 6"
definition LIMINE_MEMMAP_FRAMEBUFFER :: u64 where "LIMINE_MEMMAP_FRAMEBUFFER = 7"

record limine_memmap_entry =
  me_base :: u64
  me_length :: u64
  me_type :: u64

record pmm =
  pmem :: memory
  page_bitmap :: Bitmap
  page_bitmap_index :: usize
  last_usable_mem :: uptr
  total_usable_size :: usize
  total_allocated :: usize

text \<open>The first loop of \<^verbatim>\<open>init\<close>: the end of the highest usable entry.\<close>

definition find_last_usable :: "limine_memmap_entry list \<Rightarrow> uptr \<Rightarrow> uptr" where
  "find_last_usable entries = fold (\<lambda>entry last.
     let new_usable_mem = me_base entry + me_length entry
     in if new_usable_mem > last \<and> me_type entry = LIMINE_MEMMAP_USABLE
        then new_usable_mem else last) entries"

text \<open>The second loop: the first usable entry with room for the bitmap.\<close>

definition find_bitmap_home :: "limine_memmap_entry list \<Rightarrow> usize \<Rightarrow> limine_memmap_entry option" where
  "find_bitmap_home entries bits =
     find (\<lambda>entry. me_type entry = LIMINE_MEMMAP_USABLE \<and> me_length entry \<ge> bits div 8) entries"

definition entry_page_start :: "limine_memmap_entry \<Rightarrow> usize" where
  "entry_page_start entry =
     (if me_base entry mod 0x1000 \<noteq> 0 then me_base entry div 0x1000 + 1
      else me_base entry div 0x1000)"

definition entry_page_end :: "limine_memmap_entry \<Rightarrow> usize" where
  "entry_page_end entry =
     (let page_end = me_base entry div 0x1000 + me_length entry div 0x1000
      in if me_length entry mod 0x1000 \<noteq> 0 then page_end - 1 else page_end)"

text \<open>The third loop: clear the bits of the pages of every usable entry.\<close>

definition free_entry :: "limine_memmap_entry \<Rightarrow> pmm \<Rightarrow> pmm" where
  "free_entry entry s =
     (if me_type entry = LIMINE_MEMMAP_USABLE
      then for_range (\<lambda>i s. s\<lparr>pmem := bitmap_set (pmem s) (page_bitmap s) i False,
                              total_usable_size := total_usable_size s + 0x1000\<rparr>)
             (entry_page_start entry) (entry_page_end entry) s
      else s)"

text \<open>The last loop: the pages the bitmap itself occupies are in use.\<close>

definition bitmap_self_index :: "uptr \<Rightarrow> Bitmap \<Rightarrow> usize" where
  "bitmap_self_index hhdm bm = (m_buffer bm - hhdm) div 0x1000"

definition bitmap_self_end :: "uptr \<Rightarrow> Bitmap \<Rightarrow> usize" where
  "bitmap_self_end hhdm bm =
     bitmap_self_index hhdm bm + align_up 0x1000 (m_size bm div 8) div 0x1000"

definition reserve_bitmap :: "uptr \<Rightarrow> pmm \<Rightarrow> pmm" where
  "reserve_bitmap hhdm s =
     for_range (\<lambda>i s. s\<lparr>pmem := bitmap_set (pmem s) (page_bitmap s) i True,
                        total_usable_size := total_usable_size s - 0x1000\<rparr>)
       (bitmap_self_index hhdm (page_bitmap s)) (bitmap_self_end hhdm (page_bitmap s)) s"

definition pmm_init :: "uptr \<Rightarrow> limine_memmap_entry list \<Rightarrow> pmm \<Rightarrow> pmm" where
  "pmm_init hhdm entries s =
     (let last = find_last_usable entries (last_usable_mem s);
          bits = last div 0x1000;
          buffer = (case find_bitmap_home entries bits of
                      Some entry \<Rightarrow> me_base entry + hhdm
                    | None \<Rightarrow> m_buffer (page_bitmap s));
          bm = \<lparr>m_buffer = buffer, m_size = bits\<rparr>;
          s1 = s\<lparr>last_usable_mem := last, page_bitmap := bm,
                 pmem := bitmap_fill (pmem s) bm True\<rparr>
      in reserve_bitmap hhdm (fold free_entry entries s1))"

text \<open>
  \<^verbatim>\<open>inner_alloc\<close>: the search loop from \<^verbatim>\<open>page_bitmap_index\<close>, with the number of free
  pages seen in a row. It returns the physical address (0 for none), the
  memory and the new index.
\<close>

function inner_alloc_loop ::
  "Bitmap \<Rightarrow> usize \<Rightarrow> usize \<Rightarrow> memory \<Rightarrow> usize \<Rightarrow> usize \<Rightarrow> uptr \<times> memory \<times> usize" where
  "inner_alloc_loop bm num_pages limit m index pages =
     (if index < limit then
        if \<not> bitmap_get m bm index then
          (let index' = index + 1; pages' = pages + 1
           in if pages' = num_pages then
                (let beginning = index' - num_pages
                 in (beginning * 0x1000,
                     for_range (\<lambda>i m. bitmap_set m bm i True) beginning index' m, index'))
              else inner_alloc_loop bm num_pages limit m index' pages')
        else inner_alloc_loop bm num_pages limit m (index + 1) 0
      else (0, m, index))"
  by pat_completeness auto
termination
  by (relation "measure (\<lambda>(bm, num_pages, limit, m, index, pages). unat limit - unat index)")
     (auto simp: word_less_nat_alt unat_inc)

declare inner_alloc_loop.simps [simp del]

definition inner_alloc :: "usize \<Rightarrow> usize \<Rightarrow> pmm \<Rightarrow> uptr \<times> pmm" where
  "inner_alloc num_pages limit s =
     (case inner_alloc_loop (page_bitmap s) num_pages limit (pmem s) (page_bitmap_index s) 0 of
        (result, m, index) \<Rightarrow> (result, s\<lparr>pmem := m, page_bitmap_index := index\<rparr>))"

definition alloc_pages :: "usize \<Rightarrow> pmm \<Rightarrow> (uptr \<times> pmm) outcome" where
  "alloc_pages num_pages s =
     (let last = page_bitmap_index s
      in case inner_alloc num_pages (m_size (page_bitmap s)) s of (result, s1) \<Rightarrow>
           if result = 0 then
             (case inner_alloc num_pages last (s1\<lparr>page_bitmap_index := 0\<rparr>) of (result, s2) \<Rightarrow>
                if result = 0 then Panics ''Out of physical memory''
                else Returns (result,
                  s2\<lparr>total_allocated := total_allocated s2 + num_pages * 0x1000\<rparr>))
           else Returns (result,
             s1\<lparr>total_allocated := total_allocated s1 + num_pages * 0x1000\<rparr>))"

text \<open>
  \<^verbatim>\<open>free_pages\<close>: the loop condition \<^verbatim>\<open>i < num_pages + i\<close> reads the running \<open>i\<close>, so the
  loop ends only when \<^verbatim>\<open>num_pages + i\<close> wraps around.
\<close>

function free_pages_loop :: "Bitmap \<Rightarrow> usize \<Rightarrow> memory \<Rightarrow> usize \<Rightarrow> memory" where
  "free_pages_loop bm num_pages m i =
     (if i < num_pages + i then free_pages_loop bm num_pages (bitmap_set m bm i False) (i + 1)
      else m)"
  by pat_completeness auto
termination
proof (relation "measure (\<lambda>(bm, num_pages, m, i). 2 ^ 64 - unat i)", goal_cases)
  case (2 bm num_pages m i)
  then show ?case using unat_inc [OF 2] unat_bound [of i] by simp
qed simp

declare free_pages_loop.simps [simp del]

definition free_pages :: "uptr \<Rightarrow> usize \<Rightarrow> pmm \<Rightarrow> pmm" where
  "free_pages phy num_pages s =
     (let i = phy div 0x1000
      in s\<lparr>page_bitmap_index :=
             (if i < page_bitmap_index s then i else page_bitmap_index s),
           pmem := free_pages_loop (page_bitmap s) num_pages (pmem s) i,
           total_allocated := total_allocated s - num_pages * 0x1000\<rparr>)"

definition get_total_allocated :: "pmm \<Rightarrow> usize" where
  "get_total_allocated s = total_allocated s"

text \<open>A page is in use when its bit is set.\<close>

definition page_used :: "pmm \<Rightarrow> usize \<Rightarrow> bool" where
  "page_used s j = bitmap_get (pmem s) (page_bitmap s) j"

text \<open>
  What every allocation keeps: page numbers times 4 KiB do not wrap, the search
  index stays within the bitmap, and page 0 is in use (its address is the value
  that \<^verbatim>\<open>inner_alloc\<close> returns for failure).
\<close>

definition pmm_wf :: "pmm \<Rightarrow> bool" where
  "pmm_wf s \<longleftrightarrow> unat (m_size (page_bitmap s)) \<le> 2 ^ 52 \<and> page_used s 0 \<and>
     page_bitmap_index s \<le> m_size (page_bitmap s)"

text \<open>\<open>n\<close> free pages in a row from \<open>b\<close>, all in \<open>[lo, hi)\<close>.\<close>

definition free_run :: "pmm \<Rightarrow> usize \<Rightarrow> usize \<Rightarrow> usize \<Rightarrow> nat \<Rightarrow> bool" where
  "free_run s lo hi n b \<longleftrightarrow> unat lo \<le> b \<and> b + unat n \<le> unat hi \<and>
     (\<forall>j. b \<le> unat j \<and> unat j < b + unat n \<longrightarrow> \<not> page_used s j)"

section \<open>The search loop\<close>

text \<open>The same run of free pages, over the memory and the bitmap themselves.\<close>

definition run_at :: "Bitmap \<Rightarrow> memory \<Rightarrow> nat \<Rightarrow> nat \<Rightarrow> bool" where
  "run_at bm m n b \<longleftrightarrow> (\<forall>j. b \<le> unat j \<and> unat j < b + n \<longrightarrow> \<not> bitmap_get m bm j)"

lemma run_at_0 [simp]: "run_at bm m 0 b"
  by (auto simp: run_at_def)

lemma run_atD: "run_at bm m n b \<Longrightarrow> b \<le> unat j \<Longrightarrow> unat j < b + n \<Longrightarrow> \<not> bitmap_get m bm j"
  by (simp add: run_at_def)

lemma run_at_Suc:
  assumes "run_at bm m p (unat i - p)" and "\<not> bitmap_get m bm i" and "p \<le> unat i"
  shows "run_at bm m (Suc p) (unat i - p)"
  unfolding run_at_def
proof (intro allI impI)
  fix j :: usize assume j: "unat i - p \<le> unat j \<and> unat j < unat i - p + Suc p"
  show "\<not> bitmap_get m bm j"
  proof (cases "j = i")
    case False
    with j assms(3) have "unat j < unat i - p + p"
      by (simp add: word_unat_eq_iff)
    with assms(1) j show ?thesis by (blast dest: run_atD)
  qed (use assms(2) in simp)
qed

definition loop_found :: "Bitmap \<Rightarrow> usize \<Rightarrow> usize \<Rightarrow> memory \<Rightarrow> nat \<Rightarrow> uptr \<times> memory \<times> usize \<Rightarrow> bool" where
  "loop_found bm num limit m lo r \<longleftrightarrow> (\<exists>b. lo \<le> unat b \<and> unat b + unat num \<le> unat limit \<and> num \<noteq> 0 \<and>
     run_at bm m (unat num) (unat b) \<and>
     r = (b * 0x1000, for_range (\<lambda>i m. bitmap_set m bm i True) b (b + num) m, b + num))"

definition loop_none :: "Bitmap \<Rightarrow> usize \<Rightarrow> usize \<Rightarrow> memory \<Rightarrow> nat \<Rightarrow> uptr \<times> memory \<times> usize \<Rightarrow> bool" where
  "loop_none bm num limit m lo r \<longleftrightarrow>
     (num \<noteq> 0 \<longrightarrow> (\<forall>b. lo \<le> b \<and> b + unat num \<le> unat limit \<longrightarrow> \<not> run_at bm m (unat num) b)) \<and>
     (\<exists>i. r = (0, m, i))"

lemma inner_alloc_loop_spec:
  "unat pages \<le> unat index \<Longrightarrow> num \<noteq> 0 \<longrightarrow> pages < num \<Longrightarrow>
   run_at bm m (unat pages) (unat index - unat pages) \<Longrightarrow>
   loop_found bm num limit m (unat index - unat pages) (inner_alloc_loop bm num limit m index pages) \<or>
   loop_none bm num limit m (unat index - unat pages) (inner_alloc_loop bm num limit m index pages)"
proof (induction bm num limit m index pages rule: inner_alloc_loop.induct)
  case (1 bm num limit m index pages)
  let ?lo = "unat index - unat pages"
  have p: "unat (pages + 1) = Suc (unat pages)" if "index < limit"
    using "1.prems"(1) that unat_bound [of limit]
    by (intro unat_add_nowrap [of pages 1, simplified]) (simp add: word_less_nat_alt)
  consider (stop) "\<not> index < limit" | (used) "index < limit" "bitmap_get m bm index"
    | (hit) "index < limit" "\<not> bitmap_get m bm index" "pages + 1 = num"
    | (more) "index < limit" "\<not> bitmap_get m bm index" "pages + 1 \<noteq> num" by blast
  then show ?case
  proof cases
    case stop
    with "1.prems" have "loop_none bm num limit m ?lo (0, m, index)"
      by (auto simp: loop_none_def word_less_nat_alt)
    with stop show ?thesis by (simp add: inner_alloc_loop.simps)
  next
    case used
    have "loop_found bm num limit m (unat index + 1) (inner_alloc_loop bm num limit m (index + 1) 0) \<or>
        loop_none bm num limit m (unat index + 1) (inner_alloc_loop bm num limit m (index + 1) 0)"
      using "1.IH"(2) used unat_inc [OF used(1)] by (simp add: word_gt_0)
    moreover have C: "\<not> run_at bm m (unat num) b" if "?lo \<le> b" "b \<le> unat index" "num \<noteq> 0" for b
    proof -
      from that "1.prems"(1,2) have "unat index < b + unat num"
        by (simp add: word_less_nat_alt)
      with that used run_atD show ?thesis by blast
    qed
    moreover have "loop_found bm num limit m (unat index + 1) r \<Longrightarrow> loop_found bm num limit m ?lo r" for r
      unfolding loop_found_def by (elim exE, rule exI, auto)
    moreover have "loop_none bm num limit m (unat index + 1) r \<Longrightarrow> loop_none bm num limit m ?lo r" for r
      unfolding loop_none_def using C by (metis Suc_eq_plus1 not_less_eq_eq)
    moreover have "inner_alloc_loop bm num limit m index pages =
        inner_alloc_loop bm num limit m (index + 1) 0"
      using used by (simp add: inner_alloc_loop.simps [of bm num limit m index])
    ultimately show ?thesis by metis
  next
    case hit
    have num: "unat num = Suc (unat pages)"
      using p [OF hit(1)] hit(3) by simp
    have "index + 1 - num = index - pages" by (simp flip: hit(3))
    moreover have "unat (index - pages) = ?lo"
      using "1.prems"(1) by (intro unat_sub) (simp add: word_le_nat_alt)
    ultimately have b: "unat (index + 1 - num) = ?lo" by (simp only:)
    have b': "index + 1 - num + num = index + 1" by (rule diff_add_cancel)
    have "run_at bm m (unat num) ?lo"
      using run_at_Suc [OF "1.prems"(3) hit(2) "1.prems"(1)] num by simp
    moreover have "?lo + unat num \<le> unat limit" "num \<noteq> 0"
      using num hit(1) "1.prems"(1) by (auto simp: word_less_nat_alt)
    ultimately have "loop_found bm num limit m ?lo (inner_alloc_loop bm num limit m index pages)"
      unfolding loop_found_def using hit b b'
      by (intro exI [of _ "index + 1 - num"]) (simp add: inner_alloc_loop.simps [of bm num limit m index] Let_def)
    then show ?thesis ..
  next
    case more
    have i: "unat (index + 1) = Suc (unat index)" using more(1) by (rule unat_inc)
    have "num \<noteq> 0 \<longrightarrow> pages + 1 < num"
      using "1.prems"(2) more(3) word_inc_le [of pages num] by auto
    moreover have "run_at bm m (Suc (unat pages)) ?lo"
      by (rule run_at_Suc [OF "1.prems"(3) more(2) "1.prems"(1)])
    ultimately show ?thesis
      using "1.IH"(1) more p [OF more(1)] i "1.prems"(1)
      by (simp add: inner_alloc_loop.simps [of bm num limit m index] Let_def)
  qed
qed

section \<open>Allocation\<close>

text \<open>The state after \<open>n\<close> pages from \<open>b\<close> were marked and the counter raised.\<close>

definition marked :: "usize \<Rightarrow> usize \<Rightarrow> pmm \<Rightarrow> pmm" where
  "marked b n s = s\<lparr>pmem := for_range (\<lambda>i m. bitmap_set m (page_bitmap s) i True) b (b + n) (pmem s),
     page_bitmap_index := b + n, total_allocated := total_allocated s + n * 0x1000\<rparr>"

lemma page_used_marked:
  "page_used (marked b n s) j = (page_used s j \<or> b \<le> j \<and> j < b + n)"
  by (auto simp: page_used_def marked_def bits.get_set_range)

lemma marked_simps [simp]:
  "page_bitmap (marked b n s) = page_bitmap s"
  "page_bitmap_index (marked b n s) = b + n"
  "total_allocated (marked b n s) = total_allocated s + n * 0x1000"
  by (simp_all add: marked_def)

lemma run_at_free_run:
  "free_run s lo hi n b \<longleftrightarrow> unat lo \<le> b \<and> b + unat n \<le> unat hi \<and>
     run_at (page_bitmap s) (pmem s) (unat n) b"
  by (simp add: free_run_def run_at_def page_used_def)

text \<open>One call of \<^verbatim>\<open>inner_alloc\<close>: it marks a free run of its range or finds none.\<close>

lemma inner_alloc_cases:
  assumes "n \<noteq> 0"
  obtains (found) b where "free_run s (page_bitmap_index s) limit n (unat b)"
      "inner_alloc n limit s =
         (b * 0x1000, (marked b n s)\<lparr>total_allocated := total_allocated s\<rparr>)"
  | (none) i where "\<And>b. \<not> free_run s (page_bitmap_index s) limit n b"
      "inner_alloc n limit s = (0, s\<lparr>page_bitmap_index := i\<rparr>)"
proof -
  let ?r = "inner_alloc_loop (page_bitmap s) n limit (pmem s) (page_bitmap_index s) 0"
  have "loop_found (page_bitmap s) n limit (pmem s) (unat (page_bitmap_index s)) ?r \<or>
        loop_none (page_bitmap s) n limit (pmem s) (unat (page_bitmap_index s)) ?r"
    using inner_alloc_loop_spec [of 0 "page_bitmap_index s" n] assms by (simp add: word_gt_0)
  then show thesis
  proof
    assume "loop_found (page_bitmap s) n limit (pmem s) (unat (page_bitmap_index s)) ?r"
    then show thesis
      by (auto simp: loop_found_def inner_alloc_def marked_def run_at_free_run intro!: found)
  next
    assume "loop_none (page_bitmap s) n limit (pmem s) (unat (page_bitmap_index s)) ?r"
    with assms show thesis
      by (auto simp: loop_none_def inner_alloc_def run_at_free_run intro!: none)
  qed
qed

lemma inner_alloc_0: "\<exists>i. inner_alloc 0 limit s = (0, s\<lparr>page_bitmap_index := i\<rparr>)"
  using inner_alloc_loop_spec [of 0 "page_bitmap_index s" 0 "page_bitmap s" "pmem s" limit]
  by (auto simp: loop_found_def loop_none_def inner_alloc_def)

lemma free_run_nonzero:
  assumes "pmm_wf s" and "n \<noteq> 0" and "hi \<le> m_size (page_bitmap s)"
    and "free_run s lo hi n (unat b)"
  shows "b * 0x1000 \<noteq> 0" and "b \<noteq> 0" and "unat (b * 0x1000) = unat b * 4096"
    and "unat (b + n) = unat b + unat n"
proof -
  show nz: "b \<noteq> 0"
    using assms by (auto simp: free_run_def pmm_wf_def unat_gt_0)
  have bound: "unat b + unat n \<le> 2 ^ 52"
    using assms by (simp add: free_run_def pmm_wf_def word_le_nat_alt)
  moreover have "0 < unat n" using assms(2) by (simp add: unat_gt_0)
  ultimately show u: "unat (b * 0x1000) = unat b * 4096"
    using unat_mult_nowrap [of b "0x1000"] by simp
  show "b * 0x1000 \<noteq> 0"
  proof
    assume "b * 0x1000 = 0"
    with u have "unat b * 4096 = 0" by simp
    with nz show False by (simp add: unat_eq_0)
  qed
  show "unat (b + n) = unat b + unat n"
    using bound by (intro unat_add_nowrap) simp
qed

lemma free_run_side:
  assumes "pmm_wf s" and "free_run s (page_bitmap_index s) (m_size (page_bitmap s)) n b \<or>
       free_run s 0 (page_bitmap_index s) n b"
  shows "free_run s 0 (m_size (page_bitmap s)) n b"
  using assms by (auto simp: free_run_def pmm_wf_def word_le_nat_alt)

text \<open>What a call of \<^verbatim>\<open>alloc_pages\<close> comes to, with both passes.\<close>

lemma alloc_pages_cases:
  assumes wf: "pmm_wf s"
  obtains (found) b where "n \<noteq> 0"
      "free_run s (page_bitmap_index s) (m_size (page_bitmap s)) n (unat b) \<or>
       free_run s 0 (page_bitmap_index s) n (unat b)"
      "alloc_pages n s = Returns (b * 0x1000, marked b n s)"
  | (none) "n = 0 \<or> (\<forall>b. \<not> free_run s (page_bitmap_index s) (m_size (page_bitmap s)) n b \<and>
                      \<not> free_run s 0 (page_bitmap_index s) n b)"
      "alloc_pages n s = Panics ''Out of physical memory''"
proof (cases "n = 0")
  case True
  obtain i where 1: "inner_alloc 0 (m_size (page_bitmap s)) s = (0, s\<lparr>page_bitmap_index := i\<rparr>)"
    using inner_alloc_0 by blast
  obtain k where 2: "inner_alloc 0 (page_bitmap_index s) (s\<lparr>page_bitmap_index := 0\<rparr>) =
      (0, s\<lparr>page_bitmap_index := k\<rparr>)"
    using inner_alloc_0 [of "page_bitmap_index s" "s\<lparr>page_bitmap_index := 0\<rparr>"] by auto
  show thesis
    using True 1 2 by (intro none) (simp_all add: alloc_pages_def)
next
  case False
  let ?s0 = "s\<lparr>page_bitmap_index := 0\<rparr>"
  have wf0: "pmm_wf ?s0" "page_bitmap ?s0 = page_bitmap s" "marked b n ?s0 = marked b n s" for b
    using wf by (simp_all add: pmm_wf_def page_used_def marked_def)
  have run0: "free_run ?s0 lo hi n b = free_run s lo hi n b" for lo hi b
    by (simp add: free_run_def page_used_def)
  from False show thesis
  proof (cases rule: inner_alloc_cases [of n s "m_size (page_bitmap s)"])
    case (found b)
    with False wf show thesis
      using free_run_nonzero(1) [OF wf False order_refl found(1)]
      by (intro that(1) [of b]) (simp_all add: alloc_pages_def marked_def)
  next
    case first: (none i)
    from False show thesis
    proof (cases rule: inner_alloc_cases [of n ?s0 "page_bitmap_index s"])
      case (found b)
      have le: "page_bitmap_index s \<le> m_size (page_bitmap s)"
        using wf by (simp add: pmm_wf_def)
      from found have run: "free_run s 0 (page_bitmap_index s) n (unat b)"
        by (simp add: run0)
      with first found False show thesis
        using free_run_nonzero(1) [OF wf False le run]
        by (intro that(1) [of b]) (simp_all add: alloc_pages_def marked_def)
    next
      case (none k)
      with first show thesis
        by (intro that(2)) (simp_all add: alloc_pages_def run0)
    qed
  qed
qed

lemma alloc_pages_Returns:
  assumes "pmm_wf s" and "alloc_pages n s = Returns (phy, s')"
  shows "\<exists>b. b \<noteq> 0 \<and> unat phy = unat b * 4096 \<and> unat b + unat n \<le> unat (m_size (page_bitmap s)) \<and>
    (\<forall>j. b \<le> j \<and> j < b + n \<longrightarrow> \<not> page_used s j) \<and>
    (\<forall>j. page_used s' j \<longleftrightarrow> page_used s j \<or> b \<le> j \<and> j < b + n) \<and>
    page_bitmap s' = page_bitmap s \<and> total_allocated s' = total_allocated s + n * 0x1000 \<and>
    pmm_wf s'"
  using assms(1)
proof (cases rule: alloc_pages_cases [of s n])
  case (found b)
  have run: "free_run s 0 (m_size (page_bitmap s)) n (unat b)"
    using assms(1) found(2) by (rule free_run_side)
  note nz = free_run_nonzero [OF assms(1) found(1) order_refl run]
  have "j < b + n \<longleftrightarrow> unat j < unat b + unat n" for j
    using nz(4) by (simp add: word_less_nat_alt)
  then have "\<not> page_used s j" if "b \<le> j" "j < b + n" for j
    using that run by (auto simp: free_run_def word_le_nat_alt)
  moreover have "pmm_wf (marked b n s)"
    using assms(1) run nz(4)
    by (auto simp: pmm_wf_def page_used_marked free_run_def word_le_nat_alt)
  ultimately show ?thesis
    using found run assms(2) nz
    by (intro exI [of _ b]) (auto simp: free_run_def page_used_marked)
qed (use assms(2) in simp)

text \<open>
  C3. \<^verbatim>\<open>alloc_pages\<close> is sound: the address it returns is a non-zero multiple of 4 KiB
  inside the managed range, every one of the pages was free, exactly those pages
  become used, and the counter of allocated bytes grows by their size.
\<close>

theorem alloc_pages_sound:
  assumes "pmm_wf s" and "alloc_pages n s = Returns (phy, s')"
  shows "\<exists>b. b \<noteq> 0 \<and> unat phy = unat b * 4096 \<and> unat b + unat n \<le> unat (m_size (page_bitmap s)) \<and>
    (\<forall>j. b \<le> j \<and> j < b + n \<longrightarrow> \<not> page_used s j) \<and>
    (\<forall>j. page_used s' j \<longleftrightarrow> page_used s j \<or> b \<le> j \<and> j < b + n) \<and>
    page_bitmap s' = page_bitmap s \<and> total_allocated s' = total_allocated s + n * 0x1000 \<and>
    pmm_wf s'"
  using assms by (rule alloc_pages_Returns)

text \<open>A bitmap of 16 pages of which only page 0 is in use.\<close>

definition demo_pmm :: pmm where
  "demo_pmm = \<lparr>pmem = (\<lambda>_. 0)(0 := 1), page_bitmap = \<lparr>m_buffer = 0, m_size = 16\<rparr>,
     page_bitmap_index = 0, last_usable_mem = 0x10000, total_usable_size = 0xF000,
     total_allocated = 0\<rparr>"

lemma demo_pmm_wf: "pmm_wf demo_pmm"
  by (simp add: pmm_wf_def demo_pmm_def page_used_def bitmap_get_def)

lemma demo_pmm_alloc: "alloc_pages 2 demo_pmm = Returns (0x1000, marked 1 2 demo_pmm)"
  by (simp add: alloc_pages_def inner_alloc_def demo_pmm_def inner_alloc_loop.simps bitmap_get_def
      marked_def)

theorem alloc_pages_sound_witness:
  "alloc_pages 2 demo_pmm = Returns (0x1000, marked 1 2 demo_pmm) \<and>
   pmm_wf (marked 1 2 demo_pmm) \<and> total_allocated (marked 1 2 demo_pmm) = 0x2000"
  using alloc_pages_sound [OF demo_pmm_wf demo_pmm_alloc] demo_pmm_alloc
  by (auto simp: demo_pmm_def)

text \<open>
  C4. \<^verbatim>\<open>alloc_pages\<close> panics exactly when it is asked for no page at all or when there
  is no free run of the requested length on either side of the search index. A
  run that lies across the index is not found: the second pass stops at the index.
\<close>

theorem alloc_pages_panics_iff:
  assumes "pmm_wf s"
  shows "(\<exists>msg. alloc_pages n s = Panics msg) \<longleftrightarrow>
    n = 0 \<or> (\<forall>b. \<not> free_run s (page_bitmap_index s) (m_size (page_bitmap s)) n b \<and>
              \<not> free_run s 0 (page_bitmap_index s) n b)"
  using assms by (cases rule: alloc_pages_cases [of s n]) auto

theorem alloc_pages_panics_iff_witness:
  "pmm_wf demo_pmm \<and> (\<exists>msg. alloc_pages 0 demo_pmm = Panics msg)"
  using alloc_pages_panics_iff [OF demo_pmm_wf, of 0] demo_pmm_wf by simp

lemma alloc_run_returns:
  assumes "pmm_wf s" and "n \<noteq> 0" and "free_run s (page_bitmap_index s) (m_size (page_bitmap s)) n b"
  shows "\<exists>phy s'. alloc_pages n s = Returns (phy, s')"
  using assms by (cases rule: alloc_pages_cases [of s n]) auto

lemma alloc_one_returns:
  assumes "pmm_wf s" and "j < m_size (page_bitmap s)" and "\<not> page_used s j"
  shows "\<exists>phy s'. alloc_pages 1 s = Returns (phy, s')"
  using assms(1)
proof (cases rule: alloc_pages_cases [of s 1])
  case none
  have "free_run s lo hi 1 (unat j)" if "lo \<le> j" "j < hi" for lo hi
    unfolding free_run_def
  proof (intro conjI allI impI)
    fix i :: usize assume "unat j \<le> unat i \<and> unat i < unat j + unat (1 :: usize)"
    then have "i = j" by (simp add: word_unat_eq_iff)
    with assms(3) show "\<not> page_used s i" by simp
  qed (use that in \<open>simp_all add: word_le_nat_alt word_less_nat_alt\<close>)
  then have "free_run s (page_bitmap_index s) (m_size (page_bitmap s)) 1 (unat j) \<or>
      free_run s 0 (page_bitmap_index s) 1 (unat j)"
    using assms(2) by (cases "page_bitmap_index s \<le> j") auto
  with none show ?thesis by auto
qed blast

text \<open>
  A single page is found whenever there is one: \<^verbatim>\<open>alloc_pages(1)\<close> returns as long
  as some page of the managed range is free.
\<close>

theorem alloc_one_page_complete:
  assumes "pmm_wf s" and "j < m_size (page_bitmap s)" and "\<not> page_used s j"
  shows "\<exists>phy s'. alloc_pages 1 s = Returns (phy, s')"
  using assms by (rule alloc_one_returns)

theorem alloc_one_page_complete_witness:
  "\<not> page_used demo_pmm 7 \<and> (\<exists>phy s'. alloc_pages 1 demo_pmm = Returns (phy, s'))"
proof -
  have "7 < m_size (page_bitmap demo_pmm)" and free: "\<not> page_used demo_pmm 7"
    by (simp_all add: demo_pmm_def page_used_def bitmap_get_def)
  then show ?thesis using alloc_one_page_complete [OF demo_pmm_wf] by blast
qed

section \<open>Freeing\<close>

lemma less_add_self_iff: "i < n + i \<longleftrightarrow> n \<noteq> 0 \<and> unat i + unat n < 2 ^ 64"
  for i n :: usize
proof (cases "unat i + unat n < 2 ^ 64")
  case True
  then have "unat (n + i) = unat n + unat i" by (intro unat_add_nowrap) simp
  with True show ?thesis by (auto simp: word_less_nat_alt unat_gt_0)
next
  case False
  then have "unat (n + i) = unat n + unat i - 2 ^ 64"
    using unat_bound [of i] unat_bound [of n] by (simp add: unat_word_ariths mod_if)
  with False show ?thesis
    using unat_bound [of n] by (simp add: word_less_nat_alt)
qed

lemma free_pages_loop_get:
  "bitmap_get (free_pages_loop bm n m i) bm j =
     (bitmap_get m bm j \<and> \<not> (i \<le> j \<and> n \<noteq> 0 \<and> unat j + unat n < 2 ^ 64))"
proof (induction bm n m i rule: free_pages_loop.induct)
  case (1 bm n m i)
  show ?case
  proof (cases "i < n + i")
    case True
    have "i \<le> j \<longleftrightarrow> i = j \<or> i + 1 \<le> j"
      using unat_inc [OF True] by (auto simp: word_le_nat_alt word_unat_eq_iff)
    then show ?thesis
      using "1.IH" [OF True] True
      by (auto simp: free_pages_loop.simps [of bm n m i] bitmap_get_set less_add_self_iff)
  next
    case False
    then have "\<not> (i \<le> j \<and> n \<noteq> 0 \<and> unat j + unat n < 2 ^ 64)"
      by (auto simp: less_add_self_iff word_le_nat_alt)
    with False show ?thesis by (simp add: free_pages_loop.simps)
  qed
qed

text \<open>
  \<^verbatim>\<open>free_pages(phy, n)\<close> with \<open>n > 0\<close> does not release \<open>n\<close> pages: it clears the bit of
  every page from \<^verbatim>\<open>phy / 0x1000\<close> up to the last index before \<^verbatim>\<open>num_pages + i\<close> wraps,
  so all later pages of the system become free, whoever uses them.
\<close>

theorem free_pages_clears_all_above:
  "page_used (free_pages phy n s) j \<longleftrightarrow>
     page_used s j \<and> \<not> (phy div 0x1000 \<le> j \<and> n \<noteq> 0 \<and> unat j + unat n < 2 ^ 64)"
  by (simp add: page_used_def free_pages_def Let_def free_pages_loop_get)

section \<open>Initialisation\<close>

text \<open>
  The two marking loops of \<^verbatim>\<open>init\<close> keep the contract of a bit array, seen through
  the whole state: they also count the usable bytes.
\<close>

interpretation usable: bit_store page_used
  "\<lambda>s i v. s\<lparr>pmem := bitmap_set (pmem s) (page_bitmap s) i v,
             total_usable_size := total_usable_size s + (if v then - 0x1000 else 0x1000)\<rparr>"
  by unfold_locales (simp add: page_used_def bitmap_get_set)

lemma for_range_page_bitmap:
  assumes "\<And>i s. page_bitmap (f i s) = page_bitmap s"
  shows "page_bitmap (for_range f a n s) = page_bitmap s"
proof (cases "a \<le> n")
  case True
  show ?thesis
    by (rule for_range_inv [OF True, where P = "\<lambda>_ t. page_bitmap t = page_bitmap s"])
       (simp_all add: assms)
qed (simp add: not_le)

lemma free_entry_page_bitmap [simp]: "page_bitmap (free_entry e s) = page_bitmap s"
  by (simp add: free_entry_def for_range_page_bitmap)

lemma free_entry_used:
  "page_used (free_entry e s) j \<longleftrightarrow> page_used s j \<and>
     \<not> (me_type e = LIMINE_MEMMAP_USABLE \<and> entry_page_start e \<le> j \<and> j < entry_page_end e)"
  using usable.get_set_range [where v = False] by (auto simp: free_entry_def)

lemma fold_free_entry_used:
  "page_used (fold free_entry es s) j \<longleftrightarrow> page_used s j \<and>
     \<not> (\<exists>e\<in>set es. me_type e = LIMINE_MEMMAP_USABLE \<and> entry_page_start e \<le> j \<and> j < entry_page_end e)"
  by (induction es arbitrary: s) (auto simp: free_entry_used)

lemma fold_free_entry_page_bitmap [simp]: "page_bitmap (fold free_entry es s) = page_bitmap s"
  by (induction es arbitrary: s) auto

lemma reserve_bitmap_used:
  "page_used (reserve_bitmap hhdm s) j \<longleftrightarrow> page_used s j \<or>
     bitmap_self_index hhdm (page_bitmap s) \<le> j \<and> j < bitmap_self_end hhdm (page_bitmap s)"
  using usable.get_set_range [where v = True] by (auto simp: reserve_bitmap_def)

lemma reserve_bitmap_page_bitmap [simp]: "page_bitmap (reserve_bitmap hhdm s) = page_bitmap s"
  by (simp add: reserve_bitmap_def for_range_page_bitmap)

text \<open>What Limine promises of a usable entry: page alignment and no wrap-around.\<close>

definition memmap_entry_ok :: "limine_memmap_entry \<Rightarrow> bool" where
  "memmap_entry_ok e \<longleftrightarrow> me_type e = LIMINE_MEMMAP_USABLE \<longrightarrow>
     unat (me_base e) mod 4096 = 0 \<and> unat (me_length e) mod 4096 = 0 \<and>
     unat (me_base e) + unat (me_length e) < 2 ^ 64"

lemma entry_pages:
  assumes "memmap_entry_ok e" and "me_type e = LIMINE_MEMMAP_USABLE"
  shows "entry_page_start e \<le> j \<and> j < entry_page_end e \<longleftrightarrow>
    unat (me_base e) \<le> unat j * 4096 \<and> unat j * 4096 < unat (me_base e) + unat (me_length e)"
proof -
  let ?b = "unat (me_base e)" and ?l = "unat (me_length e)"
  have ok: "?b mod 4096 = 0" "?l mod 4096 = 0" "?b + ?l < 2 ^ 64"
    using assms by (auto simp: memmap_entry_ok_def)
  have aligned: "me_base e mod 0x1000 = 0" "me_length e mod 0x1000 = 0"
    using ok by (simp_all add: word_unat_eq_iff unat_mod)
  then have "entry_page_start e = me_base e div 0x1000"
    "entry_page_end e = me_base e div 0x1000 + me_length e div 0x1000"
    by (simp_all add: entry_page_start_def entry_page_end_def)
  moreover have "unat (me_base e div 0x1000 + me_length e div 0x1000) = ?b div 4096 + ?l div 4096"
    using ok(3) by (subst unat_add_nowrap) (simp_all add: unat_div)
  ultimately show ?thesis
    using ok(1,2) by (auto simp: word_le_nat_alt word_less_nat_alt unat_div elim!: dvdE)
qed


text \<open>The static variables before \<^verbatim>\<open>init\<close>, and a map with one usable entry.\<close>

definition boot_pmm :: pmm where
  "boot_pmm = \<lparr>pmem = \<lambda>_. 0, page_bitmap = \<lparr>m_buffer = 0, m_size = 0\<rparr>, page_bitmap_index = 0,
     last_usable_mem = 0, total_usable_size = 0, total_allocated = 0\<rparr>"

definition demo_memmap :: "limine_memmap_entry list" where
  "demo_memmap = [\<lparr>me_base = 0x1000, me_length = 0x7000, me_type = LIMINE_MEMMAP_USABLE\<rparr>]"


end
