(* ===== verification/List_Head.thy ===== *)
theory List_Head
  imports Fish_Prelude
begin

text \<open>
  The intrusive doubly linked list \<^verbatim>\<open>klib::ListHead\<close> of \<^verbatim>\<open>src/klib/list.hpp\<close>, on an
  explicit store of nodes because every operation writes through the pointers of
  its neighbours. \<open>ring h l xs\<close> says that the nodes \<open>xs\<close> hang off the head \<open>l\<close> in
  this order. The locale \<open>intrusive_ring\<close> is the contract the scheduler's run
  queue and the address space's range list rely on.
\<close>

section \<open>Definitions\<close>

record ListHead =
  lh_next :: uptr
  lh_prev :: uptr

type_synonym list_store = "uptr \<Rightarrow> ListHead"

definition set_next :: "list_store \<Rightarrow> uptr \<Rightarrow> uptr \<Rightarrow> list_store" where
  "set_next h a v = h(a := (h a)\<lparr>lh_next := v\<rparr>)"

definition set_prev :: "list_store \<Rightarrow> uptr \<Rightarrow> uptr \<Rightarrow> list_store" where
  "set_prev h a v = h(a := (h a)\<lparr>lh_prev := v\<rparr>)"

definition list_init :: "list_store \<Rightarrow> uptr \<Rightarrow> list_store" where
  "list_init h this = set_prev (set_next h this this) this this"

definition list_add :: "list_store \<Rightarrow> uptr \<Rightarrow> uptr \<Rightarrow> list_store" where
  "list_add h this entry =
     (let h1 = set_prev h (lh_next (h this)) entry;
          h2 = set_next h1 entry (lh_next (h1 this));
          h3 = set_prev h2 entry this
      in set_next h3 this entry)"

definition list_add_before :: "list_store \<Rightarrow> uptr \<Rightarrow> uptr \<Rightarrow> list_store" where
  "list_add_before h this entry =
     (let h1 = set_next h (lh_prev (h this)) entry;
          h2 = set_prev h1 entry (lh_prev (h1 this));
          h3 = set_next h2 entry this
      in set_prev h3 this entry)"

definition list_remove :: "list_store \<Rightarrow> uptr \<Rightarrow> list_store" where
  "list_remove h this =
     (let h1 = set_prev h (lh_next (h this)) (lh_prev (h this));
          h2 = set_next h1 (lh_prev (h1 this)) (lh_next (h1 this));
          h3 = set_next h2 this 0
      in set_prev h3 this 0)"

definition list_empty :: "list_store \<Rightarrow> uptr \<Rightarrow> bool" where
  "list_empty h this = (lh_next (h this) = this)"

text \<open>The links from \<open>a\<close> through \<open>xs\<close> to \<open>b\<close>, in both directions.\<close>

fun dlseg :: "list_store \<Rightarrow> uptr \<Rightarrow> uptr list \<Rightarrow> uptr \<Rightarrow> bool" where
  "dlseg h a [] b \<longleftrightarrow> lh_next (h a) = b \<and> lh_prev (h b) = a"
| "dlseg h a (x # xs) b \<longleftrightarrow> lh_next (h a) = x \<and> lh_prev (h x) = a \<and> dlseg h x xs b"

definition ring :: "list_store \<Rightarrow> uptr \<Rightarrow> uptr list \<Rightarrow> bool" where
  "ring h l xs \<longleftrightarrow> dlseg h l xs l \<and> distinct (l # xs) \<and> 0 \<notin> set (l # xs)"

section \<open>The contract\<close>

locale intrusive_ring =
  fixes rep :: "'h \<Rightarrow> 'a \<Rightarrow> 'a list \<Rightarrow> bool"
    and push_front :: "'h \<Rightarrow> 'a \<Rightarrow> 'a \<Rightarrow> 'h"
    and push_back :: "'h \<Rightarrow> 'a \<Rightarrow> 'a \<Rightarrow> 'h"
    and unlink :: "'h \<Rightarrow> 'a \<Rightarrow> 'h"
    and null :: 'a
  assumes rep_front: "rep h l xs \<Longrightarrow> e \<notin> set (l # xs) \<Longrightarrow> e \<noteq> null \<Longrightarrow> rep (push_front h l e) l (e # xs)"
    and rep_back: "rep h l xs \<Longrightarrow> e \<notin> set (l # xs) \<Longrightarrow> e \<noteq> null \<Longrightarrow> rep (push_back h l e) l (xs @ [e])"
    and rep_unlink: "rep h l xs \<Longrightarrow> x \<in> set xs \<Longrightarrow> rep (unlink h x) l (remove1 x xs)"
begin

lemma push_back_all:
  "rep h l xs \<Longrightarrow> distinct es \<Longrightarrow> set es \<inter> set (l # xs) = {} \<Longrightarrow> null \<notin> set es \<Longrightarrow>
   rep (fold (\<lambda>e h. push_back h l e) es h) l (xs @ es)"
proof (induction es arbitrary: h xs)
  case (Cons e es)
  then have "rep (push_back h l e) l (xs @ [e])" by (intro rep_back) auto
  with Cons.prems have "rep (fold (\<lambda>e h. push_back h l e) es (push_back h l e)) l ((xs @ [e]) @ es)"
    by (intro Cons.IH) auto
  then show ?case by simp
qed simp

lemma unlink_after_back:
  "rep h l xs \<Longrightarrow> e \<notin> set (l # xs) \<Longrightarrow> e \<noteq> null \<Longrightarrow> rep (unlink (push_back h l e) e) l xs"
  using rep_unlink [OF rep_back, of h l xs e e] by (simp add: remove1_append)

end

section \<open>The operations keep the contract\<close>

lemma dlseg_append: "dlseg h a (xs @ y # ys) b \<longleftrightarrow> dlseg h a xs y \<and> dlseg h y ys b"
  by (induction xs arbitrary: a) auto

lemma dlseg_cong:
  "(\<And>y. y \<in> set (a # xs) \<Longrightarrow> lh_next (h' y) = lh_next (h y)) \<Longrightarrow>
   (\<And>y. y \<in> set (xs @ [b]) \<Longrightarrow> lh_prev (h' y) = lh_prev (h y)) \<Longrightarrow>
   dlseg h' a xs b = dlseg h a xs b"
  by (induction xs arbitrary: a) auto

lemma set_next_prev_apply [simp]:
  "lh_next (set_next h a v y) = (if y = a then v else lh_next (h y))"
  "lh_prev (set_next h a v y) = lh_prev (h y)"
  "lh_prev (set_prev h a v y) = (if y = a then v else lh_prev (h y))"
  "lh_next (set_prev h a v y) = lh_next (h y)"
  by (simp_all add: set_next_def set_prev_def)

lemma ring_init: "this \<noteq> 0 \<Longrightarrow> ring (list_init h this) this []"
  by (simp add: ring_def list_init_def)

lemma ring_add:
  assumes "ring h l xs" and "e \<notin> set (l # xs)" and "e \<noteq> 0"
  shows "ring (list_add h l e) l (e # xs)"
proof (cases xs)
  case Nil
  with assms show ?thesis by (auto simp: ring_def list_add_def Let_def)
next
  case (Cons x ys)
  have "dlseg (list_add h l e) x ys l = dlseg h x ys l"
    using assms Cons by (intro dlseg_cong) (auto simp: ring_def list_add_def Let_def)
  with assms Cons show ?thesis by (auto simp: ring_def list_add_def Let_def)
qed

lemma ring_add_before:
  assumes "ring h l xs" and "e \<notin> set (l # xs)" and "e \<noteq> 0"
  shows "ring (list_add_before h l e) l (xs @ [e])"
proof (cases xs rule: rev_cases)
  case Nil
  with assms show ?thesis by (auto simp: ring_def list_add_before_def Let_def)
next
  case (snoc ys y)
  have "dlseg (list_add_before h l e) l ys y = dlseg h l ys y"
    using assms snoc by (intro dlseg_cong) (auto simp: ring_def list_add_before_def Let_def dlseg_append)
  with assms snoc show ?thesis
    by (auto simp: ring_def list_add_before_def Let_def dlseg_append)
qed

lemma ring_remove:
  assumes "ring h l xs" and "x \<in> set xs"
  shows "ring (list_remove h x) l (remove1 x xs)"
proof -
  obtain ys zs where xs: "xs = ys @ x # zs" and "x \<notin> set ys"
    using assms(2) by (metis split_list_first)
  have rem: "remove1 x xs = ys @ zs" using xs \<open>x \<notin> set ys\<close> by (simp add: remove1_append)
  have seg: "dlseg h l ys x" "dlseg h x zs l" and ne: "distinct (l # ys @ x # zs)"
    "0 \<notin> set (l # ys @ x # zs)"
    using assms(1) xs by (auto simp: ring_def dlseg_append)
  let ?h = "list_remove h x"
  have "dlseg ?h l (ys @ zs) l"
  proof (cases zs)
    case zs: Nil
    show ?thesis
    proof (cases ys rule: rev_cases)
      case Nil
      with zs seg ne show ?thesis by (auto simp: list_remove_def Let_def)
    next
      case (snoc us u)
      have "dlseg ?h l us u = dlseg h l us u"
        using seg ne snoc zs by (intro dlseg_cong) (auto simp: list_remove_def Let_def dlseg_append)
      with snoc zs seg ne show ?thesis by (auto simp: list_remove_def Let_def dlseg_append)
    qed
  next
    case zs: (Cons z vs)
    have tail_seg: "dlseg ?h z vs l = dlseg h z vs l"
      using seg ne zs by (intro dlseg_cong) (cases ys rule: rev_cases; auto simp: list_remove_def Let_def dlseg_append)+
    show ?thesis
    proof (cases ys rule: rev_cases)
      case Nil
      with zs seg ne tail_seg show ?thesis by (auto simp: list_remove_def Let_def)
    next
      case (snoc us u)
      have "dlseg ?h l us u = dlseg h l us u"
        using seg ne snoc zs by (intro dlseg_cong) (auto simp: list_remove_def Let_def dlseg_append)
      with snoc zs seg ne tail_seg show ?thesis by (auto simp: list_remove_def Let_def dlseg_append)
    qed
  qed
  then show ?thesis using ne by (auto simp: ring_def rem)
qed

interpretation klist: intrusive_ring ring list_add list_add_before list_remove 0
  by unfold_locales (fact ring_add ring_add_before ring_remove)+

lemma ring_empty: "ring h l xs \<Longrightarrow> list_empty h l \<longleftrightarrow> xs = []"
  by (cases xs) (auto simp: ring_def list_empty_def)

lemma removed_next [simp]: "lh_next (list_remove h x x) = 0"
  by (simp add: list_remove_def Let_def)

text \<open>Where \<^verbatim>\<open>next\<close> leads from the head and from the \<open>i\<close>-th node.\<close>

lemma ring_next_head: "ring h l xs \<Longrightarrow> lh_next (h l) = (case xs of [] \<Rightarrow> l | x # _ \<Rightarrow> x)"
  by (cases xs) (auto simp: ring_def)

lemma ring_next_nth:
  assumes "ring h l xs" and "i < length xs"
  shows "lh_next (h (xs ! i)) = (if Suc i < length xs then xs ! Suc i else l)"
proof -
  have "dlseg h l (take i xs @ xs ! i # drop (Suc i) xs) l"
    using assms by (simp add: ring_def id_take_nth_drop [symmetric])
  then have "dlseg h (xs ! i) (drop (Suc i) xs) l" by (simp only: dlseg_append)
  then show ?thesis
    by (cases "Suc i < length xs") (auto simp: Cons_nth_drop_Suc [symmetric])
qed

text \<open>A node store write outside the ring leaves the ring alone.\<close>

lemma ring_cong:
  "(\<And>y. y \<in> set (l # xs) \<Longrightarrow> h' y = h y) \<Longrightarrow> ring h' l xs = ring h l xs"
  using dlseg_cong [of l xs h' h l] by (auto simp: ring_def)

text \<open>
  C11. The list operations do what their comments say on any well-formed list:
  \<^verbatim>\<open>add\<close> on the head puts a new entry first, \<^verbatim>\<open>add_before\<close> puts it last, \<^verbatim>\<open>remove\<close> takes
  exactly the entry out and leaves its links null, and \<^verbatim>\<open>empty\<close> tells whether the
  list has entries. The result is well-formed in each case.
\<close>

theorem list_operations_refine:
  assumes "ring h l xs" and "e \<notin> set (l # xs)" and "e \<noteq> 0" and "x \<in> set xs"
  shows "ring (list_add h l e) l (e # xs) \<and> ring (list_add_before h l e) l (xs @ [e]) \<and>
     ring (list_remove h x) l (remove1 x xs) \<and> lh_next (list_remove h x x) = 0 \<and> lh_prev (list_remove h x x) = 0 \<and>
     (list_empty h l \<longleftrightarrow> xs = [])"
  using assms klist.rep_front klist.rep_back klist.rep_unlink
  by (simp add: ring_empty) (simp add: list_remove_def Let_def)

theorem list_operations_refine_witness:
  "ring (list_remove (list_add (list_init (\<lambda>_. \<lparr>lh_next = 0, lh_prev = 0\<rparr>) 8) 8 16) 16) 8 []"
proof -
  let ?h = "list_init (\<lambda>_. \<lparr>lh_next = 0, lh_prev = 0\<rparr>) 8"
  have "ring (list_add ?h 8 16) 8 [16]" using ring_add [OF ring_init, of 8 16] by simp
  then show ?thesis
    using list_operations_refine [of "list_add ?h 8 16" 8 "[16]" 24 16] by simp
qed

end
