(* ===== verification/Posix.thy ===== *)
theory Posix
  imports Fish_Prelude
begin

text \<open>
  The constants of \<^verbatim>\<open>src/klib/posix.hpp\<close> (the user-space copy is identical): the error
  codes as a table in the order of the file, and the flags the system calls test. A
  system call reports the error with code \<open>c\<close> as the signed 64-bit value \<open>- c\<close>.
\<close>

definition errno_table :: "(string \<times> nat) list" where
  "errno_table =
    [(''EDOM'', 1), (''EILSEQ'', 2), (''ERANGE'', 3), (''E2BIG'', 1001),
     (''EACCES'', 1002), (''EADDRINUSE'', 1003), (''EADDRNOTAVAIL'', 1004), (''EAFNOSUPPORT'', 1005),
     (''EAGAIN'', 1006), (''EALREADY'', 1007), (''EBADF'', 1008), (''EBADMSG'', 1009),
     (''EBUSY'', 1010), (''ECANCELED'', 1011), (''ECHILD'', 1012), (''ECONNABORTED'', 1013),
     (''ECONNREFUSED'', 1014), (''ECONNRESET'', 1015), (''EDEADLK'', 1016), (''EDESTADDRREQ'', 1017),
     (''EDQUOT'', 1018), (''EEXIST'', 1019), (''EFAULT'', 1020), (''EFBIG'', 1021),
     (''EHOSTUNREACH'', 1022), (''EIDRM'', 1023), (''EINPROGRESS'', 1024), (''EINTR'', 1025),
     (''EINVAL'', 1026), (''EIO'', 1027), (''EISCONN'', 1028), (''EISDIR'', 1029),
     (''ELOOP'', 1030), (''EMFILE'', 1031), (''EMLINK'', 1032), (''EMSGSIZE'', 1034),
     (''EMULTIHOP'', 1035), (''ENAMETOOLONG'', 1036), (''ENETDOWN'', 1037), (''ENETRESET'', 1038),
     (''ENETUNREACH'', 1039), (''ENFILE'', 1040), (''ENOBUFS'', 1041), (''ENODEV'', 1042),
     (''ENOENT'', 1043), (''ENOEXEC'', 1044), (''ENOLCK'', 1045), (''ENOLINK'', 1046),
     (''ENOMEM'', 1047), (''ENOMSG'', 1048), (''ENOPROTOOPT'', 1049), (''ENOSPC'', 1050),
     (''ENOSYS'', 1051), (''ENOTCONN'', 1052), (''ENOTDIR'', 1053), (''ENOTEMPTY'', 1054),
     (''ENOTRECOVERABLE'', 1055), (''ENOTSOCK'', 1056), (''ENOTSUP'', 1057), (''ENOTTY'', 1058),
     (''ENXIO'', 1059), (''EOPNOTSUPP'', 1060), (''EOVERFLOW'', 1061), (''EOWNERDEAD'', 1062),
     (''EPERM'', 1063), (''EPIPE'', 1064), (''EPROTO'', 1065), (''EPROTONOSUPPORT'', 1066),
     (''EPROTOTYPE'', 1067), (''EROFS'', 1068), (''ESPIPE'', 1069), (''ESRCH'', 1070),
     (''ESTALE'', 1071), (''ETIMEDOUT'', 1072), (''ETXTBSY'', 1073), (''EWOULDBLOCK'', 1006),
     (''EXDEV'', 1075), (''ENODATA'', 1076), (''ETIME'', 1077), (''ENOKEY'', 1078),
     (''ESHUTDOWN'', 1079), (''EHOSTDOWN'', 1080), (''EBADFD'', 1081), (''ENOMEDIUM'', 1082),
     (''ENOTBLK'', 1083), (''ENONET'', 1084), (''EPFNOSUPPORT'', 1085), (''ESOCKTNOSUPPORT'', 1086),
     (''ESTRPIPE'', 1087), (''EREMOTEIO'', 1088), (''ERFKILL'', 1089), (''EBADR'', 1090),
     (''EUNATCH'', 1091), (''EMEDIUMTYPE'', 1092), (''EREMOTE'', 1093), (''EKEYREJECTED'', 1094),
     (''EUCLEAN'', 1095), (''EBADSLT'', 1096), (''ENOANO'', 1097), (''ENOCSI'', 1098),
     (''ENOSTR'', 1099), (''ETOOMANYREFS'', 1100), (''ENOPKG'', 1101), (''EKEYREVOKED'', 1102),
     (''EXFULL'', 1103), (''ELNRNG'', 1104), (''ENOTUNIQ'', 1105), (''ERESTART'', 1106),
     (''EUSERS'', 1107), (''ECHRNG'', 1108), (''ELIBBAD'', 1109), (''EL2HLT'', 1110),
     (''EL3HLT'', 1111), (''EKEYEXPIRED'', 1112), (''ECOMM'', 1113), (''EBADE'', 1114),
     (''EHWPOISON'', 1115), (''EBADRQC'', 1116)]"

definition errno :: "string \<Rightarrow> isize" where
  "errno name = (case map_of errno_table name of Some c \<Rightarrow> of_nat c | None \<Rightarrow> 0)"

definition EBADF :: isize where "EBADF = 1008"
definition ENOENT :: isize where "ENOENT = 1043"
definition ENOSYS :: isize where "ENOSYS = 1051"
definition ENOTDIR :: isize where "ENOTDIR = 1053"
definition ERANGE :: isize where "ERANGE = 3"

definition AT_FDCWD :: u32 where "AT_FDCWD = - 100"

definition PROT_WRITE :: u32 where "PROT_WRITE = 0x02"
definition PROT_EXEC :: u32 where "PROT_EXEC = 0x04"

definition MAP_PRIVATE :: u32 where "MAP_PRIVATE = 0x01"
definition MAP_SHARED :: u32 where "MAP_SHARED = 0x02"
definition MAP_ANONYMOUS :: u32 where "MAP_ANONYMOUS = 0x08"

end
