(* ===== verification/Vmm.thy ===== *)
theory Vmm
  imports Pmm List_Head Posix
begin

text \<open>
  The virtual memory manager \<^verbatim>\<open>mem::vmm\<close> (\<^verbatim>\<open>src/mem/vmm.hpp\<close>, \<^verbatim>\<open>vmm.cpp\<close>). Page tables are
  64-bit cells at their direct-map addresses; \<open>walk\<close> is what the MMU finds for a virtual
  address, 0 when a level is missing. The main result is that the mapping operations
  are point updates of \<open>walk\<close>, although they share tables and allocate them on the way.
  The tables are disjoint from the allocator's bitmap, whose pages are never handed out.
\<close>

unbundle bit_operations_syntax

section \<open>Constants and data\<close>

definition PAGE_PRESENT :: u64 where "PAGE_PRESENT = 1"
definition PAGE_WRITABLE :: u64 where "PAGE_WRITABLE = 2"
definition PAGE_USER :: u64 where "PAGE_USER = 4"
definition PAGE_CACHE_DISABLE :: u64 where "PAGE_CACHE_DISABLE = 16"
definition PAGE_ATTRIBUTE_TABLE :: u64 where "PAGE_ATTRIBUTE_TABLE = 128"
definition PAGE_WRITE_COMBINING :: u64 where
  "PAGE_WRITE_COMBINING = PAGE_ATTRIBUTE_TABLE OR PAGE_CACHE_DISABLE"
definition PAGE_NO_EXECUTE :: u64 where "PAGE_NO_EXECUTE = push_bit 63 1"

definition ADDR_MASK :: u64 where "ADDR_MASK = 0x000FFFFFFFFFF000"

datatype MappedRange_Type = DIRECT | ANONYMOUS

text \<open>A range is identified by the address of its \<^verbatim>\<open>range_list\<close> member, the first one of the struct.\<close>

record MappedRange =
  mr_base :: uptr
  mr_length :: uptr
  mr_page_flags :: u64
  mr_type :: MappedRange_Type

record Pagemap =
  pml4 :: uptr
  range_list_head :: uptr

record vmm =
  v_pmm :: pmm
  v_cell :: "uptr \<Rightarrow> u64"
  v_hhdm :: uptr
  v_list :: list_store
  v_range :: "uptr \<Rightarrow> MappedRange"
  v_cr3 :: u64
  v_invlpg :: "uptr list"

fun obind :: "'a outcome \<Rightarrow> ('a \<Rightarrow> 'b outcome) \<Rightarrow> 'b outcome" where
  "obind (Returns x) f = f x"
| "obind (Panics msg) f = Panics msg"

lemma obind_Panics: "obind r f = Panics msg \<Longrightarrow> (r = Panics msg \<Longrightarrow> P) \<Longrightarrow> (\<And>x. r = Returns x \<Longrightarrow> f x = Panics msg \<Longrightarrow> P) \<Longrightarrow> P"
  by (cases r) auto

section \<open>Operations\<close>

text \<open>\<^verbatim>\<open>memset((void*)a, 0, 0x1000)\<close> on table memory.\<close>

definition zero_page :: "(uptr \<Rightarrow> u64) \<Rightarrow> uptr \<Rightarrow> uptr \<Rightarrow> u64" where
  "zero_page c a = (\<lambda>x. if x - a < 0x1000 then 0 else c x)"

definition cell_at :: "uptr \<Rightarrow> usize \<Rightarrow> uptr" where
  "cell_at table index = table + index * 8"

definition page_table_next_level :: "vmm \<Rightarrow> uptr \<Rightarrow> usize \<Rightarrow> (uptr \<times> vmm) outcome" where
  "page_table_next_level s current_table index =
     (let current_entry = v_cell s (cell_at current_table index)
      in if current_entry AND PAGE_PRESENT \<noteq> 0 then
           Returns ((current_entry AND ADDR_MASK) + v_hhdm s, s)
         else obind (alloc_pages 1 (v_pmm s)) (\<lambda>(new_page, p).
           let c = zero_page (v_cell s) (new_page + v_hhdm s);
               c' = c(cell_at current_table index := new_page OR PAGE_PRESENT OR PAGE_WRITABLE OR PAGE_USER)
           in Returns (new_page + v_hhdm s, s\<lparr>v_pmm := p, v_cell := c'\<rparr>)))"

definition table_index :: "nat \<Rightarrow> uptr \<Rightarrow> usize" where
  "table_index l virt = drop_bit (12 + 9 * (l - 1)) virt AND 0x1FF"

text \<open>The three calls that lead from the root to the last-level table.\<close>

definition last_table :: "vmm \<Rightarrow> uptr \<Rightarrow> uptr \<Rightarrow> (uptr \<times> vmm) outcome" where
  "last_table s root virt =
     obind (page_table_next_level s root (drop_bit 39 virt AND 0x1FF)) (\<lambda>(t3, s3).
     obind (page_table_next_level s3 t3 (drop_bit 30 virt AND 0x1FF)) (\<lambda>(t2, s2).
     page_table_next_level s2 t2 (drop_bit 21 virt AND 0x1FF)))"

definition map_page :: "Pagemap \<Rightarrow> uptr \<Rightarrow> uptr \<Rightarrow> u64 \<Rightarrow> vmm \<Rightarrow> vmm outcome" where
  "map_page this phy virt flags s =
     obind (last_table s (pml4 this) virt) (\<lambda>(current_table, s1).
       let entry = cell_at current_table (drop_bit 12 virt AND 0x1FF);
           replaced = v_cell s1 entry \<noteq> 0;
           s2 = s1\<lparr>v_cell := (v_cell s1)(entry := (phy AND ADDR_MASK) OR flags)\<rparr>
       in Returns (if replaced then s2\<lparr>v_invlpg := v_invlpg s2 @ [virt]\<rparr> else s2))"

function map_pages_loop :: "Pagemap \<Rightarrow> uptr \<Rightarrow> uptr \<Rightarrow> u64 \<Rightarrow> usize \<Rightarrow> usize \<Rightarrow> vmm \<Rightarrow> vmm outcome" where
  "map_pages_loop this phy virt flags i num_pages s =
     (if i < num_pages then
        obind (map_page this (phy + i * 0x1000) (virt + i * 0x1000) flags s)
          (map_pages_loop this phy virt flags (i + 1) num_pages)
      else Returns s)"
  by pat_completeness auto
termination
proof (relation "measure (\<lambda>(this, phy, virt, flags, i, n, s). unat n - unat i)", goal_cases)
  case (2 this phy virt flags i n s x)
  then show ?case by (simp add: unat_inc word_less_nat_alt)
qed simp

definition map_pages :: "Pagemap \<Rightarrow> uptr \<Rightarrow> uptr \<Rightarrow> usize \<Rightarrow> u64 \<Rightarrow> vmm \<Rightarrow> vmm outcome" where
  "map_pages this phy virt sz flags s =
     map_pages_loop this phy virt flags 0 (align_up 0x1000 sz div 0x1000) s"

definition map_kernel :: "Pagemap \<Rightarrow> Pagemap \<Rightarrow> vmm \<Rightarrow> vmm" where
  "map_kernel this kernel_pagemap s =
     s\<lparr>v_cell := for_range (\<lambda>i c. c(cell_at (pml4 this) i := c (cell_at (pml4 kernel_pagemap) i)))
                   (256 :: usize) 512 (v_cell s)\<rparr>"

definition activate :: "Pagemap \<Rightarrow> vmm \<Rightarrow> vmm" where
  "activate this s = s\<lparr>v_cr3 := pml4 this - v_hhdm s\<rparr>"

definition physical_addr :: "Pagemap \<Rightarrow> uptr \<Rightarrow> vmm \<Rightarrow> (uptr \<times> vmm) outcome" where
  "physical_addr this virt s =
     obind (last_table s (pml4 this) virt) (\<lambda>(current_table, s1).
       Returns (v_cell s1 (cell_at current_table (drop_bit 12 virt AND 0x1FF)) AND ADDR_MASK, s1))"

text \<open>\<^verbatim>\<open>addr_to_range\<close>: the ring is walked from the head; null is \<open>Some None\<close>, and a broken ring may
  never end.\<close>

partial_function (option) addr_to_range_loop ::
    "list_store \<Rightarrow> (uptr \<Rightarrow> MappedRange) \<Rightarrow> uptr \<Rightarrow> uptr \<Rightarrow> uptr \<Rightarrow> uptr option option" where
  "addr_to_range_loop h ranges head virt current =
     (if lh_next (h current) = head then Some None
      else let current' = lh_next (h current); range = ranges current'
           in if virt \<ge> mr_base range \<and> virt \<le> mr_base range + mr_length range then Some (Some current')
              else addr_to_range_loop h ranges head virt current')"

definition addr_to_range :: "Pagemap \<Rightarrow> uptr \<Rightarrow> vmm \<Rightarrow> uptr option option" where
  "addr_to_range this virt s =
     addr_to_range_loop (v_list s) (v_range s) (range_list_head this) virt (range_list_head this)"

text \<open>True means that the fault could not be handled; \<open>None\<close> that the call does not return.\<close>

definition handle_page_fault :: "Pagemap \<Rightarrow> uptr \<Rightarrow> vmm \<Rightarrow> (bool \<times> vmm) outcome option" where
  "handle_page_fault this virt s =
     (case last_table s (pml4 this) virt of
        Panics msg \<Rightarrow> Some (Panics msg)
      | Returns (current_table, s1) \<Rightarrow>
          let entry = cell_at current_table (drop_bit 12 virt AND 0x1FF)
          in if v_cell s1 entry AND PAGE_PRESENT = 0 then
               (case addr_to_range this virt s1 of
                  None \<Rightarrow> None
                | Some None \<Rightarrow> Some (Returns (True, s1))
                | Some (Some r) \<Rightarrow>
                    let range = v_range s1 r
                    in case mr_type range of
                         ANONYMOUS \<Rightarrow>
                           Some (obind (alloc_pages 1 (v_pmm s1)) (\<lambda>(new_page, p).
                             let c = zero_page (v_cell s1) (new_page + v_hhdm s1)
                             in Returns (False, s1\<lparr>v_pmm := p, v_cell := c(entry := new_page OR mr_page_flags range)\<rparr>)))
                       | DIRECT \<Rightarrow>
                           Some (Returns (False, s1\<lparr>v_cell := (v_cell s1)
                             (entry := ((virt - v_hhdm s1) AND ADDR_MASK) OR mr_page_flags range)\<rparr>)))
             else Some (Returns (True, s1)))"

text \<open>\<^verbatim>\<open>syscall_mmap\<close> for a task with the given pagemap and \<^verbatim>\<open>mmap_anon_base\<close>; \<open>fresh\<close> is the address
  the kernel heap returned for the new range.\<close>

definition mmap_page_flags :: "u32 \<Rightarrow> u64" where
  "mmap_page_flags prot =
     (let f1 = PAGE_PRESENT OR PAGE_USER;
          f2 = (if prot AND PROT_WRITE \<noteq> 0 then f1 OR PAGE_WRITABLE else f1)
      in if prot AND PROT_EXEC = 0 then f2 OR PAGE_NO_EXECUTE else f2)"

definition syscall_mmap ::
    "uptr \<Rightarrow> Pagemap \<Rightarrow> uptr \<Rightarrow> usize \<Rightarrow> u32 \<Rightarrow> u32 \<Rightarrow> vmm \<Rightarrow> isize \<times> uptr \<times> vmm" where
  "syscall_mmap fresh pagemap mmap_anon_base len prot flags s =
     (if flags AND MAP_PRIVATE = 0 \<or> flags AND MAP_SHARED \<noteq> 0 \<or> flags AND MAP_ANONYMOUS = 0
      then (- ENOSYS, mmap_anon_base, s)
      else
        let base = mmap_anon_base;
            aligned_size = align_up 0x1000 len;
            range = \<lparr>mr_base = base, mr_length = aligned_size, mr_page_flags = mmap_page_flags prot, mr_type = ANONYMOUS\<rparr>
        in (base, mmap_anon_base + aligned_size,
            s\<lparr>v_range := (v_range s)(fresh := range), v_list := list_add (v_list s) (range_list_head pagemap) fresh\<rparr>))"

text \<open>\<^verbatim>\<open>init\<close>: the flags and the part of the kernel image of a memory map entry.\<close>

definition entry_flags :: "limine_memmap_entry \<Rightarrow> u64" where
  "entry_flags entry =
     (let flags = PAGE_PRESENT OR PAGE_WRITABLE OR PAGE_NO_EXECUTE
      in if me_type entry = LIMINE_MEMMAP_BOOTLOADER_RECLAIMABLE then flags AND NOT PAGE_NO_EXECUTE
         else if me_type entry = LIMINE_MEMMAP_FRAMEBUFFER then flags OR PAGE_WRITE_COMBINING
         else flags)"

definition entry_kernel_size :: "limine_memmap_entry \<Rightarrow> usize" where
  "entry_kernel_size entry = (if me_type entry = LIMINE_MEMMAP_KERNEL_AND_MODULES then me_length entry else 0)"

definition map_entry :: "Pagemap \<Rightarrow> limine_memmap_entry \<Rightarrow> vmm \<Rightarrow> vmm outcome" where
  "map_entry this entry s =
     (if me_type entry = LIMINE_MEMMAP_BOOTLOADER_RECLAIMABLE \<or> me_type entry = LIMINE_MEMMAP_FRAMEBUFFER \<or>
         me_type entry = LIMINE_MEMMAP_USABLE
      then map_pages this (me_base entry) (me_base entry + v_hhdm s) (me_length entry) (entry_flags entry) s
      else Returns s)"

fun map_entries :: "Pagemap \<Rightarrow> limine_memmap_entry list \<Rightarrow> usize \<Rightarrow> vmm \<Rightarrow> (usize \<times> vmm) outcome" where
  "map_entries this [] kernel_size s = Returns (kernel_size, s)"
| "map_entries this (entry # entries) kernel_size s =
     obind (map_entry this entry s) (map_entries this entries (kernel_size + entry_kernel_size entry))"

definition heap_size :: usize where "heap_size = 1024 * 1024 * 1024"
definition heap_begin :: uptr where "heap_begin = NOT 0 - heap_size - 0x1000"

definition kernel_hhdm_range :: "uptr \<Rightarrow> MappedRange" where
  "kernel_hhdm_range hhdm_base =
     \<lparr>mr_base = hhdm_base, mr_length = 1024 * 1024 * 1024 * 1024,
      mr_page_flags = PAGE_PRESENT OR PAGE_WRITABLE, mr_type = DIRECT\<rparr>"

definition kernel_heap_range :: MappedRange where
  "kernel_heap_range =
     \<lparr>mr_base = heap_begin, mr_length = heap_size,
      mr_page_flags = PAGE_PRESENT OR PAGE_WRITABLE OR PAGE_NO_EXECUTE, mr_type = ANONYMOUS\<rparr>"

text \<open>\<open>head\<close>, \<open>hhdm_range\<close> and \<open>heap_range\<close> are the addresses of the static objects.\<close>

definition vmm_init ::
    "uptr \<Rightarrow> limine_memmap_entry list \<Rightarrow> uptr \<Rightarrow> uptr \<Rightarrow> uptr \<Rightarrow> uptr \<Rightarrow> uptr \<Rightarrow> vmm \<Rightarrow> (Pagemap \<times> vmm) outcome" where
  "vmm_init hhdm_base memmap physical_base virtual_base head hhdm_range heap_range s0 =
     (let s = s0\<lparr>v_hhdm := hhdm_base\<rparr>
      in obind (alloc_pages 1 (v_pmm s)) (\<lambda>(page, p).
         let this = \<lparr>pml4 = page + hhdm_base, range_list_head = head\<rparr>;
             s1 = s\<lparr>v_pmm := p, v_cell := zero_page (v_cell s) (pml4 this)\<rparr>
         in obind (map_entries this memmap 0 s1) (\<lambda>(kernel_size, s2).
            obind (map_pages this physical_base virtual_base kernel_size (PAGE_PRESENT OR PAGE_WRITABLE) s2) (\<lambda>s3.
            let l1 = list_init (v_list s3) head;
                l2 = list_add l1 head hhdm_range;
                l3 = list_add l2 head heap_range;
                s4 = s3\<lparr>v_list := l3, v_range := (v_range s3)(hhdm_range := kernel_hhdm_range hhdm_base,
                                                          heap_range := kernel_heap_range)\<rparr>
            in Returns (this, activate this s4)))))"

section \<open>What the page tables say\<close>

definition present :: "u64 \<Rightarrow> bool" where
  "present e \<longleftrightarrow> e AND PAGE_PRESENT \<noteq> 0"

definition target :: "uptr \<Rightarrow> u64 \<Rightarrow> uptr" where
  "target h e = (e AND ADDR_MASK) + h"

text \<open>Descend \<open>n\<close> levels from a table.\<close>

fun reach :: "(uptr \<Rightarrow> u64) \<Rightarrow> uptr \<Rightarrow> nat \<Rightarrow> uptr \<Rightarrow> uptr \<Rightarrow> uptr option" where
  "reach c h 0 t v = Some t"
| "reach c h (Suc n) t v =
     (let e = c (cell_at t (table_index (Suc (Suc n)) v))
      in if present e then reach c h n (target h e) v else None)"

definition walk_from :: "(uptr \<Rightarrow> u64) \<Rightarrow> uptr \<Rightarrow> nat \<Rightarrow> uptr \<Rightarrow> uptr \<Rightarrow> u64" where
  "walk_from c h n t v = (case reach c h n t v of None \<Rightarrow> 0 | Some y \<Rightarrow> c (cell_at y (table_index 1 v)))"

text \<open>The last-level entry the MMU finds, 0 when a table is missing.\<close>

definition walk :: "vmm \<Rightarrow> uptr \<Rightarrow> uptr \<Rightarrow> u64" where
  "walk s root v = walk_from (v_cell s) (v_hhdm s) 3 root v"

text \<open>Addresses of one 4 KiB page, bits 12 to 47.\<close>

definition same_page :: "uptr \<Rightarrow> uptr \<Rightarrow> bool" where
  "same_page v w \<longleftrightarrow> take_bit 36 (drop_bit 12 v) = take_bit 36 (drop_bit 12 w)"

text \<open>Tables are numbered by level, 4 for the root and 0 for what is no table.\<close>

definition page_at :: "uptr \<Rightarrow> usize \<Rightarrow> uptr" where
  "page_at h b = b * 0x1000 + h"

definition frames_ok :: "pmm \<Rightarrow> bool" where
  "frames_ok p \<longleftrightarrow> pmm_wf p \<and> unat (m_size (page_bitmap p)) \<le> 2 ^ 40"

definition pt_inv :: "vmm \<Rightarrow> uptr \<Rightarrow> (uptr \<Rightarrow> nat) \<Rightarrow> bool" where
  "pt_inv s root lv \<longleftrightarrow> frames_ok (v_pmm s) \<and> lv root = 4 \<and>
     (\<forall>t. lv t \<noteq> 0 \<longrightarrow> (\<exists>b. t = page_at (v_hhdm s) b \<and> unat b < 2 ^ 40 \<and> page_used (v_pmm s) b)) \<and>
     (\<forall>t l i. lv t = Suc (Suc l) \<and> i < 512 \<and> present (v_cell s (cell_at t i)) \<longrightarrow>
        lv (target (v_hhdm s) (v_cell s (cell_at t i))) = Suc l) \<and>
     (\<forall>t t' i i'. 2 \<le> lv t \<and> 2 \<le> lv t' \<and> i < 512 \<and> i' < 512 \<and>
        present (v_cell s (cell_at t i)) \<and> present (v_cell s (cell_at t' i')) \<and>
        target (v_hhdm s) (v_cell s (cell_at t i)) = target (v_hhdm s) (v_cell s (cell_at t' i')) \<longrightarrow>
        t = t' \<and> i = i')"

section \<open>The page allocator as a source of fresh frames\<close>

locale frame_source =
  fixes alloc1 :: "'p \<Rightarrow> (uptr \<times> 'p) outcome"
    and used :: "'p \<Rightarrow> usize \<Rightarrow> bool"
    and ok :: "'p \<Rightarrow> bool"
  assumes alloc1_fresh: "ok p \<Longrightarrow> alloc1 p = Returns (f, p') \<Longrightarrow>
      \<exists>b. f = b * 0x1000 \<and> unat b < 2 ^ 40 \<and> \<not> used p b \<and> used p' b \<and> (\<forall>j. used p j \<longrightarrow> used p' j) \<and> ok p'"
begin

lemma fresh_frame:
  assumes "ok p" and "alloc1 p = Returns (f, p')"
  obtains b where "f = b * 0x1000" and "unat b < 2 ^ 40" and "\<not> used p b" and "used p' b"
    and "\<And>j. used p j \<Longrightarrow> used p' j" and "ok p'"
  using alloc1_fresh [OF assms] by blast

text \<open>An allocation never returns a frame that is in use.\<close>

lemma frames_apart:
  assumes "ok p" and "alloc1 p = Returns (b * 0x1000, p')" and "unat b < 2 ^ 40" and "used p c" and "unat c < 2 ^ 40"
  shows "b \<noteq> c"
proof
  assume "b = c"
  obtain d where d: "b * 0x1000 = d * 0x1000" "unat d < 2 ^ 40" "\<not> used p d"
    by (rule fresh_frame [OF assms(1,2)]) blast
  have "unat (b * 0x1000) = unat b * 4096" "unat (d * 0x1000) = unat d * 4096"
    using assms(3) d(2) by (subst unat_mult_nowrap; simp)+
  then have "b = d" using d(1) by (simp add: word_unat_eq_iff)
  then show False using d(3) assms(4) \<open>b = c\<close> by simp
qed

end

interpretation frames: frame_source "alloc_pages 1" page_used frames_ok
proof
  fix p f p' assume p: "frames_ok p" and a: "alloc_pages 1 p = Returns (f, p')"
  have wf: "pmm_wf p" and small: "unat (m_size (page_bitmap p)) \<le> 2 ^ 40" using p by (auto simp: frames_ok_def)
  from alloc_pages_Returns [OF wf a] obtain b where
    b: "unat f = unat b * 4096" "unat b + unat (1 :: usize) \<le> unat (m_size (page_bitmap p))"
      "\<forall>j. b \<le> j \<and> j < b + 1 \<longrightarrow> \<not> page_used p j" "\<forall>j. page_used p' j \<longleftrightarrow> page_used p j \<or> b \<le> j \<and> j < b + 1"
      "page_bitmap p' = page_bitmap p" "pmm_wf p'" by blast
  have lt: "unat b < 2 ^ 40" using b(2) small by simp
  have "unat (b + 1) = unat b + 1" using lt by (subst unat_add_nowrap) auto
  then have b1: "b < b + 1" by (simp add: word_less_nat_alt)
  have "unat (b * 0x1000) = unat b * 4096" using lt by (subst unat_mult_nowrap) auto
  then have "f = b * 0x1000" using b(1) by (simp add: word_unat_eq_iff)
  moreover have "\<not> page_used p b" "page_used p' b" using b(3,4) b1 by auto
  moreover have "frames_ok p'" using b(5,6) small by (simp add: frames_ok_def)
  ultimately show "\<exists>b. f = b * 0x1000 \<and> unat b < 2 ^ 40 \<and> \<not> page_used p b \<and> page_used p' b \<and>
      (\<forall>j. page_used p j \<longrightarrow> page_used p' j) \<and> frames_ok p'"
    using lt b(4) by blast
qed

section \<open>Addresses of table cells\<close>

lemma cell_in_page:
  assumes "unat b < 2 ^ 40" and "unat f < 2 ^ 40" and "i < 512"
  shows "cell_at (page_at h b) i - page_at h f < 0x1000 \<longleftrightarrow> b = f"
proof -
  have i: "unat i < 512" using assms(3) by (simp add: word_less_nat_alt)
  have u: "unat (b * 0x1000) = unat b * 4096" "unat (f * 0x1000) = unat f * 4096" "unat (i * 8) = unat i * 8"
    using assms(1,2) i by (subst unat_mult_nowrap; simp)+
  have s: "unat (b * 0x1000 + i * 8) = unat b * 4096 + unat i * 8"
    using u i assms(1) by (subst unat_add_nowrap) auto
  have e: "cell_at (page_at h b) i - page_at h f = (b * 0x1000 + i * 8) - f * 0x1000"
    by (simp add: cell_at_def page_at_def)
  show ?thesis
  proof (cases "b = f")
    case True
    then show ?thesis using i u(3) unfolding e by (simp add: word_less_nat_alt)
  next
    case False
    then have ne: "unat b \<noteq> unat f" by (simp add: word_unat_eq_iff)
    have "\<not> unat ((b * 0x1000 + i * 8) - f * 0x1000) < 4096"
      using ne i assms(1,2) u(2) s by (auto simp: unat_sub_if_size word_size)
    then show ?thesis using False unfolding e by (simp add: word_less_nat_alt)
  qed
qed

lemma cell_inj:
  assumes "unat b < 2 ^ 40" and "unat f < 2 ^ 40" and "i < 512" and "j < 512"
    and "cell_at (page_at h b) i = cell_at (page_at h f) j"
  shows "b = f \<and> i = j"
proof -
  have "b = f" using cell_in_page [OF assms(1,2,3)] cell_in_page [OF assms(2,2,4)] assms(5) by metis
  moreover have "i * 8 = j * 8" using assms(5) \<open>b = f\<close> by (simp add: cell_at_def)
  moreover have "unat (i * 8) = unat i * 8" "unat (j * 8) = unat j * 8"
    using assms(3,4) by (subst unat_mult_nowrap; simp add: word_less_nat_alt)+
  ultimately show ?thesis by (simp add: word_unat_eq_iff)
qed

lemma index_less [simp]: "table_index l v < 512"
proof -
  have "table_index l v \<le> 0x1FF" unfolding table_index_def by (rule word_and_le1)
  also have "\<dots> < 512" by simp
  finally show ?thesis .
qed

lemma ADDR_MASK_bits: "ADDR_MASK = push_bit 12 (mask 40)"
  by (simp add: ADDR_MASK_def mask_eq_exp_minus_1)

lemma take_bit_small: "unat w < 2 ^ n \<Longrightarrow> take_bit n w = w" for w :: "'i::len word"
  by (simp add: word_unat_eq_iff unsigned_take_bit_eq take_bit_nat_eq_self)

lemma frame_masked:
  assumes "unat b < 2 ^ 40" and "low < 0x1000"
  shows "(b * 0x1000 OR low) AND ADDR_MASK = b * 0x1000"
proof -
  have "take_bit 40 b = b" using assms(1) by (intro take_bit_small) simp
  then have hb: "bit b n \<Longrightarrow> n < 40" for n by (metis bit_take_bit_iff)
  have "take_bit 12 low = low" using assms(2) by (intro take_bit_small) (simp add: word_less_nat_alt)
  then have hl: "bit low n \<Longrightarrow> n < 12" for n by (metis bit_take_bit_iff)
  have "b * 0x1000 = push_bit 12 b" by (simp add: push_bit_eq_mult)
  then show ?thesis
    unfolding ADDR_MASK_bits
    by (intro bit_word_eqI) (auto simp: bit_simps dest: hb hl)
qed

lemma fresh_entry:
  assumes "unat b < 2 ^ 40"
  shows "present (b * 0x1000 OR PAGE_PRESENT OR PAGE_WRITABLE OR PAGE_USER)"
    and "target h (b * 0x1000 OR PAGE_PRESENT OR PAGE_WRITABLE OR PAGE_USER) = page_at h b"
proof -
  have "bit (b * 0x1000 OR PAGE_PRESENT OR PAGE_WRITABLE OR PAGE_USER) 0"
    by (simp add: PAGE_PRESENT_def PAGE_WRITABLE_def PAGE_USER_def bit_simps)
  then show "present (b * 0x1000 OR PAGE_PRESENT OR PAGE_WRITABLE OR PAGE_USER)"
    by (simp add: present_def PAGE_PRESENT_def and_one_eq odd_iff_mod_2_eq_one bit_0)
  have "PAGE_PRESENT OR PAGE_WRITABLE OR PAGE_USER = 7" "(7 :: u64) < 0x1000"
    by (simp_all add: PAGE_PRESENT_def PAGE_WRITABLE_def PAGE_USER_def)
  then show "target h (b * 0x1000 OR PAGE_PRESENT OR PAGE_WRITABLE OR PAGE_USER) = page_at h b"
    using frame_masked [OF assms, of 7] by (simp add: target_def page_at_def)
qed

section \<open>Adding a table\<close>

lemma pt_root: "pt_inv s root lv \<Longrightarrow> lv root = 4"
  unfolding pt_inv_def by (elim conjE)

lemma pt_frames: "pt_inv s root lv \<Longrightarrow> frames_ok (v_pmm s)"
  unfolding pt_inv_def by (elim conjE)

lemma pt_page: "pt_inv s root lv \<Longrightarrow> lv t \<noteq> 0 \<Longrightarrow>
    \<exists>b. t = page_at (v_hhdm s) b \<and> unat b < 2 ^ 40 \<and> page_used (v_pmm s) b"
  unfolding pt_inv_def by blast

lemma pt_next: "pt_inv s root lv \<Longrightarrow> lv t = Suc (Suc l) \<Longrightarrow> i < 512 \<Longrightarrow> present (v_cell s (cell_at t i)) \<Longrightarrow>
    lv (target (v_hhdm s) (v_cell s (cell_at t i))) = Suc l"
  unfolding pt_inv_def by blast

lemma pt_inj: "pt_inv s root lv \<Longrightarrow> 2 \<le> lv t \<Longrightarrow> 2 \<le> lv t' \<Longrightarrow> i < 512 \<Longrightarrow> i' < 512 \<Longrightarrow>
    present (v_cell s (cell_at t i)) \<Longrightarrow> present (v_cell s (cell_at t' i')) \<Longrightarrow>
    target (v_hhdm s) (v_cell s (cell_at t i)) = target (v_hhdm s) (v_cell s (cell_at t' i')) \<Longrightarrow> t = t' \<and> i = i'"
  unfolding pt_inv_def by blast

lemma pt_cell_inj:
  "pt_inv s root lv \<Longrightarrow> lv t \<noteq> 0 \<Longrightarrow> lv t' \<noteq> 0 \<Longrightarrow> i < 512 \<Longrightarrow> j < 512 \<Longrightarrow> cell_at t i = cell_at t' j \<Longrightarrow> t = t' \<and> i = j"
proof -
  assume a: "pt_inv s root lv" "lv t \<noteq> 0" "lv t' \<noteq> 0" "i < 512" "j < 512" "cell_at t i = cell_at t' j"
  obtain b where b: "t = page_at (v_hhdm s) b" "unat b < 2 ^ 40" using pt_page [OF a(1,2)] by blast
  obtain b' where b': "t' = page_at (v_hhdm s) b'" "unat b' < 2 ^ 40" using pt_page [OF a(1,3)] by blast
  show ?thesis using cell_inj [OF b(2) b'(2) a(4,5)] a(6) b(1) b'(1) by blast
qed

text \<open>The state after \<^verbatim>\<open>page_table_next_level\<close> installed the frame \<open>b\<close> in slot \<open>i\<close> of \<open>t\<close>.\<close>

definition grown :: "vmm \<Rightarrow> uptr \<Rightarrow> usize \<Rightarrow> usize \<Rightarrow> pmm \<Rightarrow> vmm" where
  "grown s t i b p = s\<lparr>v_pmm := p, v_cell := (zero_page (v_cell s) (page_at (v_hhdm s) b))
     (cell_at t i := b * 0x1000 OR PAGE_PRESENT OR PAGE_WRITABLE OR PAGE_USER)\<rparr>"

lemma next_level_cases:
  assumes inv: "pt_inv s root lv" and r: "page_table_next_level s t i = Returns (t', s')"
  shows "present (v_cell s (cell_at t i)) \<and> t' = target (v_hhdm s) (v_cell s (cell_at t i)) \<and> s' = s \<or>
    \<not> present (v_cell s (cell_at t i)) \<and> (\<exists>b p. unat b < 2 ^ 40 \<and> \<not> page_used (v_pmm s) b \<and> page_used p b \<and>
      (\<forall>j. page_used (v_pmm s) j \<longrightarrow> page_used p j) \<and> frames_ok p \<and> t' = page_at (v_hhdm s) b \<and> s' = grown s t i b p)"
proof (cases "present (v_cell s (cell_at t i))")
  case True
  then show ?thesis using r by (auto simp: page_table_next_level_def present_def target_def Let_def)
next
  case False
  then obtain f p where a: "alloc_pages 1 (v_pmm s) = Returns (f, p)"
    using r by (cases "alloc_pages 1 (v_pmm s)") (auto simp: page_table_next_level_def present_def Let_def)
  have "frames_ok (v_pmm s)" by (rule pt_frames [OF inv])
  from frames.fresh_frame [OF this a] obtain b where b: "f = b * 0x1000" "unat b < 2 ^ 40" "\<not> page_used (v_pmm s) b"
    "page_used p b" "\<And>j. page_used (v_pmm s) j \<Longrightarrow> page_used p j" "frames_ok p" by blast
  have "t' = page_at (v_hhdm s) b \<and> s' = grown s t i b p"
    using r False a b(1) by (auto simp: page_table_next_level_def present_def Let_def grown_def page_at_def)
  with b False show ?thesis by blast
qed

text \<open>The cells of the tables in place keep their contents, the new table is empty.\<close>

lemma grown_cell:
  assumes inv: "pt_inv s root lv" and b: "unat b < 2 ^ 40" "\<not> page_used (v_pmm s) b"
    and t: "lv t \<noteq> 0" "i < 512"
  shows "lv x \<noteq> 0 \<Longrightarrow> j < 512 \<Longrightarrow> v_cell (grown s t i b p) (cell_at x j) =
      (if x = t \<and> j = i then b * 0x1000 OR PAGE_PRESENT OR PAGE_WRITABLE OR PAGE_USER else v_cell s (cell_at x j))"
    and "j < 512 \<Longrightarrow> v_cell (grown s t i b p) (cell_at (page_at (v_hhdm s) b) j) = 0"
    and "lv (page_at (v_hhdm s) b) = 0"
proof -
  have nb: "\<exists>c. x = page_at (v_hhdm s) c \<and> unat c < 2 ^ 40 \<and> c \<noteq> b" if "lv x \<noteq> 0" for x
    using pt_page [OF inv that] b(2) by blast
  show "v_cell (grown s t i b p) (cell_at x j) =
      (if x = t \<and> j = i then b * 0x1000 OR PAGE_PRESENT OR PAGE_WRITABLE OR PAGE_USER else v_cell s (cell_at x j))"
    if x: "lv x \<noteq> 0" "j < 512"
  proof -
    have "cell_at x j = cell_at t i \<longleftrightarrow> x = t \<and> j = i" using pt_cell_inj [OF inv x(1) t(1) x(2) t(2)] by blast
    moreover have "\<not> cell_at x j - page_at (v_hhdm s) b < 0x1000"
      using nb [OF x(1)] cell_in_page [OF _ b(1) x(2)] by blast
    ultimately show ?thesis by (simp add: grown_def zero_page_def)
  qed
  show "v_cell (grown s t i b p) (cell_at (page_at (v_hhdm s) b) j) = 0" if j: "j < 512"
  proof -
    obtain c where c: "t = page_at (v_hhdm s) c" "unat c < 2 ^ 40" "c \<noteq> b" using nb [OF t(1)] by blast
    have "cell_at (page_at (v_hhdm s) b) j \<noteq> cell_at t i" using cell_inj [OF b(1) c(2) j t(2)] c by blast
    moreover have "cell_at (page_at (v_hhdm s) b) j - page_at (v_hhdm s) b < 0x1000"
      using cell_in_page [OF b(1,1) j] by blast
    ultimately show ?thesis by (simp add: grown_def zero_page_def)
  qed
  show "lv (page_at (v_hhdm s) b) = 0"
  proof (rule ccontr)
    assume "lv (page_at (v_hhdm s) b) \<noteq> 0"
    then obtain c where "page_at (v_hhdm s) b = page_at (v_hhdm s) c" "unat c < 2 ^ 40" "c \<noteq> b" using nb by blast
    then show False using cell_inj [OF b(1), of c 0 0 "v_hhdm s"] by simp
  qed
qed

lemma empty_walk:
  assumes "\<And>j. j < 512 \<Longrightarrow> c (cell_at t j) = 0"
  shows "walk_from c h n t v = 0"
  using assms [of "table_index (Suc n) v"] assms [of "table_index 1 v"]
  by (cases n) (simp_all add: walk_from_def present_def)

lemma walk_from_Suc:
  "walk_from c h (Suc n) t v = (let e = c (cell_at t (table_index (Suc (Suc n)) v))
     in if present e then walk_from c h n (target h e) v else 0)"
  by (simp add: walk_from_def Let_def)

lemma grown_walk:
  assumes inv: "pt_inv s root lv" and b: "unat b < 2 ^ 40" "\<not> page_used (v_pmm s) b"
    and t: "lv t = Suc (Suc l)" "i < 512" and np: "\<not> present (v_cell s (cell_at t i))"
  shows "lv x = Suc n \<Longrightarrow> walk_from (v_cell (grown s t i b p)) (v_hhdm s) n x v = walk_from (v_cell s) (v_hhdm s) n x v"
proof (induction n arbitrary: x)
  case 0
  have "x \<noteq> t" using 0 t(1) by auto
  then show ?case using grown_cell(1) [OF inv b _ t(2), of t x "table_index 1 v" p] 0 t(1) by (simp add: walk_from_def)
next
  case (Suc n)
  let ?j = "table_index (Suc (Suc n)) v"
  have tl: "lv t \<noteq> 0" using t(1) by simp
  note cell = grown_cell(1,2) [OF inv b tl t(2), where p = p]
  show ?case
  proof (cases "x = t \<and> ?j = i")
    case True
    then have "v_cell (grown s t i b p) (cell_at x ?j) = b * 0x1000 OR PAGE_PRESENT OR PAGE_WRITABLE OR PAGE_USER"
      using cell(1) [of x ?j] Suc.prems t(2) by simp
    then have "walk_from (v_cell (grown s t i b p)) (v_hhdm s) (Suc n) x v =
        walk_from (v_cell (grown s t i b p)) (v_hhdm s) n (page_at (v_hhdm s) b) v"
      using fresh_entry [OF b(1)] by (simp add: walk_from_Suc)
    also have "\<dots> = 0" using cell(2) by (intro empty_walk)
    also have "\<dots> = walk_from (v_cell s) (v_hhdm s) (Suc n) x v" using np True by (simp add: walk_from_Suc)
    finally show ?thesis .
  next
    case False
    then have same: "v_cell (grown s t i b p) (cell_at x ?j) = v_cell s (cell_at x ?j)"
      using cell(1) [of x ?j] Suc.prems by auto
    show ?thesis
      using same Suc.IH pt_next [OF inv Suc.prems index_less] by (simp add: walk_from_Suc Let_def)
  qed
qed

lemma grown_inv:
  assumes inv: "pt_inv s root lv" and b: "unat b < 2 ^ 40" "\<not> page_used (v_pmm s) b" "page_used p b"
      "\<forall>j. page_used (v_pmm s) j \<longrightarrow> page_used p j" "frames_ok p"
    and t: "lv t = Suc (Suc l)" "i < 512" and np: "\<not> present (v_cell s (cell_at t i))"
  shows "pt_inv (grown s t i b p) root (lv(page_at (v_hhdm s) b := Suc l))"
proof -
  let ?s = "grown s t i b p" and ?y = "page_at (v_hhdm s) b" and ?e = "b * 0x1000 OR PAGE_PRESENT OR PAGE_WRITABLE OR PAGE_USER"
  let ?lv = "lv(?y := Suc l)"
  have h: "v_hhdm ?s = v_hhdm s" "v_pmm ?s = p" by (simp_all add: grown_def)
  have tl: "lv t \<noteq> 0" using t(1) by simp
  note cell = grown_cell [OF inv b(1,2) tl t(2)] and fe = fresh_entry [OF b(1)]
  have ny: "lv x \<noteq> 0 \<Longrightarrow> x \<noteq> ?y" for x using cell(3) by auto
  have old_target: "target (v_hhdm s) (v_cell s (cell_at x j)) \<noteq> ?y"
    if "2 \<le> lv x" "j < 512" "present (v_cell s (cell_at x j))" for x j
  proof -
    have "lv x = Suc (Suc (lv x - 2))" using that(1) by simp
    from pt_next [OF inv this that(2,3)] show ?thesis by (intro ny) simp
  qed
  have npy: "\<not> present (v_cell ?s (cell_at ?y j))" if "j < 512" for j using cell(2) [OF that] by (simp add: present_def)
  have cases: "x \<noteq> ?y \<and> (x = t \<and> j = i \<and> v_cell ?s (cell_at x j) = ?e \<or>
      \<not> (x = t \<and> j = i) \<and> v_cell ?s (cell_at x j) = v_cell s (cell_at x j))"
    if "?lv x \<noteq> 0" "j < 512" "present (v_cell ?s (cell_at x j))" for x j
    using that npy cell(1) [of x j] by (cases "x = ?y") auto
  show ?thesis
    unfolding pt_inv_def h
  proof (intro conjI allI impI; (elim conjE)?)
    show "frames_ok p" by (rule b(5))
    have "lv root = 4" using inv by (simp add: pt_inv_def)
    then show "?lv root = 4" using ny [of root] by simp
    show "\<exists>c. x = page_at (v_hhdm s) c \<and> unat c < 2 ^ 40 \<and> page_used p c" if "?lv x \<noteq> 0" for x
    proof (cases "x = ?y")
      case True
      then show ?thesis using b(1,3) by blast
    next
      case False
      then show ?thesis using that pt_page [OF inv, of x] b(4) by auto
    qed
    show "?lv (target (v_hhdm s) (v_cell ?s (cell_at x j))) = Suc m"
      if x: "?lv x = Suc (Suc m)" "j < 512" "present (v_cell ?s (cell_at x j))" for x m j
    proof -
      have c: "x \<noteq> ?y" "x = t \<and> j = i \<and> v_cell ?s (cell_at x j) = ?e \<or>
          \<not> (x = t \<and> j = i) \<and> v_cell ?s (cell_at x j) = v_cell s (cell_at x j)" using cases [OF _ x(2,3)] x(1) by auto
      then show ?thesis
        using fe(2) t(1) x pt_next [OF inv _ x(2), of x m] old_target [OF _ x(2), of x] by auto
    qed
    fix x x' j j'
    assume a: "2 \<le> ?lv x" "2 \<le> ?lv x'" "j < 512" "j' < 512" "present (v_cell ?s (cell_at x j))"
      "present (v_cell ?s (cell_at x' j'))"
      "target (v_hhdm s) (v_cell ?s (cell_at x j)) = target (v_hhdm s) (v_cell ?s (cell_at x' j'))"
    have c: "x \<noteq> ?y" "x = t \<and> j = i \<and> v_cell ?s (cell_at x j) = ?e \<or>
        \<not> (x = t \<and> j = i) \<and> v_cell ?s (cell_at x j) = v_cell s (cell_at x j)" using cases [OF _ a(3,5)] a(1) by auto
    have c': "x' \<noteq> ?y" "x' = t \<and> j' = i \<and> v_cell ?s (cell_at x' j') = ?e \<or>
        \<not> (x' = t \<and> j' = i) \<and> v_cell ?s (cell_at x' j') = v_cell s (cell_at x' j')" using cases [OF _ a(4,6)] a(2) by auto
    have "x = x' \<and> j = j'"
      using a c c' fe(2) old_target [OF _ a(3), of x] old_target [OF _ a(4), of x']
        pt_inj [OF inv _ _ a(3,4), of x x'] by auto
    then show "x = x'" "j = j'" by auto
  qed
qed

text \<open>Descending may add tables; whatever was found before is found again.\<close>

definition pt_ext :: "vmm \<Rightarrow> (uptr \<Rightarrow> nat) \<Rightarrow> vmm \<Rightarrow> (uptr \<Rightarrow> nat) \<Rightarrow> bool" where
  "pt_ext s lv s' lv' \<longleftrightarrow> v_hhdm s' = v_hhdm s \<and> v_list s' = v_list s \<and> v_range s' = v_range s \<and>
     (\<forall>b. page_used (v_pmm s) b \<longrightarrow> page_used (v_pmm s') b) \<and> (\<forall>x. lv x \<noteq> 0 \<longrightarrow> lv' x = lv x) \<and>
     (\<forall>x n v. lv x = Suc n \<longrightarrow> walk_from (v_cell s') (v_hhdm s) n x v = walk_from (v_cell s) (v_hhdm s) n x v) \<and>
     (\<forall>x j. lv x \<noteq> 0 \<and> j < 512 \<and> present (v_cell s (cell_at x j)) \<longrightarrow> v_cell s' (cell_at x j) = v_cell s (cell_at x j))"

lemma pt_ext_refl: "pt_ext s lv s lv"
  by (simp add: pt_ext_def)

lemma pt_ext_trans: "pt_ext s lv s1 lv1 \<Longrightarrow> pt_ext s1 lv1 s2 lv2 \<Longrightarrow> pt_ext s lv s2 lv2"
  unfolding pt_ext_def by (metis nat.distinct(1))

lemma next_level_ok:
  assumes inv: "pt_inv s root lv" and t: "lv t = Suc (Suc l)" "i < 512"
    and r: "page_table_next_level s t i = Returns (t', s')"
  shows "\<exists>lv'. pt_inv s' root lv' \<and> pt_ext s lv s' lv' \<and> lv' t' = Suc l \<and> lv' t = lv t \<and>
           present (v_cell s' (cell_at t i)) \<and> target (v_hhdm s') (v_cell s' (cell_at t i)) = t'"
  using next_level_cases [OF inv r]
proof (elim disjE conjE exE)
  assume "present (v_cell s (cell_at t i))" "t' = target (v_hhdm s) (v_cell s (cell_at t i))" "s' = s"
  then show ?thesis using inv t pt_next [OF inv t] pt_ext_refl by auto
next
  fix b p
  assume np: "\<not> present (v_cell s (cell_at t i))" and b: "unat b < 2 ^ 40" "\<not> page_used (v_pmm s) b" "page_used p b"
    "\<forall>j. page_used (v_pmm s) j \<longrightarrow> page_used p j" "frames_ok p" and s': "t' = page_at (v_hhdm s) b" "s' = grown s t i b p"
  have tl: "lv t \<noteq> 0" using t(1) by simp
  note cell = grown_cell [OF inv b(1,2) tl t(2)]
  let ?lv = "lv(t' := Suc l)"
  have "pt_inv s' root ?lv" unfolding s' by (rule grown_inv [OF inv b t np])
  moreover have "pt_ext s lv s' ?lv"
    unfolding pt_ext_def
  proof (intro conjI allI impI; (elim conjE)?)
    show "?lv x = lv x" if "lv x \<noteq> 0" for x using that cell(3) s'(1) by auto
    show "walk_from (v_cell s') (v_hhdm s) n x v = walk_from (v_cell s) (v_hhdm s) n x v" if "lv x = Suc n" for x n v
      unfolding s' using grown_walk [OF inv b(1,2) t np that] .
    show "v_cell s' (cell_at x j) = v_cell s (cell_at x j)"
      if "lv x \<noteq> 0" "j < 512" "present (v_cell s (cell_at x j))" for x j
      using cell(1) [OF that(1,2)] that(3) np s'(2) by auto
  qed (simp_all add: s' grown_def b(4))
  moreover have "v_cell s' (cell_at t i) = b * 0x1000 OR PAGE_PRESENT OR PAGE_WRITABLE OR PAGE_USER"
    using cell(1) [OF tl t(2)] s'(2) by simp
  moreover have "t \<noteq> t'" using cell(3) s'(1) tl by auto
  moreover have "v_hhdm s' = v_hhdm s" by (simp add: s' grown_def)
  ultimately show ?thesis using fresh_entry [OF b(1)] s'(1) by (intro exI [of _ ?lv]) simp
qed

lemma last_table_ok:
  assumes inv: "pt_inv s root lv" and r: "last_table s root virt = Returns (y, s')"
  shows "\<exists>lv'. pt_inv s' root lv' \<and> pt_ext s lv s' lv' \<and> lv' y = 1 \<and> reach (v_cell s') (v_hhdm s') 3 root virt = Some y"
proof -
  let ?i = "\<lambda>l. table_index l virt"
  have idx: "drop_bit 39 virt AND 0x1FF = ?i 4" "drop_bit 30 virt AND 0x1FF = ?i 3" "drop_bit 21 virt AND 0x1FF = ?i 2"
    by (simp_all add: table_index_def)
  obtain t3 s3 where 3: "page_table_next_level s root (?i 4) = Returns (t3, s3)"
    using r by (cases "page_table_next_level s root (?i 4)") (auto simp: last_table_def idx)
  obtain t2 s2 where 2: "page_table_next_level s3 t3 (?i 3) = Returns (t2, s2)"
    using r 3 by (cases "page_table_next_level s3 t3 (?i 3)") (auto simp: last_table_def idx)
  have 1: "page_table_next_level s2 t2 (?i 2) = Returns (y, s')" using r 3 2 by (simp add: last_table_def idx)
  have "lv root = Suc (Suc 2)" using pt_root [OF inv] by simp
  from next_level_ok [OF inv this index_less 3] obtain lv3 where l3: "pt_inv s3 root lv3" "pt_ext s lv s3 lv3"
    "lv3 t3 = Suc (Suc 1)" "lv3 root \<noteq> 0" "present (v_cell s3 (cell_at root (?i 4)))"
    "target (v_hhdm s3) (v_cell s3 (cell_at root (?i 4))) = t3" using \<open>lv root = Suc (Suc 2)\<close> by auto
  from next_level_ok [OF l3(1,3) index_less 2] obtain lv2 where l2: "pt_inv s2 root lv2" "pt_ext s3 lv3 s2 lv2"
    "lv2 t2 = Suc (Suc 0)" "lv2 t3 \<noteq> 0" "present (v_cell s2 (cell_at t3 (?i 3)))"
    "target (v_hhdm s2) (v_cell s2 (cell_at t3 (?i 3))) = t2" using l3(3) by auto
  from next_level_ok [OF l2(1,3) index_less 1] obtain lv1 where l1: "pt_inv s' root lv1" "pt_ext s2 lv2 s' lv1"
    "lv1 y = 1" "present (v_cell s' (cell_at t2 (?i 2)))"
    "target (v_hhdm s') (v_cell s' (cell_at t2 (?i 2))) = y" by auto
  have e: "pt_ext s3 lv3 s' lv1" using pt_ext_trans [OF l2(2) l1(2)] .
  have h: "v_hhdm s' = v_hhdm s3" "v_hhdm s' = v_hhdm s2" using e l1(2) by (simp_all add: pt_ext_def)
  have c3: "v_cell s' (cell_at root (?i 4)) = v_cell s3 (cell_at root (?i 4))"
    using e l3(4,5) by (simp add: pt_ext_def)
  have c2: "v_cell s' (cell_at t3 (?i 3)) = v_cell s2 (cell_at t3 (?i 3))"
    using l1(2) l2(4,5) by (simp add: pt_ext_def)
  have "reach (v_cell s') (v_hhdm s') 3 root virt = Some y"
    using l1(4,5) l2(5,6) l3(5,6) c2 c3 h by (simp add: eval_nat_numeral)
  then show ?thesis using l1(1,3) pt_ext_trans [OF l3(2) e] by blast
qed

section \<open>Writing a leaf\<close>

lemma same_page_iff:
  "same_page v w \<longleftrightarrow> table_index 1 v = table_index 1 w \<and> table_index 2 v = table_index 2 w \<and>
     table_index 3 v = table_index 3 w \<and> table_index 4 v = table_index 4 w"
proof -
  have idx: "table_index (Suc l) x = take_bit 9 (drop_bit (12 + 9 * l) x)" for l x
    by (simp add: table_index_def take_bit_eq_mask mask_eq_exp_minus_1)
  have split: "x = y \<longleftrightarrow> take_bit 9 x = take_bit 9 y \<and> drop_bit 9 x = drop_bit 9 y" for x y :: uptr
    by (metis bits_ident)
  have "same_page v w \<longleftrightarrow> (\<forall>l<4. table_index (Suc l) v = table_index (Suc l) w)"
  proof
    assume "same_page v w"
    then have b: "bit (take_bit 36 (drop_bit 12 v)) n = bit (take_bit 36 (drop_bit 12 w)) n" for n
      by (simp add: same_page_def)
    show "\<forall>l<4. table_index (Suc l) v = table_index (Suc l) w"
      unfolding idx
    proof (intro allI impI bit_word_eqI)
      fix l n :: nat assume "l < 4" "n < LENGTH(64)"
      then show "bit (take_bit 9 (drop_bit (12 + 9 * l) v)) n = bit (take_bit 9 (drop_bit (12 + 9 * l) w)) n"
        using b [of "9 * l + n"] by (auto simp: bit_simps ac_simps)
    qed
  next
    assume a: "\<forall>l<4. table_index (Suc l) v = table_index (Suc l) w"
    show "same_page v w"
      unfolding same_page_def
    proof (rule bit_word_eqI)
      fix n assume "n < LENGTH(64)"
      show "bit (take_bit 36 (drop_bit 12 v)) n = bit (take_bit 36 (drop_bit 12 w)) n"
      proof (cases "n < 36")
        case True
        then have "n div 9 < 4" by simp
        then have "bit (table_index (Suc (n div 9)) v) (n mod 9) = bit (table_index (Suc (n div 9)) w) (n mod 9)"
          using a by simp
        moreover have "12 + 9 * (n div 9) + n mod 9 = 12 + n" by simp
        ultimately show ?thesis using True unfolding idx by (simp add: bit_simps)
      qed (simp add: bit_simps)
    qed
  qed
  also have "\<dots> \<longleftrightarrow> table_index 1 v = table_index 1 w \<and> table_index 2 v = table_index 2 w \<and>
     table_index 3 v = table_index 3 w \<and> table_index 4 v = table_index 4 w"
    by (auto simp: eval_nat_numeral less_Suc_eq)
  finally show ?thesis .
qed

lemma reach_level: "pt_inv s root lv \<Longrightarrow> lv x = Suc n \<Longrightarrow> reach (v_cell s) (v_hhdm s) n x v = Some y \<Longrightarrow> lv y = 1"
proof (induction n arbitrary: x)
  case (Suc n)
  then show ?case using pt_next [OF Suc.prems(1,2) index_less] by (auto simp: Let_def split: if_splits)
qed simp

lemma reach_inj:
  assumes inv: "pt_inv s root lv"
  shows "lv x = Suc n \<Longrightarrow> lv x' = Suc n \<Longrightarrow> reach (v_cell s) (v_hhdm s) n x v = Some y \<Longrightarrow>
    reach (v_cell s) (v_hhdm s) n x' w = Some y \<Longrightarrow>
    x = x' \<and> (\<forall>m. 2 \<le> m \<and> m \<le> Suc n \<longrightarrow> table_index m v = table_index m w)"
proof (induction n arbitrary: x x')
  case (Suc n)
  let ?j = "table_index (Suc (Suc n)) v" and ?j' = "table_index (Suc (Suc n)) w"
  let ?e = "v_cell s (cell_at x ?j)" and ?e' = "v_cell s (cell_at x' ?j')"
  have p: "present ?e" "present ?e'" and r: "reach (v_cell s) (v_hhdm s) n (target (v_hhdm s) ?e) v = Some y"
    "reach (v_cell s) (v_hhdm s) n (target (v_hhdm s) ?e') w = Some y"
    using Suc.prems(3,4) by (auto simp: Let_def split: if_splits)
  have "lv (target (v_hhdm s) ?e) = Suc n" "lv (target (v_hhdm s) ?e') = Suc n"
    using pt_next [OF inv Suc.prems(1) index_less p(1)] pt_next [OF inv Suc.prems(2) index_less p(2)] .
  from Suc.IH [OF this r] have ih: "target (v_hhdm s) ?e = target (v_hhdm s) ?e'"
    "\<forall>m. 2 \<le> m \<and> m \<le> Suc n \<longrightarrow> table_index m v = table_index m w" by auto
  have "x = x' \<and> ?j = ?j'"
    using pt_inj [OF inv _ _ index_less index_less p ih(1)] Suc.prems(1,2) by simp
  then show ?case using ih(2) by (auto simp: le_Suc_eq)
qed auto

lemma reach_cong:
  "(\<And>m. 2 \<le> m \<Longrightarrow> m \<le> Suc n \<Longrightarrow> table_index m v = table_index m w) \<Longrightarrow> reach c h n x v = reach c h n x w"
  by (induction n arbitrary: x) (simp_all add: Let_def)

lemma same_page_reach: "same_page v w \<Longrightarrow> reach c h 3 x v = reach c h 3 x w"
  by (rule reach_cong) (auto simp: same_page_iff eval_nat_numeral le_Suc_eq)

lemma pt_inv_upper:
  assumes inv: "pt_inv s root lv" and p: "frames_ok (v_pmm s')" "\<And>b. page_used (v_pmm s) b \<Longrightarrow> page_used (v_pmm s') b"
    and h: "v_hhdm s' = v_hhdm s"
    and keep: "\<And>x j. 2 \<le> lv x \<Longrightarrow> j < 512 \<Longrightarrow> v_cell s' (cell_at x j) = v_cell s (cell_at x j)"
  shows "pt_inv s' root lv"
  unfolding pt_inv_def h
proof (intro conjI allI impI; (elim conjE)?)
  show "lv (target (v_hhdm s) (v_cell s' (cell_at t i))) = Suc l"
    if "lv t = Suc (Suc l)" "i < 512" "present (v_cell s' (cell_at t i))" for t l i
    using that pt_next [OF inv that(1,2)] keep [of t i] by simp
  fix t t' i i' assume a: "2 \<le> lv t" "2 \<le> lv t'" "i < 512" "i' < 512" "present (v_cell s' (cell_at t i))"
    "present (v_cell s' (cell_at t' i'))"
    "target (v_hhdm s) (v_cell s' (cell_at t i)) = target (v_hhdm s) (v_cell s' (cell_at t' i'))"
  then show "t = t'" "i = i'" using pt_inj [OF inv a(1-4)] keep [OF a(1,3)] keep [OF a(2,4)] by auto
next
  show "frames_ok (v_pmm s')" "lv root = 4" using p(1) pt_root [OF inv] .
  show "\<exists>b. t = page_at (v_hhdm s) b \<and> unat b < 2 ^ 40 \<and> page_used (v_pmm s') b" if "lv t \<noteq> 0" for t
    using pt_page [OF inv that] p(2) by blast
qed

lemma reach_leaf_write:
  assumes inv: "pt_inv s root lv" and y: "lv y = 1" "i < 512"
  shows "lv x = Suc n \<Longrightarrow> reach ((v_cell s)(cell_at y i := e)) (v_hhdm s) n x v = reach (v_cell s) (v_hhdm s) n x v"
proof (induction n arbitrary: x)
  case (Suc n)
  let ?j = "table_index (Suc (Suc n)) v"
  have "x \<noteq> y" using Suc.prems y by auto
  then have "cell_at x ?j \<noteq> cell_at y i" using pt_cell_inj [OF inv _ _ index_less y(2), of x y] Suc.prems y(1) by auto
  then show ?case using Suc.IH pt_next [OF inv Suc.prems index_less] by (simp add: Let_def)
qed simp

lemma leaf_write:
  assumes inv: "pt_inv s root lv" and y: "lv y = 1" "reach (v_cell s) (v_hhdm s) 3 root virt = Some y"
    and s': "s' = s\<lparr>v_cell := (v_cell s)(cell_at y (table_index 1 virt) := e)\<rparr>"
  shows "pt_inv s' root lv" and "walk s' root v = (if same_page v virt then e else walk s root v)"
proof -
  let ?i = "table_index 1 virt" and ?c = "(v_cell s)(cell_at y (table_index 1 virt) := e)"
  have root: "lv root = Suc 3" using pt_root [OF inv] by simp
  have keep: "?c (cell_at x j) = v_cell s (cell_at x j)" if "2 \<le> lv x" "j < 512" for x j
    using pt_cell_inj [OF inv _ _ that(2) index_less, of x y 1 virt] that(1) y(1) by auto
  show "pt_inv s' root lv"
    using keep pt_frames [OF inv] by (intro pt_inv_upper [OF inv]) (simp_all add: s')
  have rs: "reach ?c (v_hhdm s) 3 root v = reach (v_cell s) (v_hhdm s) 3 root v" for v
    by (rule reach_leaf_write [OF inv y(1) index_less root])
  show "walk s' root v = (if same_page v virt then e else walk s root v)"
  proof (cases "reach (v_cell s) (v_hhdm s) 3 root v")
    case None
    then have "\<not> same_page v virt" using y(2) same_page_reach [of v virt] by auto
    then show ?thesis using None rs by (simp add: walk_def walk_from_def s')
  next
    case (Some z)
    have z: "lv z = 1" by (rule reach_level [OF inv root Some])
    have "cell_at z (table_index 1 v) = cell_at y ?i \<longleftrightarrow> same_page v virt"
    proof
      assume "cell_at z (table_index 1 v) = cell_at y ?i"
      then have "z = y" "table_index 1 v = ?i" using pt_cell_inj [OF inv _ _ index_less index_less, of z y] z y(1) by auto
      with reach_inj [OF inv root root Some, of virt] y(2) show "same_page v virt" by (simp add: same_page_iff)
    next
      assume sp: "same_page v virt"
      then have "z = y" using same_page_reach [OF sp, of "v_cell s" "v_hhdm s" root] Some y(2) by simp
      then show "cell_at z (table_index 1 v) = cell_at y ?i" using sp by (simp add: same_page_iff)
    qed
    then show ?thesis using Some rs by (simp add: walk_def walk_from_def s')
  qed
qed

lemma ext_walk: "pt_inv s root lv \<Longrightarrow> pt_ext s lv s' lv' \<Longrightarrow> walk s' root v = walk s root v"
proof -
  assume "pt_inv s root lv" and e: "pt_ext s lv s' lv'"
  then have "lv root = Suc 3" by (simp add: pt_root)
  then show ?thesis using e unfolding pt_ext_def walk_def by simp
qed

lemma leaf_index: "drop_bit 12 virt AND 0x1FF = table_index 1 virt"
  by (simp add: table_index_def)

section \<open>The operations\<close>

lemma map_page_update:
  assumes inv: "pt_inv s (pml4 this) lv" and r: "map_page this phy virt flags s = Returns s'"
  shows "(\<exists>lv'. pt_inv s' (pml4 this) lv') \<and> v_hhdm s' = v_hhdm s \<and> v_list s' = v_list s \<and> v_range s' = v_range s \<and>
    walk s' (pml4 this) v = (if same_page v virt then (phy AND ADDR_MASK) OR flags else walk s (pml4 this) v)"
proof -
  obtain y s1 where l: "last_table s (pml4 this) virt = Returns (y, s1)"
    using r by (cases "last_table s (pml4 this) virt") (auto simp: map_page_def)
  from last_table_ok [OF inv l] obtain lv1 where
    l1: "pt_inv s1 (pml4 this) lv1" "pt_ext s lv s1 lv1" "lv1 y = 1" "reach (v_cell s1) (v_hhdm s1) 3 (pml4 this) virt = Some y"
    by blast
  let ?e = "(phy AND ADDR_MASK) OR flags"
  let ?s2 = "s1\<lparr>v_cell := (v_cell s1)(cell_at y (table_index 1 virt) := ?e)\<rparr>"
  note w = leaf_write [OF l1(1,3,4), of ?s2 ?e, OF refl]
  have s': "s' = ?s2 \<or> s' = ?s2\<lparr>v_invlpg := v_invlpg ?s2 @ [virt]\<rparr>"
    using r l by (auto simp: map_page_def Let_def leaf_index split: if_splits)
  then have same: "v_cell s' = v_cell ?s2" "v_pmm s' = v_pmm ?s2" "v_hhdm s' = v_hhdm ?s2" "v_list s' = v_list ?s2" "v_range s' = v_range ?s2"
    by auto
  have "pt_inv s' (pml4 this) lv1" by (rule pt_inv_upper [OF w(1)]) (simp_all only: same pt_frames [OF w(1)])
  moreover have "walk s' (pml4 this) v = walk ?s2 (pml4 this) v" using same by (simp add: walk_def)
  ultimately show ?thesis using w(2) [of v] ext_walk [OF inv l1(2)] l1(2) same by (auto simp: pt_ext_def)
qed

lemma physical_addr_reads:
  assumes inv: "pt_inv s (pml4 this) lv" and r: "physical_addr this virt s = Returns (p, s')"
  shows "p = walk s (pml4 this) virt AND ADDR_MASK \<and> (\<forall>v. walk s' (pml4 this) v = walk s (pml4 this) v) \<and>
    (\<exists>lv'. pt_inv s' (pml4 this) lv')"
proof -
  obtain y where l: "last_table s (pml4 this) virt = Returns (y, s')"
    and p: "p = v_cell s' (cell_at y (table_index 1 virt)) AND ADDR_MASK"
    using r by (cases "last_table s (pml4 this) virt") (auto simp: physical_addr_def leaf_index)
  from last_table_ok [OF inv l] obtain lv1 where
    l1: "pt_inv s' (pml4 this) lv1" "pt_ext s lv s' lv1" "reach (v_cell s') (v_hhdm s') 3 (pml4 this) virt = Some y" by blast
  then have "p = walk s' (pml4 this) virt AND ADDR_MASK" using p by (simp add: walk_def walk_from_def)
  then show ?thesis using l1(1) ext_walk [OF inv l1(2)] by auto
qed

lemma map_pages_loop_update:
  assumes "pt_inv s (pml4 this) lv" and "map_pages_loop this phy virt flags i n s = Returns s'"
  shows "(\<exists>lv'. pt_inv s' (pml4 this) lv') \<and>
    (\<forall>v. (\<forall>k. i \<le> k \<and> k < n \<longrightarrow> \<not> same_page v (virt + k * 0x1000)) \<longrightarrow> walk s' (pml4 this) v = walk s (pml4 this) v) \<and>
    (\<forall>k v. i \<le> k \<and> k < n \<and> same_page v (virt + k * 0x1000) \<and>
       (\<forall>j. k < j \<and> j < n \<longrightarrow> \<not> same_page v (virt + j * 0x1000)) \<longrightarrow>
       walk s' (pml4 this) v = ((phy + k * 0x1000) AND ADDR_MASK) OR flags)"
  using assms
proof (induction "unat n - unat i" arbitrary: i s lv)
  case 0
  then have "\<not> i < n" by (simp add: word_less_nat_alt)
  then show ?case using 0 by (auto simp: map_pages_loop.simps)
next
  case (Suc d)
  then have less: "i < n" by (simp add: word_less_nat_alt)
  obtain s1 where m: "map_page this (phy + i * 0x1000) (virt + i * 0x1000) flags s = Returns s1"
    and rest: "map_pages_loop this phy virt flags (i + 1) n s1 = Returns s'"
    using Suc.prems(2) less
    by (cases "map_page this (phy + i * 0x1000) (virt + i * 0x1000) flags s") (auto simp: map_pages_loop.simps [of _ _ _ _ i])
  note up = map_page_update [OF Suc.prems(1) m]
  then obtain lv1 where lv1: "pt_inv s1 (pml4 this) lv1" by blast
  have "d = unat n - unat (i + 1)" using Suc.hyps(2) unat_inc [OF less] by simp
  note ih = Suc.hyps(1) [OF this lv1 rest]
  have split: "i \<le> k \<longleftrightarrow> k = i \<or> i + 1 \<le> k" for k using unat_inc [OF less] by (auto simp: word_le_nat_alt word_unat_eq_iff)
  have after: "i + 1 \<le> j \<longleftrightarrow> i < j" for j using unat_inc [OF less] by (auto simp: word_le_nat_alt word_less_nat_alt)
  show ?case
  proof (intro conjI allI impI)
    show "\<exists>lv'. pt_inv s' (pml4 this) lv'" using ih by blast
    show "walk s' (pml4 this) v = walk s (pml4 this) v"
      if "\<forall>k. i \<le> k \<and> k < n \<longrightarrow> \<not> same_page v (virt + k * 0x1000)" for v
      using that ih up [of v] less by (simp add: split)
    show "walk s' (pml4 this) v = ((phy + k * 0x1000) AND ADDR_MASK) OR flags"
      if k: "i \<le> k \<and> k < n \<and> same_page v (virt + k * 0x1000) \<and> (\<forall>j. k < j \<and> j < n \<longrightarrow> \<not> same_page v (virt + j * 0x1000))" for k v
    proof (cases "k = i")
      case True
      then have "walk s' (pml4 this) v = walk s1 (pml4 this) v" using ih k by (simp add: after)
      then show ?thesis using up [of v] k True by simp
    next
      case False
      then have "i + 1 \<le> k" using k split by blast
      then show ?thesis using ih k by blast
    qed
  qed
qed

section \<open>Page faults\<close>

definition covers :: "MappedRange \<Rightarrow> uptr \<Rightarrow> bool" where
  "covers rg virt \<longleftrightarrow> virt \<ge> mr_base rg \<and> virt \<le> mr_base rg + mr_length rg"

lemma addr_to_range_loop_find:
  "dlseg h a xs head \<Longrightarrow> head \<notin> set xs \<Longrightarrow>
   addr_to_range_loop h ranges head virt a = Some (find (\<lambda>r. covers (ranges r) virt) xs)"
proof (induction xs arbitrary: a)
  case Nil
  then show ?case by (simp add: addr_to_range_loop.simps)
next
  case (Cons x xs)
  then have "lh_next (h a) = x" "x \<noteq> head" "addr_to_range_loop h ranges head virt x = Some (find (\<lambda>r. covers (ranges r) virt) xs)"
    by auto
  then show ?case by (subst addr_to_range_loop.simps) (simp add: covers_def Let_def)
qed

lemma addr_to_range_find:
  "ring (v_list s) (range_list_head this) xs \<Longrightarrow>
   addr_to_range this virt s = Some (find (\<lambda>r. covers (v_range s r) virt) xs)"
  unfolding addr_to_range_def by (rule addr_to_range_loop_find) (auto simp: ring_def)

text \<open>A frame that is handed out as data does not disturb the tables.\<close>

lemma data_page:
  assumes inv: "pt_inv s root lv" and b: "unat b < 2 ^ 40" "\<not> page_used (v_pmm s) b"
      "\<And>j. page_used (v_pmm s) j \<Longrightarrow> page_used p j" "frames_ok p"
    and s': "s' = s\<lparr>v_pmm := p, v_cell := zero_page (v_cell s) (page_at (v_hhdm s) b)\<rparr>"
  shows "pt_inv s' root lv" and "pt_ext s lv s' lv"
    and "reach (v_cell s') (v_hhdm s') 3 root v = reach (v_cell s) (v_hhdm s) 3 root v"
proof -
  have keep: "v_cell s' (cell_at x j) = v_cell s (cell_at x j)" if x: "lv x \<noteq> 0" and j: "j < 512" for x j
  proof -
    obtain c where c: "x = page_at (v_hhdm s) c" "unat c < 2 ^ 40" "page_used (v_pmm s) c" using pt_page [OF inv x] by blast
    then have "\<not> cell_at x j - page_at (v_hhdm s) b < 0x1000" using cell_in_page [OF c(2) b(1) j] b(2) by auto
    then show ?thesis by (simp add: s' zero_page_def)
  qed
  show "pt_inv s' root lv" using b keep by (intro pt_inv_upper [OF inv]) (simp_all add: s')
  have r: "lv x = Suc n \<Longrightarrow> reach (v_cell s') (v_hhdm s) n x v = reach (v_cell s) (v_hhdm s) n x v" for x n v
  proof (induction n arbitrary: x)
    case (Suc n)
    then show ?case using keep [of x "table_index (Suc (Suc n)) v"] pt_next [OF inv Suc.prems index_less]
      by (simp add: Let_def)
  qed simp
  have "walk_from (v_cell s') (v_hhdm s) n x v = walk_from (v_cell s) (v_hhdm s) n x v" if "lv x = Suc n" for x n v
    using r [OF that, of v] reach_level [OF inv that, of v] keep by (auto simp: walk_from_def split: option.split)
  then show "pt_ext s lv s' lv" using keep b(3) unfolding pt_ext_def by (simp add: s')
  show "reach (v_cell s') (v_hhdm s') 3 root v = reach (v_cell s) (v_hhdm s) 3 root v"
    using r [of root 3 v] pt_root [OF inv] by (simp add: s')
qed

lemma anon_page:
  assumes inv: "pt_inv s root lv" and y: "lv y = 1" "reach (v_cell s) (v_hhdm s) 3 root virt = Some y"
    and al: "alloc_pages 1 (v_pmm s) = Returns (f, p)"
    and s': "s' = s\<lparr>v_pmm := p, v_cell := (zero_page (v_cell s) (f + v_hhdm s))(cell_at y (table_index 1 virt) := f OR flags)\<rparr>"
  shows "pt_inv s' root lv \<and> (\<exists>b. \<not> page_used (v_pmm s) b \<and> page_used (v_pmm s') b \<and>
    (\<forall>v. walk s' root v = (if same_page v virt then b * 0x1000 OR flags else walk s root v)))"
proof -
  from frames.fresh_frame [OF pt_frames [OF inv] al] obtain b where b: "f = b * 0x1000" "unat b < 2 ^ 40"
    "\<not> page_used (v_pmm s) b" "page_used p b" "\<And>j. page_used (v_pmm s) j \<Longrightarrow> page_used p j" "frames_ok p" by blast
  define s2 where "s2 = s\<lparr>v_pmm := p, v_cell := zero_page (v_cell s) (page_at (v_hhdm s) b)\<rparr>"
  note d = data_page [OF inv b(2,3,5,6) s2_def]
  have s2': "s' = s2\<lparr>v_cell := (v_cell s2)(cell_at y (table_index 1 virt) := b * 0x1000 OR flags)\<rparr>"
    using b(1) by (simp add: s' s2_def page_at_def)
  have ry: "reach (v_cell s2) (v_hhdm s2) 3 root virt = Some y" using d(3) y(2) by simp
  note w = leaf_write [OF d(1) y(1) ry s2']
  have "page_used (v_pmm s') b" using b(4) by (simp add: s')
  then show ?thesis using w ext_walk [OF inv d(2)] b(3) by auto
qed

definition fault_outcome :: "vmm \<Rightarrow> uptr \<Rightarrow> uptr \<Rightarrow> MappedRange option \<Rightarrow> bool \<Rightarrow> vmm \<Rightarrow> bool" where
  "fault_outcome s root virt rg unhandled s' \<longleftrightarrow>
     (case rg of
        None \<Rightarrow> unhandled \<and> (\<forall>v. walk s' root v = walk s root v)
      | Some r \<Rightarrow> \<not> unhandled \<and> (case mr_type r of
          DIRECT \<Rightarrow> \<forall>v. walk s' root v = (if same_page v virt then ((virt - v_hhdm s) AND ADDR_MASK) OR mr_page_flags r
                                          else walk s root v)
        | ANONYMOUS \<Rightarrow> \<exists>b. \<not> page_used (v_pmm s) b \<and> page_used (v_pmm s') b \<and>
             (\<forall>v. walk s' root v = (if same_page v virt then b * 0x1000 OR mr_page_flags r else walk s root v))))"

lemma handle_page_fault_outcome:
  assumes inv: "pt_inv s (pml4 this) lv" and rg: "ring (v_list s) (range_list_head this) xs"
    and r: "handle_page_fault this virt s = Some (Returns (unhandled, s'))"
  shows "(\<exists>lv'. pt_inv s' (pml4 this) lv') \<and>
    (if present (walk s (pml4 this) virt) then unhandled \<and> (\<forall>v. walk s' (pml4 this) v = walk s (pml4 this) v)
     else fault_outcome s (pml4 this) virt (map_option (v_range s) (find (\<lambda>x. covers (v_range s x) virt) xs)) unhandled s')"
proof -
  let ?root = "pml4 this"
  obtain y s1 where l: "last_table s ?root virt = Returns (y, s1)"
    using r by (cases "last_table s ?root virt") (auto simp: handle_page_fault_def)
  from last_table_ok [OF inv l] obtain lv1 where
    l1: "pt_inv s1 ?root lv1" "pt_ext s lv s1 lv1" "lv1 y = 1" "reach (v_cell s1) (v_hhdm s1) 3 ?root virt = Some y" by blast
  have same: "v_hhdm s1 = v_hhdm s" "v_list s1 = v_list s" "v_range s1 = v_range s" using l1(2) by (simp_all add: pt_ext_def)
  have mono: "page_used (v_pmm s) b \<Longrightarrow> page_used (v_pmm s1) b" for b using l1(2) by (simp add: pt_ext_def)
  have w1: "walk s1 ?root v = walk s ?root v" for v by (rule ext_walk [OF inv l1(2)])
  let ?i = "cell_at y (table_index 1 virt)"
  have leaf: "v_cell s1 ?i = walk s ?root virt" using l1(4) w1 [of virt] by (simp add: walk_def walk_from_def)
  have found: "addr_to_range this virt s1 = Some (find (\<lambda>x. covers (v_range s x) virt) xs)"
    using addr_to_range_find [of s1 this xs virt] rg same by simp
  show ?thesis
  proof (cases "present (walk s ?root virt)")
    case True
    then have "unhandled" "s' = s1" using r l leaf by (auto simp: handle_page_fault_def leaf_index Let_def present_def)
    then show ?thesis using True l1(1) w1 by auto
  next
    case np: False
    have run: "handle_page_fault this virt s = (case find (\<lambda>x. covers (v_range s x) virt) xs of
        None \<Rightarrow> Some (Returns (True, s1))
      | Some r \<Rightarrow> (case mr_type (v_range s r) of
          ANONYMOUS \<Rightarrow> Some (obind (alloc_pages 1 (v_pmm s1)) (\<lambda>(new_page, p).
             Returns (False, s1\<lparr>v_pmm := p, v_cell := (zero_page (v_cell s1) (new_page + v_hhdm s))(?i := new_page OR mr_page_flags (v_range s r))\<rparr>)))
        | DIRECT \<Rightarrow> Some (Returns (False, s1\<lparr>v_cell := (v_cell s1)(?i := ((virt - v_hhdm s) AND ADDR_MASK) OR mr_page_flags (v_range s r))\<rparr>))))"
      using l np leaf found same by (simp add: handle_page_fault_def leaf_index Let_def present_def split: option.split MappedRange_Type.split)
    show ?thesis
    proof (cases "find (\<lambda>x. covers (v_range s x) virt) xs")
      case None
      then show ?thesis using run r l1(1) w1 np by (auto simp: fault_outcome_def)
    next
      case (Some x)
      show ?thesis
      proof (cases "mr_type (v_range s x)")
        case DIRECT
        define e where "e = ((virt - v_hhdm s) AND ADDR_MASK) OR mr_page_flags (v_range s x)"
        have s': "\<not> unhandled" "s' = s1\<lparr>v_cell := (v_cell s1)(?i := e)\<rparr>" using run r Some DIRECT by (auto simp: e_def)
        note w = leaf_write [OF l1(1,3,4) s'(2)]
        show ?thesis using np Some DIRECT s'(1) w w1 by (auto simp: fault_outcome_def e_def)
      next
        case ANONYMOUS
        obtain f p where al: "alloc_pages 1 (v_pmm s1) = Returns (f, p)"
          using run r Some ANONYMOUS by (cases "alloc_pages 1 (v_pmm s1)") auto
        have s': "\<not> unhandled" "s' = s1\<lparr>v_pmm := p, v_cell := (zero_page (v_cell s1) (f + v_hhdm s1))(?i := f OR mr_page_flags (v_range s x))\<rparr>"
          using run r Some ANONYMOUS al same(1) by auto
        from anon_page [OF l1(1,3,4) al s'(2)] obtain b where w: "pt_inv s' ?root lv1" "\<not> page_used (v_pmm s1) b"
          "page_used (v_pmm s') b" "\<forall>v. walk s' ?root v = (if same_page v virt then b * 0x1000 OR mr_page_flags (v_range s x) else walk s1 ?root v)"
          by blast
        have "\<not> page_used (v_pmm s) b" using w(2) mono by blast
        with w w1 have "fault_outcome s ?root virt (Some (v_range s x)) unhandled s'"
          using s'(1) ANONYMOUS unfolding fault_outcome_def by (auto intro!: exI [of _ b])
        then show ?thesis using np Some w(1) by auto
      qed
    qed
  qed
qed

section \<open>Mapping memory for a task\<close>

lemma mmap_ring:
  assumes "ring (v_list s) (range_list_head pm) xs" and "fresh \<notin> set (range_list_head pm # xs)" and "fresh \<noteq> 0"
    and "syscall_mmap fresh pm base len prot flags s = (r, base', s')" and "r \<noteq> - ENOSYS"
  shows "ring (v_list s') (range_list_head pm) (fresh # xs)" and "r = base" and "base' = base + align_up 0x1000 len"
    and "v_range s' = (v_range s)(fresh := \<lparr>mr_base = base, mr_length = align_up 0x1000 len,
           mr_page_flags = mmap_page_flags prot, mr_type = ANONYMOUS\<rparr>)"
  using assms klist.rep_front [OF assms(1,2,3)] by (auto simp: syscall_mmap_def Let_def split: if_splits)

lemma alloc_pages_panic_msg: "alloc_pages n p = Panics msg \<Longrightarrow> msg = ''Out of physical memory''"
  by (auto simp: alloc_pages_def Let_def split: prod.splits if_splits)

lemma last_table_panic_msg: "last_table s root virt = Panics msg \<Longrightarrow> msg = ''Out of physical memory''"
proof -
  have step: "page_table_next_level s t i = Panics msg \<Longrightarrow> msg = ''Out of physical memory''" for s t i msg
    by (cases "alloc_pages 1 (v_pmm s)")
       (auto simp: page_table_next_level_def Let_def dest: alloc_pages_panic_msg split: if_splits)
  show "last_table s root virt = Panics msg \<Longrightarrow> msg = ''Out of physical memory''"
    by (auto simp: last_table_def elim!: obind_Panics dest: step)
qed

section \<open>Properties\<close>

declare addr_to_range_loop.simps [code]

text \<open>A pagemap with an empty root table, one range of 8 KiB at 0x1000000 and 14 free frames.\<close>

definition demo_pagemap :: Pagemap where
  "demo_pagemap = \<lparr>pml4 = 0xFFFF800000001000, range_list_head = 16\<rparr>"

definition demo_range :: MappedRange where
  "demo_range = \<lparr>mr_base = 0x1000000, mr_length = 0x2000, mr_page_flags = 7, mr_type = ANONYMOUS\<rparr>"

definition demo_vmm :: vmm where
  "demo_vmm = \<lparr>v_pmm = demo_pmm\<lparr>pmem := (\<lambda>_. 0)(0 := 3)\<rparr>, v_cell = (\<lambda>_. 0), v_hhdm = 0xFFFF800000000000,
     v_list = list_add (list_init (\<lambda>_. \<lparr>lh_next = 0, lh_prev = 0\<rparr>) 16) 16 32,
     v_range = (\<lambda>_. demo_range), v_cr3 = 0, v_invlpg = []\<rparr>"

definition demo_levels :: "uptr \<Rightarrow> nat" where
  "demo_levels = (\<lambda>_. 0)(0xFFFF800000001000 := 4)"

lemma demo_frames: "frames_ok (v_pmm demo_vmm)"
  by (simp add: frames_ok_def demo_vmm_def demo_pmm_def pmm_wf_def page_used_def bitmap_get_def)

lemma demo_pt_inv: "pt_inv demo_vmm (pml4 demo_pagemap) demo_levels"
proof -
  have "\<exists>b. 0xFFFF800000001000 = page_at (v_hhdm demo_vmm) b \<and> unat b < 2 ^ 40 \<and> page_used (v_pmm demo_vmm) b"
    by (rule exI [of _ 1]) (simp add: page_at_def demo_vmm_def demo_pmm_def page_used_def bitmap_get_def)
  then show ?thesis using demo_frames
    unfolding pt_inv_def by (auto simp: demo_levels_def demo_pagemap_def demo_vmm_def present_def split: if_splits)
qed

lemma demo_ring: "ring (v_list demo_vmm) (range_list_head demo_pagemap) [32]"
  using ring_add [OF ring_init, of 16 32 "\<lambda>_. \<lparr>lh_next = 0, lh_prev = 0\<rparr>"] by (simp add: demo_vmm_def demo_pagemap_def)

text \<open>C1. \<^verbatim>\<open>map_page\<close> is a point update of the address space: afterwards the MMU finds the new entry for
  every address of the page and for every other address what it found before, although
  the call allocates and links missing tables; it panics only when physical memory is exhausted.\<close>

theorem map_page_correct:
  assumes "pt_inv s (pml4 this) lv"
  shows "case map_page this phy virt flags s of
      Returns s' \<Rightarrow> (\<exists>lv'. pt_inv s' (pml4 this) lv') \<and>
        (\<forall>v. walk s' (pml4 this) v = (if same_page v virt then (phy AND ADDR_MASK) OR flags else walk s (pml4 this) v))
    | Panics msg \<Rightarrow> msg = ''Out of physical memory''"
proof (cases "map_page this phy virt flags s")
  case (Returns s')
  then show ?thesis using map_page_update [OF assms Returns] by auto
next
  case (Panics msg)
  then show ?thesis by (auto simp: map_page_def Let_def elim!: obind_Panics dest: last_table_panic_msg)
qed

theorem map_page_correct_witness:
  "\<exists>s'. map_page demo_pagemap 0x5000 0x400000 3 demo_vmm = Returns s' \<and> walk s' (pml4 demo_pagemap) 0x400123 = 0x5003 \<and>
        walk s' (pml4 demo_pagemap) 0x401000 = walk demo_vmm (pml4 demo_pagemap) 0x401000"
proof -
  have run: "case map_page demo_pagemap 0x5000 0x400000 3 demo_vmm of Returns _ \<Rightarrow> True | Panics _ \<Rightarrow> False" by code_simp
  have pages: "same_page 0x400123 0x400000" "\<not> same_page 0x401000 0x400000" by code_simp+
  show ?thesis using run pages map_page_correct [OF demo_pt_inv, where phy = "0x5000" and virt = "0x400000" and flags = 3]
    by (cases "map_page demo_pagemap 0x5000 0x400000 3 demo_vmm") (auto simp: ADDR_MASK_def)
qed

text \<open>\<^verbatim>\<open>map_page\<close> followed by \<^verbatim>\<open>physical_addr\<close>: every address of the page translates to the frame it
  was mapped to, whatever the flags outside the address bits, and the query changes no translation.\<close>

theorem map_then_physical:
  assumes "pt_inv s (pml4 this) lv" and "flags AND ADDR_MASK = 0" and "same_page v virt"
    and "map_page this phy virt flags s = Returns s'" and "physical_addr this v s' = Returns (p, s'')"
  shows "p = phy AND ADDR_MASK \<and> (\<forall>w. walk s'' (pml4 this) w = walk s' (pml4 this) w)"
proof -
  from map_page_update [OF assms(1,4), of v] obtain lv' where
    lv': "pt_inv s' (pml4 this) lv'" "walk s' (pml4 this) v = (phy AND ADDR_MASK) OR flags" using assms(3) by auto
  have "((phy AND ADDR_MASK) OR flags) AND ADDR_MASK = (phy AND ADDR_MASK) OR (flags AND ADDR_MASK)"
    by (intro bit_word_eqI) (auto simp: bit_simps)
  then show ?thesis using physical_addr_reads [OF lv'(1) assms(5)] lv'(2) assms(2) by simp
qed

theorem map_then_physical_witness:
  "\<exists>s' p s''. map_page demo_pagemap 0x5000 0x400000 3 demo_vmm = Returns s' \<and>
     physical_addr demo_pagemap 0x400123 s' = Returns (p, s'') \<and> p = 0x5000"
proof -
  have run: "case map_page demo_pagemap 0x5000 0x400000 3 demo_vmm of Panics _ \<Rightarrow> False
      | Returns s' \<Rightarrow> (case physical_addr demo_pagemap 0x400123 s' of Returns _ \<Rightarrow> True | Panics _ \<Rightarrow> False)" by code_simp
  then obtain s' where s': "map_page demo_pagemap 0x5000 0x400000 3 demo_vmm = Returns s'"
    by (cases "map_page demo_pagemap 0x5000 0x400000 3 demo_vmm") auto
  then obtain p s'' where p: "physical_addr demo_pagemap 0x400123 s' = Returns (p, s'')"
    using run by (cases "physical_addr demo_pagemap 0x400123 s'") auto
  have "same_page 0x400123 0x400000" "(3 :: u64) AND ADDR_MASK = 0" by code_simp+
  from map_then_physical [OF demo_pt_inv this(2,1) s' p] s' p show ?thesis by (simp add: ADDR_MASK_def)
qed

text \<open>C2. \<^verbatim>\<open>handle_page_fault\<close> on a pagemap whose ranges form a list: the call returns; a fault on a present
  page and a fault outside all ranges are reported as unhandled and change no translation;
  otherwise the first range that covers the address decides: an anonymous one maps a frame that was
  free, a direct one the frame at the direct-map offset, each with the flags of the range and
  for that page only.\<close>

theorem handle_page_fault_correct:
  assumes "pt_inv s (pml4 this) lv" and "ring (v_list s) (range_list_head this) xs"
  shows "case handle_page_fault this virt s of
      None \<Rightarrow> False
    | Some (Panics msg) \<Rightarrow> msg = ''Out of physical memory''
    | Some (Returns (unhandled, s')) \<Rightarrow> (\<exists>lv'. pt_inv s' (pml4 this) lv') \<and>
        (if present (walk s (pml4 this) virt) then unhandled \<and> (\<forall>v. walk s' (pml4 this) v = walk s (pml4 this) v)
         else fault_outcome s (pml4 this) virt (map_option (v_range s) (find (\<lambda>x. covers (v_range s x) virt) xs)) unhandled s')"
proof (cases "handle_page_fault this virt s")
  case None
  then obtain y s1 where l: "last_table s (pml4 this) virt = Returns (y, s1)"
    by (cases "last_table s (pml4 this) virt") (auto simp: handle_page_fault_def)
  from last_table_ok [OF assms(1) l] obtain lv1 where "pt_ext s lv s1 lv1" by blast
  then have "ring (v_list s1) (range_list_head this) xs" using assms(2) by (simp add: pt_ext_def)
  then show ?thesis using None l addr_to_range_find
    by (auto simp: handle_page_fault_def Let_def split: option.splits MappedRange_Type.splits if_splits)
next
  case (Some r)
  show ?thesis
  proof (cases r)
    case (Returns x)
    obtain unhandled s' where x: "x = (unhandled, s')" by (cases x)
    show ?thesis using handle_page_fault_outcome [OF assms, of virt unhandled s'] Some Returns x by simp
  next
    case (Panics msg)
    then show ?thesis using Some
      by (auto simp: handle_page_fault_def Let_def elim!: obind_Panics dest: last_table_panic_msg alloc_pages_panic_msg
          split: outcome.splits option.splits MappedRange_Type.splits if_splits)
  qed
qed

theorem handle_page_fault_correct_witness:
  "\<exists>s'. handle_page_fault demo_pagemap 0x1001234 demo_vmm = Some (Returns (False, s')) \<and>
     (\<exists>b. \<not> page_used (v_pmm demo_vmm) b \<and> page_used (v_pmm s') b \<and> walk s' (pml4 demo_pagemap) 0x1001000 = b * 0x1000 OR 7)"
proof -
  have run: "case handle_page_fault demo_pagemap 0x1001234 demo_vmm of Some (Returns (u, s')) \<Rightarrow> \<not> u | _ \<Rightarrow> False"
    by code_simp
  have np: "\<not> present (walk demo_vmm (pml4 demo_pagemap) 0x1001234)" by code_simp
  have sp: "same_page 0x1001000 0x1001234" by code_simp
  obtain s' where s': "handle_page_fault demo_pagemap 0x1001234 demo_vmm = Some (Returns (False, s'))"
    using run by (auto split: option.splits outcome.splits)
  have rg: "find (\<lambda>x. covers (v_range demo_vmm x) 0x1001234) [32] = Some 32" "v_range demo_vmm 32 = demo_range" by code_simp+
  show ?thesis using handle_page_fault_correct [OF demo_pt_inv demo_ring, of "0x1001234"] s' np sp rg
    by (auto simp: fault_outcome_def demo_range_def)
qed

text \<open>\<^verbatim>\<open>map_pages\<close> maps exactly the pages from \<open>virt\<close> on, the \<open>k\<close>-th one to the \<open>k\<close>-th frame from
  \<open>phy\<close> (the last one wins where the range wraps onto itself), and keeps every other translation.\<close>

theorem map_pages_correct:
  assumes "pt_inv s (pml4 this) lv" and "map_pages this phy virt sz flags s = Returns s'"
    and "n = align_up 0x1000 sz div 0x1000"
  shows "(\<forall>v. (\<forall>k < n. \<not> same_page v (virt + k * 0x1000)) \<longrightarrow> walk s' (pml4 this) v = walk s (pml4 this) v) \<and>
    (\<forall>k v. k < n \<and> same_page v (virt + k * 0x1000) \<and> (\<forall>j. k < j \<and> j < n \<longrightarrow> \<not> same_page v (virt + j * 0x1000)) \<longrightarrow>
       walk s' (pml4 this) v = ((phy + k * 0x1000) AND ADDR_MASK) OR flags)"
  using map_pages_loop_update [OF assms(1), of phy virt flags 0 n s'] assms(2,3) by (simp add: map_pages_def)

theorem map_pages_correct_witness:
  "\<exists>s'. map_pages demo_pagemap 0x5000 0x400000 0x1001 3 demo_vmm = Returns s' \<and>
     walk s' (pml4 demo_pagemap) 0x401000 = 0x6003 \<and> walk s' (pml4 demo_pagemap) 0x402000 = walk demo_vmm (pml4 demo_pagemap) 0x402000"
proof -
  have run: "case map_pages demo_pagemap 0x5000 0x400000 0x1001 3 demo_vmm of Returns _ \<Rightarrow> True | Panics _ \<Rightarrow> False" by code_simp
  then obtain s' where s': "map_pages demo_pagemap 0x5000 0x400000 0x1001 3 demo_vmm = Returns s'"
    by (cases "map_pages demo_pagemap 0x5000 0x400000 0x1001 3 demo_vmm") auto
  have n: "2 = align_up 0x1000 (0x1001 :: usize) div 0x1000" by (simp add: align_up_def)
  have lt: "k < 2 \<longleftrightarrow> k = 0 \<or> k = 1" for k :: usize
    by (auto simp: word_less_nat_alt word_unat_eq_iff)
  have sp: "same_page 0x401000 (0x400000 + 1 * 0x1000)" "\<not> same_page 0x402000 (0x400000 + 0 * 0x1000)"
    "\<not> same_page 0x402000 (0x400000 + 1 * 0x1000)" by code_simp+
  note c = map_pages_correct [OF demo_pt_inv s' n]
  have "walk s' (pml4 demo_pagemap) 0x401000 = ((0x5000 + 1 * 0x1000) AND ADDR_MASK) OR 3"
  proof (rule conjunct2 [OF c, rule_format], intro conjI allI impI)
    show "(1 :: usize) < 2" "same_page 0x401000 (0x400000 + 1 * 0x1000)" using sp(1) by (simp_all add: lt)
    show "\<not> same_page 0x401000 (0x400000 + j * 0x1000)" if "1 < j \<and> j < 2" for j using that by (auto simp: lt)
  qed
  moreover have "walk s' (pml4 demo_pagemap) 0x402000 = walk demo_vmm (pml4 demo_pagemap) 0x402000"
  proof (rule conjunct1 [OF c, rule_format])
    show "\<not> same_page 0x402000 (0x400000 + k * 0x1000)" if "k < 2" for k
      using that sp(2,3) unfolding lt by (elim disjE) simp_all
  qed
  ultimately show ?thesis using s' by (simp add: ADDR_MASK_def)
qed

text \<open>C8. A successful \<^verbatim>\<open>mmap\<close> returns the task's next free address, moves that address past the mapping, and
  puts the new range first in the list, so that every address of the mapping is found in it; two
  mappings made in a row are adjacent and do not overlap.\<close>

theorem mmap_correct:
  assumes "ring (v_list s) (range_list_head pm) xs" and "fresh \<notin> set (range_list_head pm # xs)" and "fresh \<noteq> 0"
    and "syscall_mmap fresh pm base len prot flags s = (r, base', s')" and "r \<noteq> - ENOSYS"
    and "unat base + unat (align_up 0x1000 len) < 2 ^ 64"
  shows "r = base \<and> base' = base + align_up 0x1000 len \<and> base \<le> base' \<and>
    ring (v_list s') (range_list_head pm) (fresh # xs) \<and>
    (\<forall>virt. base \<le> virt \<and> virt < base' \<longrightarrow> addr_to_range pm virt s' = Some (Some fresh)) \<and>
    (\<forall>virt. \<not> (base \<le> virt \<and> virt \<le> base') \<longrightarrow> addr_to_range pm virt s' = addr_to_range pm virt s)"
proof -
  note m = mmap_ring [OF assms(1-5)]
  have le: "base \<le> base'" using m(3) assms(6) by (simp add: word_le_nat_alt unat_add_nowrap)
  have at: "addr_to_range pm virt s' = (if base \<le> virt \<and> virt \<le> base' then Some (Some fresh) else addr_to_range pm virt s)" for virt
  proof -
    have "find (\<lambda>r. covers (v_range s' r) virt) xs = find (\<lambda>r. covers (v_range s r) virt) xs"
      using assms(2) m(4) by (intro find_cong) auto
    then show ?thesis using m addr_to_range_find [OF m(1), of virt] addr_to_range_find [OF assms(1), of virt]
      by (simp add: covers_def)
  qed
  then show ?thesis using m(1-3) le by auto
qed

theorem mmap_correct_witness:
  "\<exists>s'. syscall_mmap 48 demo_pagemap 0x80000000000 0x1234 1 9 demo_vmm = (0x80000000000, 0x80000002000, s') \<and>
     addr_to_range demo_pagemap 0x80000001FFF s' = Some (Some 48)"
proof -
  obtain s' where s': "syscall_mmap 48 demo_pagemap 0x80000000000 0x1234 1 9 demo_vmm = (0x80000000000, 0x80000002000, s')"
    by (simp add: syscall_mmap_def MAP_PRIVATE_def MAP_SHARED_def MAP_ANONYMOUS_def align_up_def Let_def)
  have "(0x80000000000 :: isize) \<noteq> - ENOSYS" by (simp add: ENOSYS_def)
  moreover have "48 \<notin> set (range_list_head demo_pagemap # [32 :: uptr])" by (simp add: demo_pagemap_def)
  ultimately show ?thesis using mmap_correct [OF demo_ring _ _ s'] s' by (simp add: align_up_def)
qed

text \<open>The range lookup accepts the address one past the end of a range: with a single range a fault at
  \<^verbatim>\<open>base + length\<close>, outside the mapping, is treated as inside it.\<close>

theorem addr_to_range_end_inclusive:
  assumes "ring (v_list s) (range_list_head this) [x]"
    and "unat (mr_base (v_range s x)) + unat (mr_length (v_range s x)) < 2 ^ 64"
  shows "addr_to_range this (mr_base (v_range s x) + mr_length (v_range s x)) s = Some (Some x)"
  using addr_to_range_find [OF assms(1)] assms(2) by (simp add: covers_def word_le_nat_alt unat_add_nowrap)

theorem addr_to_range_end_inclusive_witness:
  "addr_to_range demo_pagemap 0x1002000 demo_vmm = Some (Some 32)"
proof -
  have r: "v_range demo_vmm 32 = demo_range" by (simp add: demo_vmm_def)
  show ?thesis using addr_to_range_end_inclusive [OF demo_ring] by (simp add: r demo_range_def)
qed

text \<open>The kernel heap range covers the whole heap the kernel sets up one byte further on, only because
  of the inclusive end: with a half-open range the last byte of the heap would be outside.\<close>

theorem heap_range_covers_heap:
  "(\<forall>virt. covers kernel_heap_range virt \<longleftrightarrow> heap_begin \<le> virt \<and> virt \<le> heap_begin + heap_size) \<and>
   NOT 0 - 1073741824 - 4096 + 1 = heap_begin + 1 \<and>
   (NOT 0 - 1073741824 - 4096 + 1) + 1073741824 - 1 = heap_begin + heap_size"
  by (simp add: covers_def kernel_heap_range_def heap_begin_def heap_size_def)

end
