(* ===== verification/Hash_Map.thy ===== *)
theory Hash_Map
  imports Fish_Prelude "HOL-Library.Multiset" "HOL-Library.Monad_Syntax"
begin

text \<open>
  The open-addressing hash map \<^verbatim>\<open>klib::HashMap\<close> of \<^verbatim>\<open>src/klib/hashmap.hpp\<close>. A key is
  the bytes of the C string before its terminator (the map stores a \<^verbatim>\<open>strdup\<close> of it
  and compares with \<^verbatim>\<open>strcmp\<close>), a slot of \<^verbatim>\<open>m_array\<close> is empty, the deleted marker or
  an entry. \<^verbatim>\<open>insert\<close> and \<^verbatim>\<open>grow\<close> call each other; the nesting is bounded by fuel, and
  running out of it is \<open>None\<close>. \<open>insert_live\<close> shows that one nested level is always
  enough and that no entry is lost. The locale \<open>key_store\<close> is the contract the file
  system's directories rely on.
\<close>

unbundle bit_operations_syntax

section \<open>Definitions\<close>

type_synonym key = "u8 list"

datatype 'v slot = Empty | Deleted | Entry key 'v

record 'v HashMap =
  m_array :: "'v slot list"
  m_capacity :: usize
  m_size :: usize

text \<open>\<^verbatim>\<open>char\<close> is signed: the byte is sign-extended before the exclusive or.\<close>

definition hash_step :: "u8 \<Rightarrow> u32 \<Rightarrow> u32" where
  "hash_step c h = (push_bit 5 h + h) XOR scast c"

definition hash :: "key \<Rightarrow> u32" where
  "hash str = fold hash_step str 5381"

definition hm_new :: "usize \<Rightarrow> 'v HashMap" where
  "hm_new initial_capacity =
     \<lparr>m_array = replicate (unat initial_capacity) Empty, m_capacity = initial_capacity, m_size = 0\<rparr>"

definition load_percentage :: "'v HashMap \<Rightarrow> usize" where
  "load_percentage m = (m_size m * 100) div m_capacity m"

definition first_index :: "usize \<Rightarrow> key \<Rightarrow> usize" where
  "first_index capacity key = ucast (hash key) mod capacity"

text \<open>The values of \<^verbatim>\<open>attempt\<close> in the loops of \<^verbatim>\<open>insert\<close>, \<^verbatim>\<open>get\<close> and \<^verbatim>\<open>erase\<close>.\<close>

definition attempts :: "usize \<Rightarrow> key \<Rightarrow> nat list" where
  "attempts capacity key =
     map (\<lambda>i. unat ((of_nat i + first_index capacity key) mod capacity)) [0..<unat capacity]"

fun insert_loop :: "key \<Rightarrow> 'v \<Rightarrow> nat list \<Rightarrow> 'v slot list \<Rightarrow> 'v slot list" where
  "insert_loop key v [] arr = arr"
| "insert_loop key v (a # as) arr =
     (case arr ! a of
        Deleted \<Rightarrow> insert_loop key v as arr
      | Empty \<Rightarrow> arr[a := Entry key v]
      | Entry _ _ \<Rightarrow> insert_loop key v as arr)"

definition insert_with ::
    "('v HashMap \<Rightarrow> 'v HashMap option) \<Rightarrow> 'v HashMap \<Rightarrow> key \<Rightarrow> 'v \<Rightarrow> 'v HashMap option" where
  "insert_with gr m key v =
     do {
       let m1 = m\<lparr>m_size := m_size m + 1\<rparr>;
       m2 \<leftarrow> (if load_percentage m1 \<ge> 75 then gr m1 else Some m1);
       Some (m2\<lparr>m_array := insert_loop key v (attempts (m_capacity m2) key) (m_array m2)\<rparr>)
     }"

fun reinsert :: "('v HashMap \<Rightarrow> key \<Rightarrow> 'v \<Rightarrow> 'v HashMap option) \<Rightarrow> 'v slot list \<Rightarrow> 'v HashMap \<Rightarrow> 'v HashMap option" where
  "reinsert ins [] m = Some m"
| "reinsert ins (s # ss) m =
     (case s of
        Entry k v \<Rightarrow> do { m' \<leftarrow> ins m k v; reinsert ins ss m' }
      | _ \<Rightarrow> reinsert ins ss m)"

definition grow_with ::
    "('v HashMap \<Rightarrow> key \<Rightarrow> 'v \<Rightarrow> 'v HashMap option) \<Rightarrow> 'v HashMap \<Rightarrow> 'v HashMap option" where
  "grow_with ins m =
     (let capacity = m_capacity m * 2
      in reinsert ins (m_array m)
           \<lparr>m_array = replicate (unat capacity) Empty, m_capacity = capacity, m_size = 0\<rparr>)"

primrec insert_fuel :: "nat \<Rightarrow> 'v HashMap \<Rightarrow> key \<Rightarrow> 'v \<Rightarrow> 'v HashMap option" where
  "insert_fuel 0 = insert_with (\<lambda>m. None)"
| "insert_fuel (Suc n) = insert_with (grow_with (insert_fuel n))"

definition hm_grow :: "'v HashMap \<Rightarrow> 'v HashMap option" where
  "hm_grow = grow_with (insert_fuel 1)"

definition hm_insert :: "'v HashMap \<Rightarrow> key \<Rightarrow> 'v \<Rightarrow> 'v HashMap option" where
  "hm_insert = insert_fuel 1"

fun get_loop :: "key \<Rightarrow> nat list \<Rightarrow> 'v slot list \<Rightarrow> 'v option" where
  "get_loop key [] arr = None"
| "get_loop key (a # as) arr =
     (case arr ! a of
        Entry k v \<Rightarrow> if k = key then Some v else get_loop key as arr
      | _ \<Rightarrow> get_loop key as arr)"

definition hm_get :: "'v HashMap \<Rightarrow> key \<Rightarrow> 'v option" where
  "hm_get m key = get_loop key (attempts (m_capacity m) key) (m_array m)"

fun erase_loop :: "key \<Rightarrow> nat list \<Rightarrow> 'v slot list \<Rightarrow> 'v slot list" where
  "erase_loop key [] arr = arr"
| "erase_loop key (a # as) arr =
     (case arr ! a of
        Entry k v \<Rightarrow> erase_loop key as (if k = key then arr[a := Deleted] else arr)
      | _ \<Rightarrow> erase_loop key as arr)"

definition hm_erase :: "'v HashMap \<Rightarrow> key \<Rightarrow> 'v HashMap" where
  "hm_erase m key = m\<lparr>m_array := erase_loop key (attempts (m_capacity m) key) (m_array m)\<rparr>"

definition hm_for_each :: "(key \<Rightarrow> 'v \<Rightarrow> 's \<Rightarrow> 's) \<Rightarrow> 'v HashMap \<Rightarrow> 's \<Rightarrow> 's" where
  "hm_for_each func m s =
     fold (\<lambda>sl s. case sl of Entry k v \<Rightarrow> func k v s | _ \<Rightarrow> s) (m_array m) s"

section \<open>Abstraction and invariant\<close>

fun slot_entry :: "'v slot \<Rightarrow> (key \<times> 'v) multiset" where
  "slot_entry (Entry k v) = {#(k, v)#}"
| "slot_entry _ = {#}"

text \<open>The live entries, with multiplicity.\<close>

definition live :: "'v HashMap \<Rightarrow> (key \<times> 'v) multiset" where
  "live m = (\<Sum>s\<leftarrow>m_array m. slot_entry s)"

definition occupied :: "'v slot list \<Rightarrow> nat" where
  "occupied arr = length (filter (\<lambda>s. s \<noteq> Empty) arr)"

text \<open>No empty slot precedes an entry on the probe sequence of its key.\<close>

definition probe_ok :: "usize \<Rightarrow> 'v slot list \<Rightarrow> bool" where
  "probe_ok capacity arr \<longleftrightarrow>
     (\<forall>k v as a bs. attempts capacity k = as @ a # bs \<and> arr ! a = Entry k v \<longrightarrow> (\<forall>b\<in>set as. arr ! b \<noteq> Empty))"

definition hm_wf :: "'v HashMap \<Rightarrow> bool" where
  "hm_wf m \<longleftrightarrow>
     length (m_array m) = unat (m_capacity m) \<and> 0 < unat (m_capacity m) \<and> unat (m_capacity m) < 2 ^ 56 \<and>
     occupied (m_array m) \<le> unat (m_size m) + 1 \<and> unat (m_size m) * 100 < 75 * unat (m_capacity m) \<and>
     probe_ok (m_capacity m) (m_array m)"

text \<open>The next insertion cannot exhaust the 56 bits the invariant allows the capacity.\<close>

definition hm_room :: "'v HashMap \<Rightarrow> bool" where
  "hm_room m \<longleftrightarrow> unat (m_capacity m) < 2 ^ 55"

definition keys_distinct :: "'v HashMap \<Rightarrow> bool" where
  "keys_distinct m \<longleftrightarrow> (\<forall>k. size (filter_mset (\<lambda>e. fst e = k) (live m)) \<le> 1)"

section \<open>The contract of a keyed store\<close>

locale key_store =
  fixes inv :: "'m \<Rightarrow> bool"
    and room :: "'m \<Rightarrow> bool"
    and look :: "'m \<Rightarrow> 'k \<Rightarrow> 'v option"
    and ins :: "'m \<Rightarrow> 'k \<Rightarrow> 'v \<Rightarrow> 'm option"
    and del :: "'m \<Rightarrow> 'k \<Rightarrow> 'm"
  assumes ins_fresh: "inv m \<Longrightarrow> room m \<Longrightarrow> look m k = None \<Longrightarrow>
      \<exists>m'. ins m k v = Some m' \<and> inv m' \<and> look m' = (look m)(k \<mapsto> v)"
    and del_inv: "inv m \<Longrightarrow> inv (del m k)"
    and del_room: "room m \<Longrightarrow> room (del m k)"
    and look_del: "inv m \<Longrightarrow> look (del m k) = (look m)(k := None)"
begin

text \<open>Erase followed by insert is the update of a map.\<close>

lemma replace_entry:
  assumes "inv m" and "room m"
  shows "\<exists>m'. ins (del m k) k v = Some m' \<and> inv m' \<and> look m' = (look m)(k \<mapsto> v)"
  using ins_fresh [OF del_inv [OF assms(1)] del_room [OF assms(2)], of k k v] look_del [OF assms(1)]
  by simp

end

section \<open>Probe sequences\<close>

lemma attempts_rotate:
  assumes "0 < unat cap" and "unat cap < 2 ^ 63"
  shows "attempts cap k = map (\<lambda>i. (i + unat (first_index cap k)) mod unat cap) [0..<unat cap]"
proof -
  have f: "unat (first_index cap k) < unat cap"
    using assms(1) by (simp add: first_index_def unat_mod)
  have "unat ((of_nat i + first_index cap k) mod cap) = (i + unat (first_index cap k)) mod unat cap"
    if "i < unat cap" for i
  proof -
    have i: "unat (of_nat i :: usize) = i" using that assms(2) by (intro unat_of_nat_small) simp
    have "unat ((of_nat i :: usize) + first_index cap k) = i + unat (first_index cap k)"
      using that assms(2) f i by (subst unat_add_nowrap) auto
    then show ?thesis by (simp add: unat_mod)
  qed
  then show ?thesis by (simp add: attempts_def)
qed

lemma attempts_perm:
  assumes "0 < unat cap" and "unat cap < 2 ^ 63"
  shows "set (attempts cap k) = {..<unat cap}" and "distinct (attempts cap k)"
proof -
  let ?n = "unat cap" and ?f = "unat (first_index cap k)"
  have inj: "inj_on (\<lambda>i. (i + ?f) mod ?n) {..<?n}"
  proof (rule linorder_inj_onI)
    fix x y assume xy: "x < y" "x \<in> {..<?n}" "y \<in> {..<?n}"
    have "\<not> ?n dvd y - x" using xy by (auto dest: dvd_imp_le)
    then show "(x + ?f) mod ?n \<noteq> (y + ?f) mod ?n"
      using xy mod_eq_dvd_iff_nat [of "x + ?f" "y + ?f" ?n] by auto
  qed auto
  have "(\<lambda>i. (i + ?f) mod ?n) ` {..<?n} \<subseteq> {..<?n}" using assms(1) by auto
  with inj have "(\<lambda>i. (i + ?f) mod ?n) ` {..<?n} = {..<?n}"
    by (simp add: endo_inj_surj)
  then show "set (attempts cap k) = {..<?n}"
    by (simp add: attempts_rotate [OF assms] lessThan_atLeast0)
  show "distinct (attempts cap k)"
    using inj by (simp add: attempts_rotate [OF assms] distinct_map lessThan_atLeast0)
qed

lemma insert_loop_split:
  "\<exists>a\<in>set as. arr ! a = Empty \<Longrightarrow>
   \<exists>pre a post. as = pre @ a # post \<and> arr ! a = Empty \<and> (\<forall>b\<in>set pre. arr ! b \<noteq> Empty) \<and>
     insert_loop k v as arr = arr[a := Entry k v]"
proof (induction as)
  case (Cons a as)
  show ?case
  proof (cases "arr ! a = Empty")
    case True
    then show ?thesis by (intro exI [of _ "[]"] exI [of _ a] exI [of _ as]) simp
  next
    case False
    then have "\<exists>a\<in>set as. arr ! a = Empty" using Cons.prems by auto
    then obtain pre x post where "as = pre @ x # post" "arr ! x = Empty" "\<forall>b\<in>set pre. arr ! b \<noteq> Empty"
      "insert_loop k v as arr = arr[x := Entry k v]" using Cons.IH by blast
    moreover have "insert_loop k v (a # as) arr = insert_loop k v as arr"
      using False by (cases "arr ! a") auto
    ultimately show ?thesis using False
      by (intro exI [of _ "a # pre"] exI [of _ x] exI [of _ post]) simp
  qed
qed simp

lemma get_loop_None:
  "get_loop k as arr = None \<longleftrightarrow> (\<forall>a\<in>set as. \<forall>v. arr ! a \<noteq> Entry k v)"
  by (induction as) (auto split: slot.splits)

lemma get_loop_Some:
  "get_loop k as arr = Some v \<longleftrightarrow>
   (\<exists>pre a post. as = pre @ a # post \<and> arr ! a = Entry k v \<and> (\<forall>b\<in>set pre. \<forall>w. arr ! b \<noteq> Entry k w))"
  (is "_ \<longleftrightarrow> ?R as")
proof (induction as)
  case (Cons a as)
  have skip: "?R (a # as) \<longleftrightarrow> ?R as" if "\<forall>w. arr ! a \<noteq> Entry k w"
  proof
    assume "?R as"
    then obtain pre b post where "as = pre @ b # post" "arr ! b = Entry k v"
      "\<forall>b\<in>set pre. \<forall>w. arr ! b \<noteq> Entry k w" by blast
    with that show "?R (a # as)" by (intro exI [of _ "a # pre"] exI [of _ b] exI [of _ post]) simp
  qed (use that in \<open>auto simp: Cons_eq_append_conv, blast\<close>)
  show ?case
  proof (cases "\<exists>w. arr ! a = Entry k w")
    case True
    then have "?R (a # as)" if "arr ! a = Entry k v"
      using that by (intro exI [of _ "[]"] exI [of _ a] exI [of _ as]) simp
    with True show ?thesis by (auto simp: Cons_eq_append_conv)
  next
    case False
    then have "get_loop k (a # as) arr = get_loop k as arr" by (auto split: slot.splits)
    with False skip Cons.IH show ?thesis by auto
  qed
qed simp

lemma erase_loop_nth:
  "distinct as \<Longrightarrow> \<forall>a\<in>set as. a < length arr \<Longrightarrow>
   length (erase_loop k as arr) = length arr \<and>
   (\<forall>i < length arr. erase_loop k as arr ! i =
      (if i \<in> set as \<and> (\<exists>v. arr ! i = Entry k v) then Deleted else arr ! i))"
proof (induction as arbitrary: arr)
  case (Cons a as)
  let ?arr = "case arr ! a of Entry k' v \<Rightarrow> if k' = k then arr[a := Deleted] else arr | _ \<Rightarrow> arr"
  have step: "erase_loop k (a # as) arr = erase_loop k as ?arr" by (auto split: slot.splits)
  have len: "length ?arr = length arr" by (auto split: slot.splits)
  have "\<forall>i < length arr. ?arr ! i = (if i = a \<and> (\<exists>v. arr ! i = Entry k v) then Deleted else arr ! i)"
    by (auto simp: nth_list_update split: slot.splits)
  moreover have "length (erase_loop k as ?arr) = length ?arr \<and>
     (\<forall>i < length ?arr. erase_loop k as ?arr ! i =
        (if i \<in> set as \<and> (\<exists>v. ?arr ! i = Entry k v) then Deleted else ?arr ! i))"
    using Cons.prems len by (intro Cons.IH) auto
  ultimately show ?case using Cons.prems(1) unfolding step len by auto
qed simp

section \<open>Placing an entry\<close>

lemma live_update:
  "a < length arr \<Longrightarrow> arr ! a = Empty \<Longrightarrow>
   (\<Sum>s\<leftarrow>arr[a := Entry k v]. slot_entry s) = add_mset (k, v) (\<Sum>s\<leftarrow>arr. slot_entry s)"
  by (simp add: upd_conv_take_nth_drop, subst (3) id_take_nth_drop [of a arr], simp_all)

lemma occupied_update:
  "a < length arr \<Longrightarrow> arr ! a = Empty \<Longrightarrow> occupied (arr[a := Entry k v]) = Suc (occupied arr)"
  by (simp add: occupied_def upd_conv_take_nth_drop, subst (3) id_take_nth_drop [of a arr], simp_all)

lemma empty_slot_exists: "occupied arr < length arr \<Longrightarrow> \<exists>i < length arr. arr ! i = Empty"
  unfolding occupied_def by (metis (mono_tags, lifting) filter_True in_set_conv_nth less_irrefl)

lemma split_unique: "distinct (xs @ a # ys) \<Longrightarrow> xs @ a # ys = us @ a # vs \<Longrightarrow> xs = us"
proof (induction xs arbitrary: us)
  case Nil
  then show ?case by (cases us) auto
next
  case (Cons x xs)
  show ?case
  proof (cases us)
    case us: (Cons u us')
    with Cons.IH [of us'] Cons.prems show ?thesis by (metis append_Cons distinct.simps(2) list.inject)
  qed (use Cons.prems in auto)
qed

lemma probe_ok_update:
  assumes "probe_ok cap arr" and "attempts cap k = pre @ a # post" and "arr ! a = Empty"
    and "\<forall>b\<in>set pre. arr ! b \<noteq> Empty" and "a < length arr" and "distinct (attempts cap k)"
  shows "probe_ok cap (arr[a := Entry k v])"
  unfolding probe_ok_def
proof (intro allI impI ballI, elim conjE)
  fix k' v' as c bs b
  assume at: "attempts cap k' = as @ c # bs" and e: "arr[a := Entry k v] ! c = Entry k' v'" and b: "b \<in> set as"
  show "arr[a := Entry k v] ! b \<noteq> Empty"
  proof (cases "c = a")
    case True
    then have "k' = k" using e assms(5) by simp
    then have "as = pre" using at assms(2,6) True by (metis split_unique)
    then show ?thesis using b assms(4,5) by (cases "b = a") auto
  next
    case False
    then have "arr ! c = Entry k' v'" using e by simp
    then have "arr ! b \<noteq> Empty" using assms(1) at b unfolding probe_ok_def by blast
    then show ?thesis using assms(5) by (cases "b = a") auto
  qed
qed

lemma insert_loop_place:
  assumes "length arr = unat cap" and "0 < unat cap" and "unat cap < 2 ^ 63"
    and "occupied arr < length arr" and "probe_ok cap arr"
  obtains pre a post where "attempts cap k = pre @ a # post" and "a < length arr" and "arr ! a = Empty"
    and "insert_loop k v (attempts cap k) arr = arr[a := Entry k v]"
    and "probe_ok cap (arr[a := Entry k v])" and "\<forall>b\<in>set pre. arr ! b \<noteq> Empty"
proof -
  note at = attempts_perm [OF assms(2,3), of k]
  have "\<exists>a\<in>set (attempts cap k). arr ! a = Empty"
    using empty_slot_exists [OF assms(4)] at(1) assms(1) by auto
  then obtain pre a post where p: "attempts cap k = pre @ a # post" "arr ! a = Empty"
    "\<forall>b\<in>set pre. arr ! b \<noteq> Empty" "insert_loop k v (attempts cap k) arr = arr[a := Entry k v]"
    using insert_loop_split by meson
  moreover have "a < length arr" using at(1) p(1) assms(1) by auto
  moreover have "probe_ok cap (arr[a := Entry k v])"
    using probe_ok_update [OF assms(5) p(1-3) _ at(2)] \<open>a < length arr\<close> by simp
  ultimately show thesis using that by blast
qed

lemma get_loop_other:
  "k' \<noteq> k \<Longrightarrow> arr ! a = Empty \<Longrightarrow> a < length arr \<Longrightarrow>
   get_loop k' as (arr[a := Entry k v]) = get_loop k' as arr"
  by (induction as) (auto simp: nth_list_update split: slot.splits)

lemma get_loop_append:
  "get_loop k (as @ bs) arr = (case get_loop k as arr of None \<Rightarrow> get_loop k bs arr | Some v \<Rightarrow> Some v)"
  by (induction as) (auto split: slot.splits)

lemma get_loop_placed:
  assumes "probe_ok cap arr" and "attempts cap k = pre @ a # post" and "arr ! a = Empty"
    and "a < length arr" and "distinct (attempts cap k)"
  shows "get_loop k (attempts cap k) (arr[a := Entry k v]) =
         (case get_loop k (attempts cap k) arr of None \<Rightarrow> Some v | Some w \<Rightarrow> Some w)"
proof -
  have "arr ! b \<noteq> Entry k w" if "b \<in> set post" for b w
  proof
    assume e: "arr ! b = Entry k w"
    from split_list [OF that] obtain us vs where "post = us @ b # vs" by blast
    then have "attempts cap k = (pre @ a # us) @ b # vs" using assms(2) by simp
    then have "\<forall>c\<in>set (pre @ a # us). arr ! c \<noteq> Empty"
      using assms(1) e unfolding probe_ok_def by blast
    then show False using assms(3) by simp
  qed
  then have post: "get_loop k post arr = None" by (simp add: get_loop_None)
  have "a \<notin> set pre" using assms(2,5) by auto
  then have pre: "get_loop k pre (arr[a := Entry k v]) = get_loop k pre arr"
    by (induction pre) (auto split: slot.splits)
  show ?thesis using post pre assms(3,4) by (simp add: assms(2) get_loop_append split: option.split)
qed

section \<open>Insertion\<close>

lemma load_below:
  assumes "unat (m_capacity m) < 2 ^ 56" and "0 < unat (m_capacity m)" and "unat (m_size m) \<le> unat (m_capacity m)"
  shows "load_percentage m \<ge> 75 \<longleftrightarrow> unat (m_size m) * 100 \<ge> 75 * unat (m_capacity m)"
proof -
  have "unat (m_size m * 100) = unat (m_size m) * 100"
    using assms by (subst unat_mult_nowrap) auto
  then have "unat (load_percentage m) = unat (m_size m) * 100 div unat (m_capacity m)"
    by (simp add: load_percentage_def unat_div)
  moreover have "load_percentage m \<ge> 75 \<longleftrightarrow> unat (load_percentage m) \<ge> 75" by (simp add: word_le_nat_alt)
  ultimately show ?thesis using assms(2) by (simp add: less_eq_div_iff_mult_less_eq)
qed

lemma place_keeps:
  assumes "hm_wf m" and "occupied (m_array m) < unat (m_capacity m)" and "unat s * 100 < 75 * unat (m_capacity m)"
    and "occupied (m_array m) \<le> unat s"
    and m': "m' = m\<lparr>m_array := insert_loop k v (attempts (m_capacity m) k) (m_array m), m_size := s\<rparr>"
  shows "hm_wf m'" and "live m' = add_mset (k, v) (live m)"
    and "occupied (m_array m') = Suc (occupied (m_array m))"
    and "hm_get m' k = (case hm_get m k of None \<Rightarrow> Some v | Some w \<Rightarrow> Some w)"
    and "k' \<noteq> k \<Longrightarrow> hm_get m' k' = hm_get m k'"
proof -
  let ?arr = "m_array m" and ?cap = "m_capacity m"
  have wf: "length ?arr = unat ?cap" "0 < unat ?cap" "unat ?cap < 2 ^ 56" "probe_ok ?cap ?arr"
    using assms(1) by (auto simp: hm_wf_def)
  then have big: "unat ?cap < 2 ^ 63" by simp
  obtain pre a post where p: "attempts ?cap k = pre @ a # post" "a < length ?arr" "?arr ! a = Empty"
    "insert_loop k v (attempts ?cap k) ?arr = ?arr[a := Entry k v]" "probe_ok ?cap (?arr[a := Entry k v])"
    by (rule insert_loop_place [OF wf(1,2) big assms(2) [folded wf(1)] wf(4), where k = k and v = v]) blast
  show occ: "occupied (m_array m') = Suc (occupied ?arr)" using p occupied_update by (simp add: m')
  then show "hm_wf m'" using p wf assms(3,4) by (simp add: hm_wf_def m')
  show "live m' = add_mset (k, v) (live m)" using p live_update by (simp add: m' live_def)
  show "hm_get m' k = (case hm_get m k of None \<Rightarrow> Some v | Some w \<Rightarrow> Some w)"
    using get_loop_placed [OF wf(4) p(1,3,2) attempts_perm(2) [OF wf(2) big]] p(4)
    by (simp add: m' hm_get_def)
  show "hm_get m' k' = hm_get m k'" if "k' \<noteq> k"
    using get_loop_other [OF that p(3,2)] p(4) by (simp add: m' hm_get_def)
qed

lemma insert_no_grow:
  assumes "hm_wf m" and "(unat (m_size m) + 1) * 100 < 75 * unat (m_capacity m)"
  shows "insert_with g m k v =
           Some (m\<lparr>m_array := insert_loop k v (attempts (m_capacity m) k) (m_array m), m_size := m_size m + 1\<rparr>)"
    and "unat (m_size m + 1) = unat (m_size m) + 1"
proof -
  have b: "unat (m_size m) + 1 < unat (m_capacity m)" "unat (m_capacity m) < 2 ^ 56" "0 < unat (m_capacity m)"
    using assms by (auto simp: hm_wf_def)
  then show u: "unat (m_size m + 1) = unat (m_size m) + 1" by (subst unat_add_nowrap) auto
  have "\<not> load_percentage (m\<lparr>m_size := m_size m + 1\<rparr>) \<ge> 75"
    using b assms(2) u by (subst load_below) auto
  then show "insert_with g m k v =
       Some (m\<lparr>m_array := insert_loop k v (attempts (m_capacity m) k) (m_array m), m_size := m_size m + 1\<rparr>)"
    by (simp add: insert_with_def Let_def)
qed

definition entries :: "'v slot list \<Rightarrow> (key \<times> 'v) multiset" where
  "entries ss = (\<Sum>s\<leftarrow>ss. slot_entry s)"

lemma entries_simps [simp]: "entries [] = {#}" "entries (s # ss) = slot_entry s + entries ss"
  by (simp_all add: entries_def)

lemma size_entries: "size (entries ss) \<le> occupied ss"
proof (induction ss)
  case (Cons s ss)
  then show ?case by (cases s) (auto simp: occupied_def)
qed (simp add: occupied_def)

lemma reinsert_live:
  assumes "hm_wf m" and "occupied (m_array m) = unat (m_size m)"
    and "(unat (m_size m) + size (entries ss)) * 100 < 75 * unat (m_capacity m)"
  shows "\<exists>m'. reinsert (insert_fuel 0) ss m = Some m' \<and> hm_wf m' \<and> live m' = live m + entries ss \<and>
           m_capacity m' = m_capacity m \<and> unat (m_size m') = unat (m_size m) + size (entries ss) \<and>
           occupied (m_array m') = unat (m_size m')"
  using assms
proof (induction ss arbitrary: m)
  case (Cons s ss)
  show ?case
  proof (cases s)
    case (Entry k v)
    let ?m = "m\<lparr>m_array := insert_loop k v (attempts (m_capacity m) k) (m_array m), m_size := m_size m + 1\<rparr>"
    have small: "(unat (m_size m) + 1) * 100 < 75 * unat (m_capacity m)" using Cons.prems(3) Entry by simp
    note ins = insert_no_grow [OF Cons.prems(1) small]
    have kept: "hm_wf ?m" "live ?m = add_mset (k, v) (live m)"
      "occupied (m_array ?m) = Suc (occupied (m_array m))"
      using place_keeps(1-3) [OF Cons.prems(1) _ _ _ refl, of "m_size m + 1" k v] small Cons.prems(2) ins(2) by auto
    have "\<exists>m'. reinsert (insert_fuel 0) ss ?m = Some m' \<and> hm_wf m' \<and> live m' = live ?m + entries ss \<and>
        m_capacity m' = m_capacity ?m \<and> unat (m_size m') = unat (m_size ?m) + size (entries ss) \<and>
        occupied (m_array m') = unat (m_size m')"
      using kept ins(2) Cons.prems(2,3) Entry by (intro Cons.IH) auto
    then show ?thesis using ins kept(2) Entry by auto
  qed (use Cons in auto)
qed auto

lemma hm_new_wf:
  assumes "0 < unat cap" and "unat cap < 2 ^ 56"
  shows "hm_wf (hm_new cap :: 'v HashMap)" and "live (hm_new cap :: 'v HashMap) = {#}"
proof -
  have e: "replicate (unat cap) Empty ! a \<noteq> Entry k v" if "attempts cap k = as @ a # bs" for as a bs k and v :: 'v
  proof -
    have "a \<in> set (attempts cap k)" using that by simp
    then have "a < unat cap" using attempts_perm(1) [OF assms(1), of k] assms(2) by simp
    then show ?thesis by simp
  qed
  have "probe_ok cap (replicate (unat cap) (Empty :: 'v slot))" unfolding probe_ok_def using e by blast
  then show "hm_wf (hm_new cap :: 'v HashMap)" using assms by (simp add: hm_wf_def hm_new_def occupied_def)
  have "entries (replicate n (Empty :: 'v slot)) = {#}" for n by (induction n) auto
  then show "live (hm_new cap :: 'v HashMap) = {#}" by (simp add: live_def hm_new_def entries_def)
qed

lemma grow_live:
  assumes "length (m_array m) = unat (m_capacity m)" and "0 < unat (m_capacity m)" and "hm_room m"
  shows "\<exists>m'. grow_with (insert_fuel 0) m = Some m' \<and> hm_wf m' \<and> live m' = live m \<and>
           unat (m_capacity m') = 2 * unat (m_capacity m) \<and> occupied (m_array m') = unat (m_size m') \<and>
           occupied (m_array m') \<le> unat (m_capacity m)"
proof -
  let ?cap = "m_capacity m * 2"
  have cap: "unat ?cap = 2 * unat (m_capacity m)"
    using assms(3) by (subst unat_mult_nowrap) (auto simp: hm_room_def)
  have new: "hm_wf (hm_new ?cap)" "live (hm_new ?cap) = {#}"
    using assms cap by (auto intro!: hm_new_wf simp: hm_room_def)
  have occ: "size (entries (m_array m)) \<le> unat (m_capacity m)"
    using size_entries [of "m_array m"] assms(1)
    by (metis length_filter_le occupied_def order_trans)
  have e: "occupied (m_array (hm_new ?cap)) = unat (m_size (hm_new ?cap))"
    by (simp add: hm_new_def occupied_def)
  have "(unat (m_size (hm_new ?cap)) + size (entries (m_array m))) * 100 < 75 * unat (m_capacity (hm_new ?cap))"
    using occ cap assms(2) by (simp add: hm_new_def)
  from reinsert_live [OF new(1) e this] new(2) occ cap show ?thesis
    by (auto simp: grow_with_def hm_new_def Let_def live_def entries_def)
qed

lemma live_iff: "hm_wf m \<Longrightarrow> (k, v) \<in># live m \<longleftrightarrow> (\<exists>i < unat (m_capacity m). m_array m ! i = Entry k v)"
proof -
  assume "hm_wf m"
  then have len: "length (m_array m) = unat (m_capacity m)" by (simp add: hm_wf_def)
  have "(k, v) \<in># slot_entry s \<longleftrightarrow> s = Entry k v" for s :: "'a slot" by (cases s) auto
  then have "(k, v) \<in># entries arr \<longleftrightarrow> Entry k v \<in> set arr" for arr :: "'a slot list"
    by (induction arr) auto
  then show ?thesis using len by (auto simp: live_def entries_def in_set_conv_nth)
qed

lemma wf_attempts: "hm_wf m \<Longrightarrow> set (attempts (m_capacity m) k) = {..<unat (m_capacity m)}"
  by (rule attempts_perm) (auto simp: hm_wf_def)

lemma get_None_iff: "hm_wf m \<Longrightarrow> hm_get m k = None \<longleftrightarrow> (\<forall>v. (k, v) \<notin># live m)"
  by (auto simp: hm_get_def get_loop_None wf_attempts live_iff)

lemma get_SomeD: "hm_wf m \<Longrightarrow> hm_get m k = Some v \<Longrightarrow> (k, v) \<in># live m"
  unfolding hm_get_def get_loop_Some live_iff using wf_attempts [of m k] by (metis in_set_conv_decomp lessThan_iff)

lemma get_Some_iff:
  assumes "hm_wf m" and "keys_distinct m"
  shows "hm_get m k = Some v \<longleftrightarrow> (k, v) \<in># live m"
proof
  assume in_live: "(k, v) \<in># live m"
  then obtain w where w: "hm_get m k = Some w" using get_None_iff [OF assms(1), of k] by auto
  then have "(k, w) \<in># live m" by (rule get_SomeD [OF assms(1)])
  moreover have "w = v" if "(k, w) \<in># live m"
  proof (rule ccontr)
    assume "w \<noteq> v"
    then have "{#(k, w), (k, v)#} \<subseteq># filter_mset (\<lambda>e. fst e = k) (live m)"
      using in_live that by (simp add: insert_subset_eq_iff in_diff_count)
    then have "2 \<le> size (filter_mset (\<lambda>e. fst e = k) (live m))" by (auto dest: size_mset_mono)
    then show False using assms(2) unfolding keys_distinct_def by (metis numeral_le_one_iff order_trans semiring_norm(69))
  qed
  ultimately show "hm_get m k = Some v" using w by simp
qed (rule get_SomeD [OF assms(1)])

lemma get_same_live:
  "hm_wf m \<Longrightarrow> hm_wf m' \<Longrightarrow> keys_distinct m \<Longrightarrow> live m' = live m \<Longrightarrow> hm_get m' = hm_get m"
proof
  fix k assume a: "hm_wf m" "hm_wf m'" "keys_distinct m" "live m' = live m"
  then have "keys_distinct m'" by (simp add: keys_distinct_def)
  then have "hm_get m' k = Some v \<longleftrightarrow> hm_get m k = Some v" for v
    using a by (simp add: get_Some_iff)
  then show "hm_get m' k = hm_get m k" by (metis option.exhaust)
qed

text \<open>Insertion always returns, keeps the invariant, adds exactly the new entry and hides no other one.\<close>

lemma insert_live:
  assumes "hm_wf m" and "hm_room m"
  shows "\<exists>m'. hm_insert m k v = Some m' \<and> hm_wf m' \<and> live m' = add_mset (k, v) (live m) \<and>
           (keys_distinct m \<longrightarrow>
              hm_get m' = (hm_get m)(k := (case hm_get m k of None \<Rightarrow> Some v | Some w \<Rightarrow> Some w)))"
proof -
  have wf: "length (m_array m) = unat (m_capacity m)" "0 < unat (m_capacity m)" "unat (m_capacity m) < 2 ^ 56"
    "occupied (m_array m) \<le> unat (m_size m) + 1" "unat (m_size m) * 100 < 75 * unat (m_capacity m)"
    using assms(1) by (auto simp: hm_wf_def)
  show ?thesis
  proof (cases "(unat (m_size m) + 1) * 100 < 75 * unat (m_capacity m)")
    case True
    let ?m = "m\<lparr>m_array := insert_loop k v (attempts (m_capacity m) k) (m_array m), m_size := m_size m + 1\<rparr>"
    note ins = insert_no_grow [OF assms(1) True]
    note kept = place_keeps [OF assms(1) _ _ _ refl, where s = "m_size m + 1" and k = k and v = v]
    show ?thesis
      using ins(1) kept(1-4) kept(5) True wf ins(2)
      by (intro exI [of _ ?m]) (auto simp: hm_insert_def fun_eq_iff)
  next
    case False
    let ?m1 = "m\<lparr>m_size := m_size m + 1\<rparr>"
    have u: "unat (m_size m + 1) = unat (m_size m) + 1" using wf by (subst unat_add_nowrap) auto
    have grows: "load_percentage ?m1 \<ge> 75" using wf u False by (subst load_below) auto
    obtain m2 where m2: "grow_with (insert_fuel 0) ?m1 = Some m2" "hm_wf m2" "live m2 = live m"
      "unat (m_capacity m2) = 2 * unat (m_capacity m)" "occupied (m_array m2) = unat (m_size m2)"
      "occupied (m_array m2) \<le> unat (m_capacity m)"
      using grow_live [of ?m1] wf(1,2) assms(2) by (auto simp: live_def hm_room_def)
    let ?m = "m2\<lparr>m_array := insert_loop k v (attempts (m_capacity m2) k) (m_array m2), m_size := m_size m2\<rparr>"
    have ins: "hm_insert m k v = Some ?m" using grows m2(1) by (simp add: hm_insert_def insert_with_def Let_def)
    have room: "occupied (m_array m2) < unat (m_capacity m2)" using m2(4,6) wf(2) by linarith
    have low: "unat (m_size m2) * 100 < 75 * unat (m_capacity m2)" using m2(4,5,6) wf(2) by linarith
    note kept = place_keeps [OF m2(2) room low _ refl, where k = k and v = v]
    have "hm_get m2 = hm_get m" if "keys_distinct m"
      using that assms(1) m2(2,3) by (intro get_same_live)
    then show ?thesis using ins kept(1-4) kept(5) m2(3,5)
      by (intro exI [of _ ?m]) (auto simp: fun_eq_iff)
  qed
qed

section \<open>Erasure\<close>

lemma erase_nth:
  assumes "hm_wf m"
  shows "length (m_array (hm_erase m k)) = unat (m_capacity m)"
    and "i < unat (m_capacity m) \<Longrightarrow> m_array (hm_erase m k) ! i =
      (if \<exists>v. m_array m ! i = Entry k v then Deleted else m_array m ! i)"
  using assms erase_loop_nth [of "attempts (m_capacity m) k" "m_array m" k] wf_attempts [OF assms, of k]
    attempts_perm(2) [of "m_capacity m" k]
  by (auto simp: hm_erase_def hm_wf_def)

lemma occupied_alt: "occupied arr = card {i. i < length arr \<and> arr ! i \<noteq> Empty}"
  by (simp add: occupied_def length_filter_conv_card)

lemma erase_wf:
  assumes "hm_wf m"
  shows "hm_wf (hm_erase m k)"
proof -
  note e = erase_nth [OF assms, where k = k] and at = wf_attempts [OF assms]
  have same: "m_array (hm_erase m k) ! i = Empty \<longleftrightarrow> m_array m ! i = Empty" if "i < unat (m_capacity m)" for i
    using e(2) [OF that] by auto
  have cap: "m_capacity (hm_erase m k) = m_capacity m" "m_size (hm_erase m k) = m_size m"
    by (simp_all add: hm_erase_def)
  have len: "length (m_array m) = unat (m_capacity m)" using assms by (simp add: hm_wf_def)
  have occ: "occupied (m_array (hm_erase m k)) = occupied (m_array m)"
    using same e(1) len by (auto simp: occupied_alt intro!: arg_cong [where f = card])
  have "probe_ok (m_capacity m) (m_array (hm_erase m k))"
    unfolding probe_ok_def
  proof (intro allI impI ballI, elim conjE)
    fix k' v as a bs b
    assume *: "attempts (m_capacity m) k' = as @ a # bs" "m_array (hm_erase m k) ! a = Entry k' v" "b \<in> set as"
    then have "a \<in> set (attempts (m_capacity m) k')" "b \<in> set (attempts (m_capacity m) k')" by auto
    then have ab: "a < unat (m_capacity m)" "b < unat (m_capacity m)" unfolding at by auto
    then have "m_array m ! a = Entry k' v" using * e(2) [of a] by (auto split: if_splits)
    then have "m_array m ! b \<noteq> Empty" using assms * unfolding hm_wf_def probe_ok_def by blast
    then show "m_array (hm_erase m k) ! b \<noteq> Empty" using same ab by blast
  qed
  then show ?thesis using assms e(1) occ by (simp add: hm_wf_def cap)
qed

lemma erase_get: "hm_wf m \<Longrightarrow> hm_get (hm_erase m k) = (hm_get m)(k := None)"
proof
  fix k' assume wf: "hm_wf m"
  have e: "i < unat (m_capacity m) \<Longrightarrow> m_array (hm_erase m k) ! i =
      (if \<exists>v. m_array m ! i = Entry k v then Deleted else m_array m ! i)" for i
    by (rule erase_nth [OF wf])
  have step: "get_loop k' as (m_array (hm_erase m k)) = (if k' = k then None else get_loop k' as (m_array m))"
    if "set as \<subseteq> {..<unat (m_capacity m)}" for as
    using that by (induction as) (auto simp: e split: slot.split)
  then show "hm_get (hm_erase m k) k' = ((hm_get m)(k := None)) k'"
    using wf_attempts [OF wf, of k'] by (simp add: hm_get_def hm_erase_def)
qed

lemma erase_live:
  assumes "hm_wf m"
  shows "live (hm_erase m k) = filter_mset (\<lambda>e. fst e \<noteq> k) (live m)"
proof -
  have len: "length (m_array m) = unat (m_capacity m)" using assms by (simp add: hm_wf_def)
  have "m_array (hm_erase m k) = map (\<lambda>s. case s of Entry k' v \<Rightarrow> if k' = k then Deleted else s | _ \<Rightarrow> s) (m_array m)"
    using erase_nth [OF assms, where k = k] len by (intro nth_equalityI) (auto split: slot.split)
  moreover have "entries (map (\<lambda>s. case s of Entry k' v \<Rightarrow> if k' = k then Deleted else s | _ \<Rightarrow> s) arr) =
      filter_mset (\<lambda>e. fst e \<noteq> k) (entries arr)" for arr :: "'a slot list"
    by (induction arr) (auto split: slot.split)
  ultimately show ?thesis by (simp add: live_def entries_def)
qed

lemma erase_distinct: "hm_wf m \<Longrightarrow> keys_distinct m \<Longrightarrow> keys_distinct (hm_erase m k)"
  unfolding keys_distinct_def
  by (metis (no_types, lifting) erase_live multiset_filter_mono multiset_filter_subset order_trans size_mset_mono)

lemma insert_fresh_distinct:
  assumes "hm_wf m" and "keys_distinct m" and "hm_get m k = None" and "live m' = add_mset (k, v) (live m)"
  shows "keys_distinct m'"
  unfolding keys_distinct_def
proof
  fix k'
  have "filter_mset (\<lambda>e. fst e = k) (live m) = {#}"
    using get_None_iff [OF assms(1)] assms(3) by (auto simp: multiset_eq_iff count_eq_zero_iff)
  with assms(2,4) show "size (filter_mset (\<lambda>e. fst e = k') (live m')) \<le> 1"
    by (cases "k' = k") (auto simp: keys_distinct_def)
qed

lemma erase_room: "hm_room (hm_erase m k) = hm_room m"
  by (simp add: hm_room_def hm_erase_def)

text \<open>The directory contract holds for the maps whose keys are distinct.\<close>

interpretation dir: key_store "\<lambda>m. hm_wf m \<and> keys_distinct m" hm_room hm_get hm_insert hm_erase
proof
  fix m :: "'a HashMap" and k v
  assume m: "hm_wf m \<and> keys_distinct m" "hm_room m" "hm_get m k = None"
  obtain m' where "hm_insert m k v = Some m'" "hm_wf m'" "live m' = add_mset (k, v) (live m)"
    "hm_get m' = (hm_get m)(k := (case hm_get m k of None \<Rightarrow> Some v | Some w \<Rightarrow> Some w))"
    using insert_live [OF conjunct1 [OF m(1)] m(2), of k v] conjunct2 [OF m(1)] by blast
  moreover have "keys_distinct m'" 
    using insert_fresh_distinct [OF conjunct1 [OF m(1)] conjunct2 [OF m(1)] m(3) calculation(3)] .
  moreover have "(hm_get m)(k := (case hm_get m k of None \<Rightarrow> Some v | Some w \<Rightarrow> Some w)) = (hm_get m)(k \<mapsto> v)"
    using m(3) by simp
  ultimately show "\<exists>m'. hm_insert m k v = Some m' \<and> (hm_wf m' \<and> keys_distinct m') \<and> hm_get m' = (hm_get m)(k \<mapsto> v)"
    by metis
qed (auto simp: erase_wf erase_distinct erase_get erase_room)

section \<open>Properties\<close>

text \<open>\<^verbatim>\<open>insert\<close> always returns and loses nothing: the nesting of \<^verbatim>\<open>insert\<close> and \<^verbatim>\<open>grow\<close> is
  one level deep, an empty slot is always found, the live entries are the old ones plus
  the new one, and the invariant is kept.\<close>

theorem hm_insert_never_drops:
  assumes "hm_wf m" and "hm_room m"
  shows "\<exists>m'. hm_insert m k v = Some m' \<and> hm_wf m' \<and> live m' = add_mset (k, v) (live m)"
  using insert_live [OF assms] by blast

definition demo_map :: "nat HashMap" where
  "demo_map = hm_new 2"

lemma demo_map_ok: "hm_wf demo_map" "hm_room demo_map" "keys_distinct demo_map"
  using hm_new_wf(1) [of 2] hm_new_wf(2) [of 2, where 'v = nat]
  by (simp_all add: demo_map_def keys_distinct_def) (simp add: hm_room_def hm_new_def)

theorem hm_insert_never_drops_witness:
  "\<exists>m'. hm_insert demo_map [97] 5 = Some m' \<and> hm_wf m' \<and> live m' = add_mset ([97], 5) (live demo_map)"
  by (rule hm_insert_never_drops [OF demo_map_ok(1,2)])

text \<open>C10. The map as a dictionary, while keys are distinct: erasing a key and inserting it again
  is a map update, whatever the map held for it, and changes no other key.\<close>

theorem hm_replace_is_update:
  assumes "hm_wf m" and "keys_distinct m" and "hm_room m"
  shows "\<exists>m'. hm_insert (hm_erase m k) k v = Some m' \<and> hm_wf m' \<and> keys_distinct m' \<and>
           hm_get m' = (hm_get m)(k \<mapsto> v) \<and> hm_get (hm_erase m k) = (hm_get m)(k := None)"
  using dir.replace_entry [of m k v] assms erase_get [OF assms(1)] by auto

theorem hm_replace_is_update_witness:
  "\<exists>m'. hm_insert (hm_erase demo_map [97]) [97] 5 = Some m' \<and> hm_wf m' \<and> keys_distinct m' \<and>
        hm_get m' = (hm_get demo_map)([97] \<mapsto> 5) \<and> hm_get (hm_erase demo_map [97]) = (hm_get demo_map)([97] := None)"
  by (rule hm_replace_is_update [OF demo_map_ok(1,3,2)])

text \<open>Inserting a key that is already present does not overwrite it: \<^verbatim>\<open>get\<close> goes on returning the
  old value, also when the insertion grew the table, while the entry count rises by one.\<close>

theorem hm_insert_existing_keeps_old:
  assumes "hm_wf m" and "keys_distinct m" and "hm_room m" and "hm_get m k = Some w"
  shows "\<exists>m'. hm_insert m k v = Some m' \<and> hm_get m' = hm_get m \<and> size (live m') = size (live m) + 1"
  using insert_live [OF assms(1,3), of k v] assms(2,4) by (auto simp: fun_upd_idem)

definition demo_map1 :: "nat HashMap" where
  "demo_map1 = the (hm_insert demo_map [97] 5)"

lemma demo_map1_eq:
  "demo_map1 = \<lparr>m_array = [Entry [97] 5, Empty], m_capacity = 2, m_size = 1\<rparr>"
  by code_simp

theorem hm_insert_existing_keeps_old_witness:
  "\<exists>m'. hm_insert demo_map1 [97] 6 = Some m' \<and> hm_get m' = hm_get demo_map1 \<and>
        size (live m') = size (live demo_map1) + 1"
proof (rule hm_insert_existing_keeps_old [where w = 5])
  obtain m' where m': "hm_insert demo_map [97] 5 = Some m'" "hm_wf m'" "live m' = add_mset ([97], 5) (live demo_map)"
    using insert_live [OF demo_map_ok(1,2)] by blast
  then have m1: "demo_map1 = m'" by (simp add: demo_map1_def)
  show "hm_wf demo_map1" using m' m1 by simp
  show "keys_distinct demo_map1" by (simp add: demo_map1_eq keys_distinct_def live_def)
  show "hm_room demo_map1" by (simp add: demo_map1_eq hm_room_def)
  show "hm_get demo_map1 [97] = Some 5" by code_simp
qed

end
