(* ===== verification/Vfs.thy ===== *)
theory Vfs
  imports Hash_Map Posix
begin

text \<open>
  The virtual file system (\<^verbatim>\<open>src/fs/vfs.hpp\<close>, \<^verbatim>\<open>vfs.cpp\<close>) and its only file system
  \<^verbatim>\<open>tmpfs\<close> (\<^verbatim>\<open>src/fs/tmpfs.cpp\<close>). Nodes live in a store indexed by reference, 0 being the null
  pointer; \<^verbatim>\<open>new\<close> takes the next unused reference (the heap's own contract is in the theory of the
  buddy allocator). A path is the bytes of the C string. \<open>vs_junk\<close> is what a fresh node
  holds in the fields its constructor leaves uninitialised. Recursion through
  \<^verbatim>\<open>redirect\<close> is an option: \<open>None\<close> means that the call does not return.
\<close>

section \<open>Nodes\<close>

datatype Node_Type = NONE | FILE | DIRECTORY

type_synonym node_ref = nat

record NodeData =
  td_size :: usize
  td_storage :: "usize \<Rightarrow> u8"

record Node =
  nd_type :: Node_Type
  nd_data :: NodeData
  nd_redirect :: node_ref
  nd_parent :: node_ref
  nd_name :: key
  nd_children :: "node_ref HashMap"

record vfs =
  vs_node :: "node_ref \<Rightarrow> Node"
  vs_next :: node_ref
  vs_root :: node_ref
  vs_junk :: node_ref

definition slash :: u8 where "slash = 47"
definition dot_name :: key where "dot_name = [46]"
definition dotdot_name :: key where "dotdot_name = [46, 46]"

definition empty_data :: NodeData where
  "empty_data = \<lparr>td_size = 0, td_storage = (\<lambda>_. 0)\<rparr>"

text \<open>\<^verbatim>\<open>new Node(type, fs, parent, name)\<close>: \<^verbatim>\<open>redirect\<close> is not initialised.\<close>

definition new_Node :: "vfs \<Rightarrow> Node_Type \<Rightarrow> node_ref \<Rightarrow> key \<Rightarrow> node_ref \<times> vfs" where
  "new_Node s type parent name =
     (let r = vs_next s;
          node = \<lparr>nd_type = type, nd_data = empty_data, nd_redirect = vs_junk s, nd_parent = parent,
                  nd_name = name, nd_children = hm_new 16\<rparr>
      in (r, s\<lparr>vs_node := (vs_node s)(r := node), vs_next := Suc r\<rparr>))"

definition set_redirect :: "vfs \<Rightarrow> node_ref \<Rightarrow> node_ref \<Rightarrow> vfs" where
  "set_redirect s r x = s\<lparr>vs_node := (vs_node s)(r := (vs_node s r)\<lparr>nd_redirect := x\<rparr>)\<rparr>"

definition set_data :: "vfs \<Rightarrow> node_ref \<Rightarrow> NodeData \<Rightarrow> vfs" where
  "set_data s r d = s\<lparr>vs_node := (vs_node s)(r := (vs_node s r)\<lparr>nd_data := d\<rparr>)\<rparr>"

definition insert_child :: "vfs \<Rightarrow> node_ref \<Rightarrow> key \<Rightarrow> node_ref \<Rightarrow> vfs option" where
  "insert_child s dir name child =
     do {
       m \<leftarrow> hm_insert (nd_children (vs_node s dir)) name child;
       Some (s\<lparr>vs_node := (vs_node s)(dir := (vs_node s dir)\<lparr>nd_children := m\<rparr>)\<rparr>)
     }"

definition create_dotentries :: "vfs \<Rightarrow> node_ref \<Rightarrow> vfs option" where
  "create_dotentries s this =
     do {
       let (dot, s1) = new_Node s NONE this dot_name;
       let (dotdot, s2) = new_Node s1 NONE this dotdot_name;
       let s3 = set_redirect s2 dot this;
       let s4 = set_redirect s3 dotdot (if nd_parent (vs_node s this) \<noteq> 0 then nd_parent (vs_node s this) else this);
       s5 \<leftarrow> insert_child s4 this dot_name dot;
       insert_child s5 this dotdot_name dotdot
     }"

section \<open>The tmpfs operations\<close>

text \<open>The null result of the default case is reference 0. A file needs a parent.\<close>

definition tmpfs_create :: "vfs \<Rightarrow> node_ref \<Rightarrow> key \<Rightarrow> Node_Type \<Rightarrow> (node_ref \<times> vfs) option" where
  "tmpfs_create s parent name type =
     (case type of
        FILE \<Rightarrow>
          do {
            let (node, s1) = new_Node s FILE parent name;
            let s2 = set_data s1 node empty_data;
            s3 \<leftarrow> insert_child s2 parent name node;
            Some (node, s3)
          }
      | DIRECTORY \<Rightarrow>
          do {
            let (node, s1) = new_Node s DIRECTORY parent name;
            s2 \<leftarrow> create_dotentries s1 node;
            s3 \<leftarrow> (if parent \<noteq> 0 then insert_child s2 parent name node else Some s2);
            Some (node, s3)
          }
      | NONE \<Rightarrow> Some (0, s))"

text \<open>What a read returns, and the bytes it copies into the buffer.\<close>

definition storage_slice :: "NodeData \<Rightarrow> usize \<Rightarrow> usize \<Rightarrow> u8 list" where
  "storage_slice d offset cnt = map (\<lambda>i. td_storage d (offset + of_nat i)) [0..<unat cnt]"

definition tmpfs_read :: "Node \<Rightarrow> usize \<Rightarrow> usize \<Rightarrow> isize \<times> u8 list" where
  "tmpfs_read node cnt offset =
     (let data = nd_data node
      in if nd_type node \<noteq> FILE then (- 1, [])
         else if offset \<ge> td_size data then (0, [])
         else if offset + cnt > td_size data then
           let actual_count = td_size data - offset
           in (actual_count, storage_slice data offset actual_count)
         else (cnt, storage_slice data offset cnt))"

text \<open>\<open>fill\<close> is what the heap returns in the bytes past the old size; \<open>buf\<close> holds \<open>cnt\<close> bytes.\<close>

definition write_data :: "(usize \<Rightarrow> u8) \<Rightarrow> NodeData \<Rightarrow> (usize \<Rightarrow> u8) \<Rightarrow> usize \<Rightarrow> usize \<Rightarrow> NodeData" where
  "write_data fill data buf cnt offset =
     (let data1 = (if offset + cnt > td_size data
                   then \<lparr>td_size = offset + cnt,
                         td_storage = (\<lambda>i. if i < td_size data then td_storage data i else fill i)\<rparr>
                   else data)
      in data1\<lparr>td_storage := (\<lambda>i. if i - offset < cnt then buf (i - offset) else td_storage data1 i)\<rparr>)"

definition tmpfs_write :: "(usize \<Rightarrow> u8) \<Rightarrow> vfs \<Rightarrow> node_ref \<Rightarrow> (usize \<Rightarrow> u8) \<Rightarrow> usize \<Rightarrow> usize \<Rightarrow> vfs" where
  "tmpfs_write fill s node buf cnt offset =
     (if nd_type (vs_node s node) \<noteq> FILE then s
      else set_data s node (write_data fill (nd_data (vs_node s node)) buf cnt offset))"

text \<open>The operation table of a file system; a node's \<^verbatim>\<open>fs\<close> pointer always leads to the one tmpfs instance.\<close>

record FileSystem =
  fs_create :: "vfs \<Rightarrow> node_ref \<Rightarrow> key \<Rightarrow> Node_Type \<Rightarrow> (node_ref \<times> vfs) option"
  fs_read :: "Node \<Rightarrow> usize \<Rightarrow> usize \<Rightarrow> isize \<times> u8 list"
  fs_write :: "(usize \<Rightarrow> u8) \<Rightarrow> vfs \<Rightarrow> node_ref \<Rightarrow> (usize \<Rightarrow> u8) \<Rightarrow> usize \<Rightarrow> usize \<Rightarrow> vfs"

definition instantiate :: FileSystem where
  "instantiate = \<lparr>fs_create = tmpfs_create, fs_read = tmpfs_read, fs_write = tmpfs_write\<rparr>"

lemma instantiate_simps [simp]:
  "fs_create instantiate = tmpfs_create" "fs_read instantiate = tmpfs_read" "fs_write instantiate = tmpfs_write"
  by (simp_all add: instantiate_def)

section \<open>Paths\<close>

text \<open>\<^verbatim>\<open>init\<close>: the table of file system drivers it fills is never read and left out.\<close>

definition vfs_init :: "node_ref \<Rightarrow> vfs option" where
  "vfs_init junk =
     do {
       let s = \<lparr>vs_node = (\<lambda>_. \<lparr>nd_type = NONE, nd_data = empty_data, nd_redirect = 0, nd_parent = 0,
                                nd_name = [], nd_children = hm_new 16\<rparr>), vs_next = 1, vs_root = 0, vs_junk = junk\<rparr>;
       let root_fs = instantiate;
       (root, s1) \<leftarrow> fs_create root_fs s 0 [] DIRECTORY;
       Some (s1\<lparr>vs_root := root\<rparr>)
     }"

partial_function (option) reduce_node :: "vfs \<Rightarrow> node_ref \<Rightarrow> node_ref option" where
  "reduce_node s node =
     (if nd_redirect (vs_node s node) \<noteq> 0 then reduce_node s (nd_redirect (vs_node s node)) else Some node)"

record PathToNodeResult =
  target_parent :: node_ref
  target :: node_ref
  basename :: "key option"

definition no_result :: PathToNodeResult where
  "no_result = \<lparr>target_parent = 0, target = 0, basename = None\<rparr>"

definition entry_name :: "key \<Rightarrow> key" where
  "entry_name path = takeWhile (\<lambda>c. c \<noteq> slash) path"

text \<open>\<^verbatim>\<open>last\<close>: there is no slash, or it is the last character.\<close>

definition is_last :: "key \<Rightarrow> bool" where
  "is_last path \<longleftrightarrow> slash \<notin> set path \<or> length (entry_name path) = length path - 1"

lemma entry_name_shorter: "\<not> is_last path \<Longrightarrow> length (entry_name path) + 1 < length path"
proof -
  assume nl: "\<not> is_last path"
  have "length (entry_name path) \<le> length path" by (simp add: entry_name_def length_takeWhile_le)
  moreover have "length (entry_name path) \<noteq> length path"
  proof
    assume "length (entry_name path) = length path"
    then have "entry_name path = path" by (metis append_Nil2 append_eq_conv_conj entry_name_def takeWhile_eq_take)
    then have "slash \<notin> set path" by (metis entry_name_def set_takeWhileD)
    then show False using nl by (simp add: is_last_def)
  qed
  ultimately show ?thesis using nl unfolding is_last_def by linarith
qed

function path_loop :: "vfs \<Rightarrow> node_ref \<Rightarrow> key \<Rightarrow> PathToNodeResult option" where
  "path_loop s current path =
     (if nd_type (vs_node s current) \<noteq> DIRECTORY then Some no_result
      else case hm_get (nd_children (vs_node s current)) (entry_name path) of
             None \<Rightarrow> Some \<lparr>target_parent = current, target = 0, basename = Some (entry_name path)\<rparr>
           | Some next_node \<Rightarrow>
               (case reduce_node s next_node of
                  None \<Rightarrow> None
                | Some n \<Rightarrow>
                    if is_last path then
                      Some \<lparr>target_parent = current, target = n, basename = Some (entry_name path)\<rparr>
                    else path_loop s n (drop (length (entry_name path) + 1) path)))"
  by pat_completeness auto
termination
  by (relation "measure (\<lambda>(s, current, path). length path)") (auto dest!: entry_name_shorter)

declare path_loop.simps [simp del]

text \<open>The null starting point is reference 0.\<close>

definition path_to_node :: "vfs \<Rightarrow> key \<Rightarrow> node_ref \<Rightarrow> PathToNodeResult option" where
  "path_to_node s path starting_point =
     (if path = [] then Some no_result
      else if starting_point = 0 then
        if hd path \<noteq> slash then Some no_result else path_loop s (vs_root s) (tl path)
      else path_loop s starting_point path)"

section \<open>A reference definition of path resolution\<close>

text \<open>The components of a path; a trailing slash is dropped, an empty component is kept.\<close>

function components :: "key \<Rightarrow> key list" where
  "components path =
     entry_name path # (if is_last path then [] else components (drop (length (entry_name path) + 1) path))"
  by pat_completeness auto
termination
  by (relation "measure length") (auto dest!: entry_name_shorter)

declare components.simps [simp del]

fun resolve :: "vfs \<Rightarrow> node_ref \<Rightarrow> key list \<Rightarrow> PathToNodeResult option" where
  "resolve s d [] = Some no_result"
| "resolve s d (c # cs) =
     (if nd_type (vs_node s d) \<noteq> DIRECTORY then Some no_result
      else case hm_get (nd_children (vs_node s d)) c of
             None \<Rightarrow> Some \<lparr>target_parent = d, target = 0, basename = Some c\<rparr>
           | Some n \<Rightarrow> do { n' \<leftarrow> reduce_node s n;
                            if cs = [] then Some \<lparr>target_parent = d, target = n', basename = Some c\<rparr>
                            else resolve s n' cs })"

lemma components_Nil: "components path \<noteq> []"
  by (subst components.simps) simp

lemma path_loop_resolve: "path_loop s d path = resolve s d (components path)"
proof (induction s d path rule: path_loop.induct)
  case (1 s d path)
  show ?case
    by (subst path_loop.simps, subst components.simps)
       (use 1 in \<open>auto simp: components_Nil split: option.split\<close>)
qed

text \<open>Splitting at slashes is inverse to joining with them.\<close>

fun join :: "key list \<Rightarrow> key" where
  "join [] = []"
| "join [c] = c"
| "join (c # cs) = c @ slash # join cs"

lemma entry_name_append: "slash \<notin> set c \<Longrightarrow> entry_name (c @ slash # rest) = c"
  by (simp add: entry_name_def takeWhile_append)

lemma entry_name_id: "slash \<notin> set c \<Longrightarrow> entry_name c = c"
  by (auto simp: entry_name_def takeWhile_eq_all_conv)

lemma components_single: "slash \<notin> set c \<Longrightarrow> components c = [c]"
  by (subst components.simps) (simp add: entry_name_id is_last_def)

lemma components_cons: "slash \<notin> set c \<Longrightarrow> rest \<noteq> [] \<Longrightarrow> components (c @ slash # rest) = c # components rest"
  by (subst components.simps) (simp add: entry_name_append is_last_def)

lemma components_join:
  "cs \<noteq> [] \<Longrightarrow> \<forall>c\<in>set cs. slash \<notin> set c \<and> c \<noteq> [] \<Longrightarrow> components (join cs) = cs"
proof (induction cs rule: join.induct)
  case (3 c d cs)
  have "join (d # cs) \<noteq> []" using 3(3) by (cases cs) auto
  then show ?case using 3 by (simp add: components_cons)
qed (auto simp: components_single)

lemma resolve_append:
  "cs \<noteq> [] \<Longrightarrow> ds \<noteq> [] \<Longrightarrow> resolve s d cs = Some r \<Longrightarrow> target r \<noteq> 0 \<Longrightarrow> resolve s d (cs @ ds) = resolve s (target r) ds"
proof (induction cs arbitrary: d)
  case (Cons c cs)
  then show ?case
    by (cases "cs = []") (auto simp: no_result_def bind_eq_Some_conv split: if_splits option.splits)
qed simp

section \<open>Well-formed trees\<close>

definition dir_ok :: "vfs \<Rightarrow> node_ref \<Rightarrow> bool" where
  "dir_ok s d \<longleftrightarrow> hm_wf (nd_children (vs_node s d)) \<and> keys_distinct (nd_children (vs_node s d)) \<and>
     (\<forall>name c. hm_get (nd_children (vs_node s d)) name = Some c \<longrightarrow> 0 < c \<and> c < vs_next s)"

definition vfs_wf :: "vfs \<Rightarrow> bool" where
  "vfs_wf s \<longleftrightarrow> vs_junk s = 0 \<and> 0 < vs_next s \<and>
     (\<forall>n. 0 < n \<and> n < vs_next s \<longrightarrow>
        (nd_type (vs_node s n) = DIRECTORY \<longrightarrow> dir_ok s n) \<and>
        (nd_type (vs_node s n) \<noteq> NONE \<longrightarrow> nd_redirect (vs_node s n) = 0) \<and>
        (nd_type (vs_node s n) = NONE \<longrightarrow> (let x = nd_redirect (vs_node s n) in
            0 < x \<and> x < vs_next s \<and> nd_type (vs_node s x) = DIRECTORY)))"

definition is_node :: "vfs \<Rightarrow> node_ref \<Rightarrow> bool" where
  "is_node s n \<longleftrightarrow> 0 < n \<and> n < vs_next s"

lemma reduce_node_step [simp]: "nd_redirect (vs_node s n) = 0 \<Longrightarrow> reduce_node s n = Some n"
  by (simp add: reduce_node.simps)

text \<open>Reduction returns on a well-formed tree.\<close>

lemma reduce_node_returns:
  assumes "vfs_wf s" and "is_node s n"
  shows "\<exists>x. reduce_node s n = Some x \<and> is_node s x \<and> nd_type (vs_node s x) \<noteq> NONE"
proof (cases "nd_type (vs_node s n) = NONE")
  case True
  let ?x = "nd_redirect (vs_node s n)"
  have x: "0 < ?x" "?x < vs_next s" "nd_type (vs_node s ?x) = DIRECTORY"
    using assms True by (auto simp: vfs_wf_def is_node_def Let_def)
  then have "nd_redirect (vs_node s ?x) = 0" using assms(1) by (auto simp: vfs_wf_def)
  then have "reduce_node s n = Some ?x" using x(1) by (subst reduce_node.simps) simp
  then show ?thesis using x by (simp add: is_node_def)
next
  case False
  then have "nd_redirect (vs_node s n) = 0" using assms by (auto simp: vfs_wf_def is_node_def)
  then show ?thesis using False assms(2) by simp
qed

lemma resolve_returns: "vfs_wf s \<Longrightarrow> is_node s d \<Longrightarrow> \<exists>r. resolve s d cs = Some r \<and> (target r = 0 \<or> is_node s (target r))"
proof (induction cs arbitrary: d)
  case (Cons c cs)
  show ?case
  proof (cases "nd_type (vs_node s d) = DIRECTORY")
    case True
    then have ok: "dir_ok s d" using Cons.prems by (simp add: vfs_wf_def is_node_def)
    show ?thesis
    proof (cases "hm_get (nd_children (vs_node s d)) c")
      case (Some n)
      then have "is_node s n" using ok by (simp add: dir_ok_def is_node_def)
      then obtain x where "reduce_node s n = Some x" "is_node s x" using reduce_node_returns Cons.prems(1) by blast
      then show ?thesis using True Some Cons.IH [OF Cons.prems(1)] by (cases "cs = []") auto
    qed (use True in simp)
  qed (simp add: no_result_def)
qed (simp add: no_result_def)

section \<open>Creating nodes\<close>

lemma insert_child_ok:
  assumes ok: "hm_wf (nd_children (vs_node s d))" "keys_distinct (nd_children (vs_node s d))" "hm_room (nd_children (vs_node s d))"
    and fresh: "hm_get (nd_children (vs_node s d)) name = None"
  shows "\<exists>m. insert_child s d name c = Some (s\<lparr>vs_node := (vs_node s)(d := (vs_node s d)\<lparr>nd_children := m\<rparr>)\<rparr>) \<and>
     hm_wf m \<and> keys_distinct m \<and> hm_get m = (hm_get (nd_children (vs_node s d)))(name \<mapsto> c)"
  using dir.ins_fresh [of "nd_children (vs_node s d)" name c] assms by (auto simp: insert_child_def)

lemma new_dir_map:
  fixes m :: "node_ref HashMap"
  assumes "m = hm_new 16"
  shows "hm_wf m" "keys_distinct m" "hm_room m" "hm_get m k = None"
proof -
  have l: "hm_wf m \<and> live m = {#}" unfolding assms by (intro conjI hm_new_wf) simp_all
  then show "hm_wf m" by simp
  show "keys_distinct m" using l by (simp add: keys_distinct_def)
  show "hm_room m" by (simp add: assms hm_room_def hm_new_def)
  show "hm_get m k = None" using get_None_iff [of m k] l by simp
qed

text \<open>A directory other than \<open>d\<close> that keeps its children and whose children keep their targets
  resolves names as before.\<close>

definition child :: "vfs \<Rightarrow> node_ref \<Rightarrow> key \<Rightarrow> node_ref option" where
  "child s d name = do { n \<leftarrow> hm_get (nd_children (vs_node s d)) name; reduce_node s n }"

lemma create_file_state:
  assumes wf: "vfs_wf s" and d: "is_node s d" "nd_type (vs_node s d) = DIRECTORY"
    and room: "hm_room (nd_children (vs_node s d))" and fresh: "hm_get (nd_children (vs_node s d)) name = None"
  shows "\<exists>m s'. tmpfs_create s d name FILE = Some (vs_next s, s') \<and> hm_wf m \<and> keys_distinct m \<and>
     hm_get m = (hm_get (nd_children (vs_node s d)))(name \<mapsto> vs_next s) \<and>
     s' = s\<lparr>vs_node := (vs_node s)(vs_next s := \<lparr>nd_type = FILE, nd_data = empty_data, nd_redirect = 0, nd_parent = d,
            nd_name = name, nd_children = hm_new 16\<rparr>, d := (vs_node s d)\<lparr>nd_children := m\<rparr>), vs_next := Suc (vs_next s)\<rparr>"
proof -
  let ?n = "vs_next s"
  let ?s1 = "s\<lparr>vs_node := (vs_node s)(?n := \<lparr>nd_type = FILE, nd_data = empty_data, nd_redirect = 0, nd_parent = d,
            nd_name = name, nd_children = hm_new 16\<rparr>), vs_next := Suc ?n\<rparr>"
  have ne: "d \<noteq> ?n" using d(1) by (simp add: is_node_def)
  have junk: "vs_junk s = 0" using wf by (simp add: vfs_wf_def)
  have "dir_ok s d" using wf d by (simp add: vfs_wf_def is_node_def)
  then obtain m where m: "insert_child ?s1 d name ?n =
      Some (?s1\<lparr>vs_node := (vs_node ?s1)(d := (vs_node ?s1 d)\<lparr>nd_children := m\<rparr>)\<rparr>)"
    "hm_wf m" "keys_distinct m" "hm_get m = (hm_get (nd_children (vs_node s d)))(name \<mapsto> ?n)"
    using insert_child_ok [of ?s1 d name ?n] room fresh ne by (auto simp: dir_ok_def)
  have "set_data (snd (new_Node s FILE d name)) ?n empty_data = ?s1"
    by (simp add: new_Node_def set_data_def junk Let_def)
  moreover have "new_Node s FILE d name = (?n, snd (new_Node s FILE d name))" by (simp add: new_Node_def Let_def)
  ultimately have "tmpfs_create s d name FILE = Some (?n, ?s1\<lparr>vs_node := (vs_node ?s1)(d := (vs_node ?s1 d)\<lparr>nd_children := m\<rparr>)\<rparr>)"
    using m(1) unfolding tmpfs_create_def Let_def by (metis (no_types, lifting) Node_Type.simps(8) Option.bind.simps(2) case_prod_conv)
  then show ?thesis using m(2-4) ne by auto
qed

text \<open>\<open>s'\<close> has the nodes of \<open>s\<close> with their types and redirections, and their children except in \<open>d\<close>,
  where \<open>name\<close> is new; nodes past those of \<open>s\<close> are well-formed.\<close>

definition extends :: "vfs \<Rightarrow> vfs \<Rightarrow> node_ref \<Rightarrow> key \<Rightarrow> node_ref \<Rightarrow> bool" where
  "extends s s' d name n \<longleftrightarrow>
     vs_next s \<le> vs_next s' \<and> vs_junk s' = vs_junk s \<and>
     (\<forall>x. is_node s x \<longrightarrow> nd_type (vs_node s' x) = nd_type (vs_node s x) \<and>
        nd_redirect (vs_node s' x) = nd_redirect (vs_node s x) \<and>
        (x \<noteq> d \<longrightarrow> nd_children (vs_node s' x) = nd_children (vs_node s x))) \<and>
     dir_ok s' d \<and> hm_get (nd_children (vs_node s' d)) = (hm_get (nd_children (vs_node s d)))(name \<mapsto> n)"

lemma wf_node:
  assumes "vfs_wf s" and "is_node s x"
  shows "nd_type (vs_node s x) = DIRECTORY \<Longrightarrow> dir_ok s x"
    and "nd_type (vs_node s x) \<noteq> NONE \<Longrightarrow> nd_redirect (vs_node s x) = 0"
    and "nd_type (vs_node s x) = NONE \<Longrightarrow> is_node s (nd_redirect (vs_node s x)) \<and>
           nd_type (vs_node s (nd_redirect (vs_node s x))) = DIRECTORY"
  using assms by (auto simp: vfs_wf_def is_node_def Let_def)

lemma extends_node:
  assumes "extends s s' d name n" and "is_node s x"
  shows "nd_type (vs_node s' x) = nd_type (vs_node s x)" "nd_redirect (vs_node s' x) = nd_redirect (vs_node s x)"
    "is_node s' x" "x \<noteq> d \<Longrightarrow> nd_children (vs_node s' x) = nd_children (vs_node s x)"
  using assms by (auto simp: extends_def is_node_def)

lemma extends_reduce:
  assumes wf: "vfs_wf s" and ext: "extends s s' d name n" and x: "is_node s x"
  shows "reduce_node s' x = reduce_node s x"
proof (cases "nd_type (vs_node s x) = NONE")
  case True
  let ?t = "nd_redirect (vs_node s x)"
  have t: "is_node s ?t" "nd_type (vs_node s ?t) = DIRECTORY" using wf_node(3) [OF wf x True] by auto
  have rt: "nd_redirect (vs_node s ?t) = 0" "?t \<noteq> 0" using t wf_node(2) [OF wf t(1)] by (auto simp: is_node_def)
  have "reduce_node s x = Some ?t" using rt by (subst reduce_node.simps) simp
  moreover have "reduce_node s' x = Some ?t"
    using rt extends_node(2) [OF ext x] extends_node(2) [OF ext t(1)] by (subst reduce_node.simps) simp
  ultimately show ?thesis by simp
next
  case False
  then show ?thesis using wf_node(2) [OF wf x] extends_node(2) [OF ext x] by simp
qed

lemma extends_child:
  assumes wf: "vfs_wf s" and ext: "extends s s' d name n"
    and x: "is_node s x" "nd_type (vs_node s x) = DIRECTORY" "\<not> (x = d \<and> c = name)"
  shows "child s' x c = child s x c"
proof -
  have same: "hm_get (nd_children (vs_node s' x)) c = hm_get (nd_children (vs_node s x)) c"
    using x(1,3) ext by (cases "x = d") (auto simp: extends_def)
  show ?thesis
  proof (cases "hm_get (nd_children (vs_node s x)) c")
    case (Some y)
    then have "is_node s y" using wf_node(1) [OF wf x(1,2)] by (simp add: dir_ok_def is_node_def)
    then show ?thesis using Some same extends_reduce [OF wf ext] by (simp add: child_def)
  qed (simp add: child_def same)
qed

lemma extends_wf:
  assumes wf: "vfs_wf s" and ext: "extends s s' d name n"
    and new: "\<forall>x. vs_next s \<le> x \<and> x < vs_next s' \<longrightarrow>
        (nd_type (vs_node s' x) = DIRECTORY \<longrightarrow> dir_ok s' x) \<and>
        (nd_type (vs_node s' x) \<noteq> NONE \<longrightarrow> nd_redirect (vs_node s' x) = 0) \<and>
        (nd_type (vs_node s' x) = NONE \<longrightarrow> is_node s' (nd_redirect (vs_node s' x)) \<and>
            nd_type (vs_node s' (nd_redirect (vs_node s' x))) = DIRECTORY)"
  shows "vfs_wf s'"
  unfolding vfs_wf_def
proof (intro conjI allI impI)
  show "vs_junk s' = 0" "0 < vs_next s'" using wf ext by (auto simp: vfs_wf_def extends_def)
  fix x assume x: "0 < x \<and> x < vs_next s'"
  then consider "vs_next s \<le> x" "x < vs_next s'" | "is_node s x" by (fastforce simp: is_node_def)
  then have "(nd_type (vs_node s' x) = DIRECTORY \<longrightarrow> dir_ok s' x) \<and>
        (nd_type (vs_node s' x) \<noteq> NONE \<longrightarrow> nd_redirect (vs_node s' x) = 0) \<and>
        (nd_type (vs_node s' x) = NONE \<longrightarrow> is_node s' (nd_redirect (vs_node s' x)) \<and>
            nd_type (vs_node s' (nd_redirect (vs_node s' x))) = DIRECTORY)"
  proof cases
    case 2
    note e = extends_node [OF ext 2]
    have "dir_ok s' x" if dir: "nd_type (vs_node s x) = DIRECTORY"
    proof (cases "x = d")
      case False
      then show ?thesis using e(4) wf_node(1) [OF wf 2 dir] ext
        by (auto simp: dir_ok_def extends_def intro: order.strict_trans2)
    qed (use ext in \<open>simp add: extends_def\<close>)
    then show ?thesis using e wf_node [OF wf 2] extends_node [OF ext] by auto
  qed (use new in blast)
  then show "nd_type (vs_node s' x) = DIRECTORY \<Longrightarrow> dir_ok s' x"
    "nd_type (vs_node s' x) \<noteq> NONE \<Longrightarrow> nd_redirect (vs_node s' x) = 0"
    "nd_type (vs_node s' x) = NONE \<Longrightarrow> let t = nd_redirect (vs_node s' x) in 0 < t \<and> t < vs_next s' \<and>
       nd_type (vs_node s' t) = DIRECTORY"
    by (auto simp: is_node_def Let_def)
qed

lemma create_file_ok:
  assumes wf: "vfs_wf s" and d: "is_node s d" "nd_type (vs_node s d) = DIRECTORY"
    and room: "hm_room (nd_children (vs_node s d))" and fresh: "hm_get (nd_children (vs_node s d)) name = None"
  shows "\<exists>s'. tmpfs_create s d name FILE = Some (vs_next s, s') \<and> vfs_wf s' \<and> extends s s' d name (vs_next s) \<and>
     nd_type (vs_node s' (vs_next s)) = FILE \<and> nd_data (vs_node s' (vs_next s)) = empty_data \<and>
     child s' d name = Some (vs_next s) \<and> vs_root s' = vs_root s"
proof -
  let ?n = "vs_next s"
  obtain m s' where r: "tmpfs_create s d name FILE = Some (?n, s')" and m: "hm_wf m" "keys_distinct m"
    "hm_get m = (hm_get (nd_children (vs_node s d)))(name \<mapsto> ?n)"
    and s': "s' = s\<lparr>vs_node := (vs_node s)(?n := \<lparr>nd_type = FILE, nd_data = empty_data, nd_redirect = 0, nd_parent = d,
            nd_name = name, nd_children = hm_new 16\<rparr>, d := (vs_node s d)\<lparr>nd_children := m\<rparr>), vs_next := Suc ?n\<rparr>"
    using create_file_state [OF assms] by blast
  have ne: "d \<noteq> ?n" using d(1) by (simp add: is_node_def)
  have ext: "extends s s' d name ?n"
    using m ne wf_node(1) [OF wf d] d(1)
    by (auto simp: extends_def s' dir_ok_def is_node_def less_Suc_eq split: if_splits)
  have "vfs_wf s'" by (rule extends_wf [OF wf ext]) (use ne in \<open>auto simp: s'\<close>)
  moreover have "child s' d name = Some ?n" using m(3) ne by (simp add: child_def s')
  ultimately show ?thesis using r ext ne by (simp add: s')
qed

lemma dot_children:
  fixes a b :: node_ref
  shows "\<exists>m1 m. hm_insert (hm_new 16) dot_name a = Some m1 \<and> hm_insert m1 dotdot_name b = Some m \<and>
     hm_wf m \<and> keys_distinct m \<and> hm_get m = [dot_name \<mapsto> a, dotdot_name \<mapsto> b] \<and> hm_room m"
proof -
  define e :: "node_ref HashMap" where "e = hm_new 16"
  note e = new_dir_map [OF e_def]
  have "unat (m_size e) = 0" "unat (m_capacity e) = 16" by (simp_all add: e_def hm_new_def)
  then obtain arr where i1: "hm_insert e dot_name a = Some (e\<lparr>m_array := arr, m_size := m_size e + 1\<rparr>)"
    using insert_no_grow(1) [OF e(1)] by (simp add: hm_insert_def)
  let ?m1 = "e\<lparr>m_array := arr, m_size := m_size e + 1\<rparr>"
  have get0: "hm_get e = Map.empty" using e(4) by (simp add: fun_eq_iff)
  have m1: "hm_wf ?m1" "keys_distinct ?m1" "hm_get ?m1 = [dot_name \<mapsto> a]"
    using dir.ins_fresh [of e dot_name a] e(1-3) i1 get0 by auto
  have "hm_room ?m1" using e(3) by (simp add: hm_room_def)
  moreover have "hm_get ?m1 dotdot_name = None" by (simp add: m1(3) dot_name_def dotdot_name_def)
  ultimately obtain m where m: "hm_insert ?m1 dotdot_name b = Some m" "hm_wf m" "keys_distinct m"
    "hm_get m = [dot_name \<mapsto> a, dotdot_name \<mapsto> b]"
    using dir.ins_fresh [of ?m1 dotdot_name b] m1 by auto
  note m(1)
  moreover have "hm_insert ?m1 dotdot_name b = Some (?m1\<lparr>m_array := insert_loop dotdot_name b (attempts 16 dotdot_name) arr,
      m_size := m_size ?m1 + 1\<rparr>)"
    using insert_no_grow(1) [OF m1(1), of _ dotdot_name b] by (simp add: hm_insert_def e_def hm_new_def)
  ultimately have "hm_room m" using e(3) by (auto simp: hm_room_def)
  then show ?thesis using i1 m unfolding e_def by blast
qed

lemma create_dir_state:
  assumes wf: "vfs_wf s" and d: "is_node s d" "nd_type (vs_node s d) = DIRECTORY"
    and room: "hm_room (nd_children (vs_node s d))" and fresh: "hm_get (nd_children (vs_node s d)) name = None"
  shows "\<exists>m k s'. tmpfs_create s d name DIRECTORY = Some (vs_next s, s') \<and>
     hm_wf m \<and> keys_distinct m \<and> hm_get m = (hm_get (nd_children (vs_node s d)))(name \<mapsto> vs_next s) \<and>
     hm_wf k \<and> keys_distinct k \<and> hm_room k \<and> hm_get k = [dot_name \<mapsto> vs_next s + 1, dotdot_name \<mapsto> vs_next s + 2] \<and>
     vs_next s' = vs_next s + 3 \<and> vs_junk s' = vs_junk s \<and> vs_root s' = vs_root s \<and> vs_node s' = (vs_node s)
       (vs_next s := \<lparr>nd_type = DIRECTORY, nd_data = empty_data, nd_redirect = 0, nd_parent = d, nd_name = name, nd_children = k\<rparr>,
        vs_next s + 1 := \<lparr>nd_type = NONE, nd_data = empty_data, nd_redirect = vs_next s, nd_parent = vs_next s,
          nd_name = dot_name, nd_children = hm_new 16\<rparr>,
        vs_next s + 2 := \<lparr>nd_type = NONE, nd_data = empty_data, nd_redirect = d, nd_parent = vs_next s,
          nd_name = dotdot_name, nd_children = hm_new 16\<rparr>,
        d := (vs_node s d)\<lparr>nd_children := m\<rparr>)"
proof -
  let ?n = "vs_next s"
  have ne: "d \<noteq> ?n" "d \<noteq> Suc ?n" "d \<noteq> Suc (Suc ?n)" "d \<noteq> 0" using d(1) by (auto simp: is_node_def)
  have junk: "vs_junk s = 0" using wf by (simp add: vfs_wf_def)
  have ok: "dir_ok s d" using wf_node(1) [OF wf d] .
  obtain m where m: "hm_insert (nd_children (vs_node s d)) name ?n = Some m" "hm_wf m" "keys_distinct m"
    "hm_get m = (hm_get (nd_children (vs_node s d)))(name \<mapsto> ?n)"
    using dir.ins_fresh [of "nd_children (vs_node s d)" name ?n] ok room fresh by (auto simp: dir_ok_def)
  obtain k1 k where k: "hm_insert (hm_new 16) dot_name (Suc ?n) = Some k1" "hm_insert k1 dotdot_name (Suc (Suc ?n)) = Some k"
    "hm_wf k" "keys_distinct k" "hm_room k" "hm_get k = [dot_name \<mapsto> ?n + 1, dotdot_name \<mapsto> ?n + 2]"
    using dot_children [of "Suc ?n" "Suc (Suc ?n)"] by auto
  have "\<exists>s'. tmpfs_create s d name DIRECTORY = Some (?n, s') \<and>
     vs_next s' = ?n + 3 \<and> vs_junk s' = vs_junk s \<and> vs_root s' = vs_root s \<and> vs_node s' = (vs_node s)
       (?n := \<lparr>nd_type = DIRECTORY, nd_data = empty_data, nd_redirect = 0, nd_parent = d, nd_name = name, nd_children = k\<rparr>,
        ?n + 1 := \<lparr>nd_type = NONE, nd_data = empty_data, nd_redirect = ?n, nd_parent = ?n,
          nd_name = dot_name, nd_children = hm_new 16\<rparr>,
        ?n + 2 := \<lparr>nd_type = NONE, nd_data = empty_data, nd_redirect = d, nd_parent = ?n,
          nd_name = dotdot_name, nd_children = hm_new 16\<rparr>,
        d := (vs_node s d)\<lparr>nd_children := m\<rparr>)"
    using m(1) k(1,2) ne junk
    by (simp add: tmpfs_create_def create_dotentries_def new_Node_def set_redirect_def insert_child_def Let_def fun_upd_twist)
  then show ?thesis using m k by blast
qed

lemma create_dir_ok:
  assumes wf: "vfs_wf s" and d: "is_node s d" "nd_type (vs_node s d) = DIRECTORY"
    and room: "hm_room (nd_children (vs_node s d))" and fresh: "hm_get (nd_children (vs_node s d)) name = None"
  shows "\<exists>s'. tmpfs_create s d name DIRECTORY = Some (vs_next s, s') \<and> vfs_wf s' \<and> extends s s' d name (vs_next s) \<and>
     nd_type (vs_node s' (vs_next s)) = DIRECTORY \<and> child s' d name = Some (vs_next s) \<and>
     child s' (vs_next s) = [dot_name \<mapsto> vs_next s, dotdot_name \<mapsto> d] \<and> hm_room (nd_children (vs_node s' (vs_next s))) \<and>
     hm_get (nd_children (vs_node s' (vs_next s))) = [dot_name \<mapsto> vs_next s + 1, dotdot_name \<mapsto> vs_next s + 2] \<and>
     vs_next s < vs_next s' \<and> vs_root s' = vs_root s"
proof -
  let ?n = "vs_next s"
  obtain m k s' where r: "tmpfs_create s d name DIRECTORY = Some (?n, s')" and m: "hm_wf m" "keys_distinct m"
    "hm_get m = (hm_get (nd_children (vs_node s d)))(name \<mapsto> ?n)"
    and k: "hm_wf k" "keys_distinct k" "hm_get k = [dot_name \<mapsto> ?n + 1, dotdot_name \<mapsto> ?n + 2]" "hm_room k"
    and nx: "vs_next s' = ?n + 3" "vs_junk s' = vs_junk s" "vs_root s' = vs_root s" and s': "vs_node s' = (vs_node s)
       (?n := \<lparr>nd_type = DIRECTORY, nd_data = empty_data, nd_redirect = 0, nd_parent = d, nd_name = name, nd_children = k\<rparr>,
        ?n + 1 := \<lparr>nd_type = NONE, nd_data = empty_data, nd_redirect = ?n, nd_parent = ?n,
          nd_name = dot_name, nd_children = hm_new 16\<rparr>,
        ?n + 2 := \<lparr>nd_type = NONE, nd_data = empty_data, nd_redirect = d, nd_parent = ?n,
          nd_name = dotdot_name, nd_children = hm_new 16\<rparr>,
        d := (vs_node s d)\<lparr>nd_children := m\<rparr>)"
    using create_dir_state [OF assms] by blast
  have ne: "d \<noteq> ?n" "d \<noteq> Suc ?n" "d \<noteq> Suc (Suc ?n)" "0 < d" "d < ?n" using d(1) by (auto simp: is_node_def)
  have old: "vs_node s' x = vs_node s x" if "is_node s x" "x \<noteq> d" for x using that by (simp add: s' is_node_def)
  have dn: "vs_node s' d = (vs_node s d)\<lparr>nd_children := m\<rparr>" by (simp add: s')
  have "dir_ok s' d" using wf_node(1) [OF wf d] m dn nx(1) ne(5)
    by (auto simp: dir_ok_def intro: trans_less_add1 split: if_splits)
  moreover have "nd_type (vs_node s' x) = nd_type (vs_node s x) \<and> nd_redirect (vs_node s' x) = nd_redirect (vs_node s x)"
    if "is_node s x" for x using that dn old by (cases "x = d") simp_all
  ultimately have ext: "extends s s' d name ?n" using m(3) dn old nx by (simp add: extends_def)
  have red0: "nd_redirect (vs_node s d) = 0" using wf_node(2) [OF wf d(1)] d(2) by simp
  have "dir_ok s' ?n" using k nx(1) ne(1) by (auto simp: dir_ok_def s' split: if_splits)
  then have "vfs_wf s'"
    by (intro extends_wf [OF wf ext]) (use ne d(2) nx(1) in \<open>auto simp: s' is_node_def less_Suc_eq numeral_3_eq_3\<close>)
  moreover have "child s' d name = Some ?n" using m(3) ne(1) by (simp add: child_def s')
  moreover have "reduce_node s' (Suc ?n) = Some ?n" "reduce_node s' (Suc (Suc ?n)) = Some d"
    using ne red0 by (simp_all add: reduce_node.simps [of s' "Suc _"] s')
  then have "child s' ?n = [dot_name \<mapsto> ?n, dotdot_name \<mapsto> d]"
    using k(3) ne(1) by (auto simp: child_def s' fun_eq_iff)
  ultimately show ?thesis using r ext ne(1) k(3,4) nx(1,3) by (simp add: s')
qed

section \<open>The contract of a random access file\<close>

definition splice_bytes :: "u8 list \<Rightarrow> nat \<Rightarrow> u8 list \<Rightarrow> u8 list" where
  "splice_bytes old pos new = take pos old @ new @ drop (pos + length new) old"

locale byte_file =
  fixes bytes :: "'f \<Rightarrow> u8 list"
    and rd :: "'f \<Rightarrow> usize \<Rightarrow> usize \<Rightarrow> u8 list"
    and wr :: "'f \<Rightarrow> u8 list \<Rightarrow> usize \<Rightarrow> 'f"
  assumes bytes_wr: "unat pos \<le> length (bytes f) \<Longrightarrow> unat pos + length xs < 2 ^ 64 \<Longrightarrow>
      bytes (wr f xs pos) = splice_bytes (bytes f) (unat pos) xs"
    and rd_bytes: "unat pos + unat cnt < 2 ^ 64 \<Longrightarrow> rd f cnt pos = take (unat cnt) (drop (unat pos) (bytes f))"
begin

lemma read_back:
  assumes "unat pos \<le> length (bytes f)" and "unat pos + length xs < 2 ^ 64"
  shows "rd (wr f xs pos) (of_nat (length xs)) pos = xs"
proof -
  have "unat (of_nat (length xs) :: usize) = length xs" using assms(2) by (intro unat_of_nat_small) simp
  then show ?thesis using assms by (simp add: rd_bytes bytes_wr splice_bytes_def)
qed

text \<open>Chunks written one after the other at the end of the file are the file's tail.\<close>

fun append_chunks :: "'f \<Rightarrow> u8 list list \<Rightarrow> 'f" where
  "append_chunks f [] = f"
| "append_chunks f (xs # xss) = append_chunks (wr f xs (of_nat (length (bytes f)))) xss"

lemma bytes_append_chunks:
  "length (bytes f) + length (concat xss) < 2 ^ 64 \<Longrightarrow> bytes (append_chunks f xss) = bytes f @ concat xss"
proof (induction xss arbitrary: f)
  case (Cons xs xss)
  have "unat (of_nat (length (bytes f)) :: usize) = length (bytes f)"
    using Cons.prems by (intro unat_of_nat_small) simp
  then have "bytes (wr f xs (of_nat (length (bytes f)))) = bytes f @ xs"
    using Cons.prems by (simp add: bytes_wr splice_bytes_def)
  then show ?case using Cons by simp
qed simp

end

section \<open>The tmpfs file as a list of bytes\<close>

definition file_bytes :: "NodeData \<Rightarrow> u8 list" where
  "file_bytes d = map (\<lambda>i. td_storage d (of_nat i)) [0..<unat (td_size d)]"

definition buffer :: "u8 list \<Rightarrow> usize \<Rightarrow> u8" where
  "buffer xs i = xs ! unat i"

lemma length_file_bytes [simp]: "length (file_bytes d) = unat (td_size d)"
  by (simp add: file_bytes_def)

lemma storage_slice_bytes:
  assumes "unat pos + n \<le> unat (td_size d)"
  shows "map (\<lambda>i. td_storage d (pos + of_nat i)) [0..<n] = take n (drop (unat pos) (file_bytes d))"
  using assms by (auto intro!: nth_equalityI simp: file_bytes_def)

lemma tmpfs_read_bytes:
  assumes "nd_type nd = FILE" and "unat pos + unat cnt < 2 ^ 64"
  shows "snd (tmpfs_read nd cnt pos) = take (unat cnt) (drop (unat pos) (file_bytes (nd_data nd)))"
    and "unat (fst (tmpfs_read nd cnt pos)) = length (snd (tmpfs_read nd cnt pos))"
proof -
  let ?d = "nd_data nd"
  have sum: "unat (pos + cnt) = unat pos + unat cnt" using assms(2) by (intro unat_add_nowrap) simp
  consider "td_size ?d \<le> pos" | "pos < td_size ?d" "td_size ?d < pos + cnt" | "pos < td_size ?d" "pos + cnt \<le> td_size ?d"
    by fastforce
  then have "snd (tmpfs_read nd cnt pos) = take (unat cnt) (drop (unat pos) (file_bytes ?d)) \<and>
      unat (fst (tmpfs_read nd cnt pos)) = length (snd (tmpfs_read nd cnt pos))"
  proof cases
    case 1
    then show ?thesis using assms(1) by (simp add: tmpfs_read_def word_le_nat_alt)
  next
    case 2
    then have "unat (td_size ?d - pos) = unat (td_size ?d) - unat pos" by (intro unat_sub_nowrap) simp
    moreover have "unat pos < unat (td_size ?d)" "unat (td_size ?d) < unat pos + unat cnt"
      using 2 sum by (simp_all add: word_less_nat_alt)
    ultimately show ?thesis using 2 assms(1) storage_slice_bytes [of pos "unat (td_size ?d) - unat pos" ?d]
      by (simp add: tmpfs_read_def storage_slice_def Let_def)
  next
    case 3
    then have "unat pos + unat cnt \<le> unat (td_size ?d)" "\<not> td_size ?d < pos + cnt" "\<not> td_size ?d \<le> pos"
      using sum by (simp_all add: word_le_nat_alt word_less_nat_alt)
    then show ?thesis using assms(1) storage_slice_bytes [of pos "unat cnt" ?d]
      by (simp add: tmpfs_read_def storage_slice_def Let_def)
  qed
  then show "snd (tmpfs_read nd cnt pos) = take (unat cnt) (drop (unat pos) (file_bytes ?d))"
    "unat (fst (tmpfs_read nd cnt pos)) = length (snd (tmpfs_read nd cnt pos))" by auto
qed

lemma write_data_bytes:
  assumes pos: "unat pos \<le> unat (td_size d)" and fits: "unat pos + length xs < 2 ^ 64"
  shows "file_bytes (write_data fill d (buffer xs) (of_nat (length xs)) pos) = splice_bytes (file_bytes d) (unat pos) xs"
proof -
  let ?n = "of_nat (length xs) :: usize"
  let ?d = "write_data fill d (buffer xs) ?n pos"
  have n: "unat ?n = length xs" using fits by (intro unat_of_nat_small) simp
  have sum: "unat (pos + ?n) = unat pos + length xs" using fits n by (subst unat_add_nowrap) simp_all
  have size: "unat (td_size ?d) = max (unat (td_size d)) (unat pos + length xs)"
    using sum by (auto simp: write_data_def Let_def word_less_nat_alt)
  have inside: "(of_nat i - pos :: usize) < ?n \<longleftrightarrow> unat pos \<le> i \<and> i < unat pos + length xs"
    and idx: "unat pos \<le> i \<Longrightarrow> unat (of_nat i - pos :: usize) = i - unat pos"
    if "i < unat (td_size ?d)" for i
  proof -
    have "i < 2 ^ 64" using that unat_64 [of "td_size ?d"] by linarith
    then have i: "unat (of_nat i :: usize) = i" by (intro unat_of_nat_small) simp
    show diff: "unat pos \<le> i \<Longrightarrow> unat (of_nat i - pos :: usize) = i - unat pos"
      using i by (subst unat_sub_nowrap) (simp_all add: word_le_nat_alt)
    show "(of_nat i - pos :: usize) < ?n \<longleftrightarrow> unat pos \<le> i \<and> i < unat pos + length xs"
    proof (cases "unat pos \<le> i")
      case True
      then show ?thesis using diff n by (auto simp: word_less_nat_alt)
    next
      case False
      then have "unat (of_nat i - pos :: usize) = 2 ^ 64 + i - unat pos"
        using i by (simp add: unat_sub_if' word_le_nat_alt)
      then show ?thesis using False fits n by (simp add: word_less_nat_alt)
    qed
  qed
  have old: "(of_nat i :: usize) < td_size d \<longleftrightarrow> i < unat (td_size d)" if "i < unat (td_size ?d)" for i
  proof -
    have "i < 2 ^ 64" using that unat_64 [of "td_size ?d"] by linarith
    then have i: "unat (of_nat i :: usize) = i" by (intro unat_of_nat_small) simp
    then show ?thesis by (simp add: word_less_nat_alt)
  qed
  show ?thesis
  proof (rule nth_equalityI)
    show "length (file_bytes ?d) = length (splice_bytes (file_bytes d) (unat pos) xs)"
      using size pos by (simp add: splice_bytes_def)
    fix i assume "i < length (file_bytes ?d)"
    then have i: "i < unat (td_size ?d)" by simp
    then have il: "i < max (unat (td_size d)) (unat pos + length xs)" using size by simp
    have "file_bytes ?d ! i = td_storage ?d (of_nat i)" using i by (simp add: file_bytes_def)
    also have "\<dots> = (if unat pos \<le> i \<and> i < unat pos + length xs then xs ! (i - unat pos) else td_storage d (of_nat i))"
      using inside [OF i] idx [OF i] old [OF i] il pos by (auto simp: write_data_def Let_def buffer_def)
    also have "\<dots> = splice_bytes (file_bytes d) (unat pos) xs ! i"
      using il pos by (auto simp: splice_bytes_def nth_append file_bytes_def)
    finally show "file_bytes ?d ! i = splice_bytes (file_bytes d) (unat pos) xs ! i" .
  qed
qed

text \<open>A regular file of tmpfs, reduced to its data, keeps the contract whatever the heap leaves
  in fresh storage.\<close>

definition data_node :: "NodeData \<Rightarrow> Node" where
  "data_node d = \<lparr>nd_type = FILE, nd_data = d, nd_redirect = 0, nd_parent = 0, nd_name = [], nd_children = hm_new 16\<rparr>"

lemma data_node_simps [simp]: "nd_type (data_node d) = FILE" "nd_data (data_node d) = d"
  by (simp_all add: data_node_def)

interpretation tmpfile: byte_file file_bytes "\<lambda>d cnt pos. snd (tmpfs_read (data_node d) cnt pos)"
    "\<lambda>d xs pos. write_data fill d (buffer xs) (of_nat (length xs)) pos" for fill
  by unfold_locales (auto simp: write_data_bytes tmpfs_read_bytes)

section \<open>Properties\<close>

definition demo_file :: NodeData where
  "demo_file = \<lparr>td_size = 3, td_storage = buffer [1, 2, 3]\<rparr>"

definition demo_vfs :: vfs where
  "demo_vfs = \<lparr>vs_node = (\<lambda>_. data_node demo_file), vs_next = 6, vs_root = 1, vs_junk = 0\<rparr>"

lemma join_nonempty: "cs \<noteq> [] \<Longrightarrow> \<forall>c\<in>set cs. slash \<notin> set c \<and> c \<noteq> [] \<Longrightarrow> join cs \<noteq> []"
  by (cases cs rule: join.cases) auto

lemma components_trailing:
  "cs \<noteq> [] \<Longrightarrow> \<forall>c\<in>set cs. slash \<notin> set c \<and> c \<noteq> [] \<Longrightarrow> components (join cs @ [slash]) = cs"
proof (induction cs rule: join.induct)
  case (2 c)
  then show ?case by (subst components.simps) (simp add: entry_name_append is_last_def)
next
  case (3 c d cs)
  then show ?case by (simp add: components_cons)
qed simp

text \<open>C12. Resolving a path made of the names \<open>cs\<close> is resolving the names one directory at a time, from the
  root for an absolute path and from the starting point for a relative one; a trailing slash changes nothing.\<close>

theorem path_to_node_resolves:
  assumes "cs \<noteq> []" and "\<forall>c\<in>set cs. slash \<notin> set c \<and> c \<noteq> []" and "d \<noteq> 0"
  shows "path_to_node s (slash # join cs) 0 = resolve s (vs_root s) cs \<and>
         path_to_node s (slash # join cs @ [slash]) 0 = resolve s (vs_root s) cs \<and>
         path_to_node s (join cs) d = resolve s d cs \<and>
         path_to_node s (join cs @ [slash]) d = resolve s d cs"
proof -
  have "join cs \<noteq> []" using assms(1,2) by (rule join_nonempty)
  then show ?thesis
    using assms by (simp add: path_to_node_def path_loop_resolve components_join components_trailing)
qed

theorem path_to_node_resolves_witness:
  "path_to_node demo_vfs ([98, 105, 110] @ [slash] @ [115, 104]) 3 = resolve demo_vfs 3 [[98, 105, 110], [115, 104]]"
  using path_to_node_resolves [of "[[98, 105, 110], [115, 104]]" 3 demo_vfs] by (simp add: slash_def)

lemma resolve_child:
  "nd_type (vs_node s d) = DIRECTORY \<Longrightarrow> child s d c = Some n \<Longrightarrow>
     resolve s d (c # cs) = (if cs = [] then Some \<lparr>target_parent = d, target = n, basename = Some c\<rparr> else resolve s n cs)"
  by (auto simp: child_def bind_eq_Some_conv)

lemma path_to_node_relative:
  "d \<noteq> 0 \<Longrightarrow> cs \<noteq> [] \<Longrightarrow> \<forall>c\<in>set cs. slash \<notin> set c \<and> c \<noteq> [] \<Longrightarrow> path_to_node s (join cs) d = resolve s d cs"
  using join_nonempty [of cs] by (simp add: path_to_node_def path_loop_resolve components_join)

lemma dot_names: "slash \<notin> set dot_name" "slash \<notin> set dotdot_name" "dot_name \<noteq> []" "dotdot_name \<noteq> []" "dot_name \<noteq> dotdot_name"
  by (simp_all add: dot_name_def dotdot_name_def slash_def)

text \<open>C13. Creating a file or a directory under a fresh name of a well-formed tree returns, keeps the tree
  well-formed, and the name then resolves to the new node, an empty file or a directory
  in which \<^verbatim>\<open>.\<close> leads to itself and \<^verbatim>\<open>..\<close> back to the parent; every other name of
  every directory resolves as before.\<close>

theorem create_then_resolve:
  assumes wf: "vfs_wf s" and d: "is_node s d" "nd_type (vs_node s d) = DIRECTORY"
    and room: "hm_room (nd_children (vs_node s d))" and fresh: "hm_get (nd_children (vs_node s d)) name = None"
    and name: "slash \<notin> set name" "name \<noteq> []" and type: "type \<noteq> NONE"
  shows "\<exists>n s'. tmpfs_create s d name type = Some (n, s') \<and> vfs_wf s' \<and> nd_type (vs_node s' n) = type \<and>
     path_to_node s' name d = Some \<lparr>target_parent = d, target = n, basename = Some name\<rparr> \<and>
     (type = FILE \<longrightarrow> file_bytes (nd_data (vs_node s' n)) = []) \<and>
     (type = DIRECTORY \<longrightarrow>
        path_to_node s' (join [name, dot_name]) d = Some \<lparr>target_parent = n, target = n, basename = Some dot_name\<rparr> \<and>
        path_to_node s' (join [name, dotdot_name]) d = Some \<lparr>target_parent = n, target = d, basename = Some dotdot_name\<rparr>) \<and>
     (\<forall>x c. is_node s x \<and> nd_type (vs_node s x) = DIRECTORY \<and> \<not> (x = d \<and> c = name) \<longrightarrow> child s' x c = child s x c)"
proof -
  let ?n = "vs_next s"
  have "\<exists>s'. tmpfs_create s d name type = Some (?n, s') \<and> vfs_wf s' \<and> extends s s' d name ?n \<and>
     nd_type (vs_node s' ?n) = type \<and> child s' d name = Some ?n \<and>
     (type = FILE \<longrightarrow> nd_data (vs_node s' ?n) = empty_data) \<and>
     (type = DIRECTORY \<longrightarrow> child s' ?n = [dot_name \<mapsto> ?n, dotdot_name \<mapsto> d])"
    using create_file_ok [OF wf d room fresh] create_dir_ok [OF wf d room fresh] type by (cases type) fastforce+
  then obtain s' where r: "tmpfs_create s d name type = Some (?n, s')" "vfs_wf s'" and ext: "extends s s' d name ?n"
    and n: "nd_type (vs_node s' ?n) = type" "child s' d name = Some ?n"
      "type = FILE \<longrightarrow> nd_data (vs_node s' ?n) = empty_data"
      "type = DIRECTORY \<longrightarrow> child s' ?n = [dot_name \<mapsto> ?n, dotdot_name \<mapsto> d]"
    by blast
  have dir: "nd_type (vs_node s' d) = DIRECTORY" using extends_node(1) [OF ext d(1)] d(2) by simp
  have d0: "d \<noteq> 0" using d(1) by (simp add: is_node_def)
  have step: "path_to_node s' (join (name # cs)) d = (if cs = [] then
       Some \<lparr>target_parent = d, target = ?n, basename = Some name\<rparr> else resolve s' ?n cs)"
    if "\<forall>c\<in>set cs. slash \<notin> set c \<and> c \<noteq> []" for cs
    using path_to_node_relative [OF d0, of "name # cs" s'] that name resolve_child [OF dir n(2), of cs] by simp
  have "path_to_node s' name d = Some \<lparr>target_parent = d, target = ?n, basename = Some name\<rparr>"
    using step [of "[]"] by simp
  moreover have "file_bytes empty_data = []" by (simp add: file_bytes_def empty_data_def)
  moreover have "path_to_node s' (join [name, c]) d = Some \<lparr>target_parent = ?n, target = t, basename = Some c\<rparr>"
    if "type = DIRECTORY" "(c, t) \<in> {(dot_name, ?n), (dotdot_name, d)}" for c t
    using step [of "[c]"] that n(1,4) dot_names resolve_child [of s' ?n c t "[]"] by auto
  moreover have "\<forall>x c. is_node s x \<and> nd_type (vs_node s x) = DIRECTORY \<and> \<not> (x = d \<and> c = name) \<longrightarrow> child s' x c = child s x c"
    using extends_child [OF wf ext] by blast
  ultimately show ?thesis using r n(1,3) by (intro exI [of _ ?n] exI [of _ s']) simp
qed

text \<open>The tree that \<^verbatim>\<open>fs::vfs::init\<close> builds.\<close>

definition boot_vfs :: vfs where
  "boot_vfs = the (vfs_init 0)"

lemma boot_vfs_ok:
  "vfs_wf boot_vfs \<and> is_node boot_vfs 1 \<and> vs_root boot_vfs = 1 \<and> nd_type (vs_node boot_vfs 1) = DIRECTORY \<and>
   hm_room (nd_children (vs_node boot_vfs 1)) \<and>
   hm_get (nd_children (vs_node boot_vfs 1)) = [dot_name \<mapsto> 2, dotdot_name \<mapsto> 3] \<and> child boot_vfs 1 dot_name = Some 1 \<and>
   nd_parent (vs_node boot_vfs 1) = 0"
proof -
  obtain k1 k :: "node_ref HashMap" where k: "hm_insert (hm_new 16) dot_name 2 = Some k1" "hm_insert k1 dotdot_name 3 = Some k"
    "hm_wf k" "keys_distinct k" "hm_get k = [dot_name \<mapsto> 2, dotdot_name \<mapsto> 3]" "hm_room k"
    using dot_children [of 2 3] by blast
  have nx: "vs_next boot_vfs = 4" and rest: "vs_junk boot_vfs = 0" "vs_root boot_vfs = 1"
    and nodes: "nd_type (vs_node boot_vfs 1) = DIRECTORY" "nd_parent (vs_node boot_vfs 1) = 0" "nd_redirect (vs_node boot_vfs 1) = 0"
      "nd_children (vs_node boot_vfs 1) = k"
      "nd_type (vs_node boot_vfs 2) = NONE" "nd_redirect (vs_node boot_vfs 2) = 1"
      "nd_type (vs_node boot_vfs 3) = NONE" "nd_redirect (vs_node boot_vfs 3) = 1"
    using k(1,2) by (simp_all add: boot_vfs_def vfs_init_def tmpfs_create_def create_dotentries_def new_Node_def
        set_redirect_def insert_child_def Let_def numeral_2_eq_2 numeral_3_eq_3)
  have "0 < n \<and> n < vs_next boot_vfs \<longleftrightarrow> n \<in> {1, 2, 3}" for n using nx by auto
  moreover have "dir_ok boot_vfs 1" using k nodes(4) nx by (auto simp: dir_ok_def split: if_splits)
  ultimately have "vfs_wf boot_vfs" unfolding vfs_wf_def using nodes rest nx by (auto simp: Let_def)
  moreover have "child boot_vfs 1 dot_name = Some 1"
    using k(5) nodes dot_names(5) by (simp add: child_def reduce_node.simps [of boot_vfs 2])
  ultimately show ?thesis using nodes rest nx k by (simp add: is_node_def)
qed

theorem create_then_resolve_witness:
  "\<exists>n s'. tmpfs_create boot_vfs 1 [97] FILE = Some (n, s') \<and>
     path_to_node s' [97] 1 = Some \<lparr>target_parent = 1, target = n, basename = Some [97]\<rparr>"
  using create_then_resolve [of boot_vfs 1 "[97]" FILE] boot_vfs_ok
  by (auto simp: slash_def dot_name_def dotdot_name_def)

lemma tmpfs_write_read:
  assumes "nd_type (vs_node s n) = FILE"
    and "unat pos \<le> length (file_bytes (nd_data (vs_node s n)))" and "unat pos + length xs < 2 ^ 64"
  shows "file_bytes (nd_data (vs_node (tmpfs_write fill s n (buffer xs) (of_nat (length xs)) pos) n)) =
           splice_bytes (file_bytes (nd_data (vs_node s n))) (unat pos) xs \<and>
         tmpfs_read (vs_node (tmpfs_write fill s n (buffer xs) (of_nat (length xs)) pos) n) (of_nat (length xs)) pos =
           (of_nat (length xs), xs)"
proof -
  let ?d = "nd_data (vs_node s n)"
  let ?nd = "vs_node (tmpfs_write fill s n (buffer xs) (of_nat (length xs)) pos) n"
  have nd: "nd_type ?nd = FILE" "nd_data ?nd = write_data fill ?d (buffer xs) (of_nat (length xs)) pos"
    using assms(1) by (simp_all add: tmpfs_write_def set_data_def)
  have l: "unat (of_nat (length xs) :: usize) = length xs" using assms(3) by (intro unat_of_nat_small) simp
  have eq: "tmpfs_read ?nd = tmpfs_read (data_node (nd_data ?nd))" using nd(1) by (simp add: tmpfs_read_def fun_eq_iff)
  have r: "snd (tmpfs_read ?nd (of_nat (length xs)) pos) = xs"
    unfolding eq nd(2) using assms(2,3) by (rule tmpfile.read_back)
  moreover have "unat (fst (tmpfs_read ?nd (of_nat (length xs)) pos)) = length xs"
    using tmpfs_read_bytes(2) [OF nd(1), of pos "of_nat (length xs)"] l assms(3) r by simp
  ultimately show ?thesis
    using nd(2) tmpfile.bytes_wr [OF assms(2,3)] l by (metis prod.collapse word_unat_eq_iff)
qed



text \<open>The guard of \<^verbatim>\<open>tmpfs::read\<close> tests a sum that may wrap: for any offset inside the file and a count
  for which the sum wraps to at most the size, the whole count is copied, reading storage
  far beyond the file.\<close>

theorem tmpfs_read_wrap_overruns:
  assumes "nd_type nd = FILE" and "pos < td_size (nd_data nd)" and "2 ^ 64 \<le> unat pos + unat cnt"
  shows "fst (tmpfs_read nd cnt pos) = cnt \<and> unat (td_size (nd_data nd)) < unat pos + length (snd (tmpfs_read nd cnt pos))"
proof -
  have "unat (pos + cnt) = unat pos + unat cnt - 2 ^ 64"
    using assms(3) unat_64 [of pos] unat_64 [of cnt] by (simp add: unat_plus_if')
  then have "unat (pos + cnt) < unat pos" using unat_64 [of cnt] assms(3) by linarith
  then have "pos + cnt < pos" by (simp add: word_less_nat_alt)
  then have "tmpfs_read nd cnt pos = (cnt, storage_slice (nd_data nd) pos cnt)"
    using assms(1,2) by (auto simp: tmpfs_read_def Let_def)
  then show ?thesis using assms(3) unat_64 [of "td_size (nd_data nd)"] by (simp add: storage_slice_def)
qed

theorem tmpfs_read_wrap_overruns_witness: "fst (tmpfs_read (data_node demo_file) (- 1) 1) = - 1"
  using tmpfs_read_wrap_overruns [of "data_node demo_file" 1 "- 1"] by (simp add: demo_file_def unsigned_minus_1_eq_mask mask_eq_exp_minus_1)

section \<open>Changing the contents of a node\<close>

lemma write_data_cong: "(\<And>i. i < cnt \<Longrightarrow> b i = b' i) \<Longrightarrow> write_data fill d b cnt pos = write_data fill d b' cnt pos"
  by (auto simp: write_data_def Let_def fun_eq_iff)

lemma reduce_node_mono:
  assumes "\<And>x. nd_redirect (vs_node s' x) = nd_redirect (vs_node s x)" and "reduce_node s n = Some y"
  shows "reduce_node s' n = Some y"
proof -
  have "s = s \<longrightarrow> reduce_node s' n = Some y"
  proof (rule reduce_node.raw_induct [where P = "\<lambda>t n y. t = s \<longrightarrow> reduce_node s' n = Some y", OF _ assms(2)])
    fix red :: "vfs \<Rightarrow> node_ref \<Rightarrow> node_ref option" and t n y
    assume IH: "\<And>t n y. red t n = Some y \<Longrightarrow> t = s \<longrightarrow> reduce_node s' n = Some y"
      and r: "(if nd_redirect (vs_node t n) \<noteq> 0 then red t (nd_redirect (vs_node t n)) else Some n) = Some y"
    show "t = s \<longrightarrow> reduce_node s' n = Some y"
    proof
      assume "t = s"
      then show "reduce_node s' n = Some y"
        using r IH [of s "nd_redirect (vs_node s n)" y] by (subst reduce_node.simps) (auto simp: assms(1) split: if_splits)
    qed
  qed
  then show ?thesis by simp
qed

lemma reduce_node_cong:
  assumes "\<And>x. nd_redirect (vs_node s' x) = nd_redirect (vs_node s x)"
  shows "reduce_node s' n = reduce_node s n"
  by (metis assms not_Some_eq reduce_node_mono)

lemma resolve_cong:
  assumes "\<And>x. nd_redirect (vs_node s' x) = nd_redirect (vs_node s x) \<and> nd_type (vs_node s' x) = nd_type (vs_node s x) \<and>
     nd_children (vs_node s' x) = nd_children (vs_node s x)"
  shows "resolve s' d cs = resolve s d cs"
proof (induction cs arbitrary: d)
  case (Cons c cs)
  have "reduce_node s' n = reduce_node s n" for n using assms by (intro reduce_node_cong) blast
  then show ?case using assms Cons.IH by (auto split: option.split intro!: arg_cong2 [where f = Option.bind])
qed simp

lemma set_data_same:
  "nd_redirect (vs_node (set_data s n x) y) = nd_redirect (vs_node s y) \<and> nd_type (vs_node (set_data s n x) y) = nd_type (vs_node s y) \<and>
   nd_children (vs_node (set_data s n x) y) = nd_children (vs_node s y)"
  by (simp add: set_data_def)

lemma resolve_set_data [simp]: "resolve (set_data s n x) d cs = resolve s d cs"
  by (rule resolve_cong) (rule set_data_same)

lemma vfs_wf_set_data:
  assumes "vfs_wf s"
  shows "vfs_wf (set_data s n x)"
proof -
  have same: "vs_next (set_data s n x) = vs_next s" "vs_junk (set_data s n x) = vs_junk s"
    "nd_redirect (vs_node (set_data s n x) y) = nd_redirect (vs_node s y)" "nd_type (vs_node (set_data s n x) y) = nd_type (vs_node s y)"
    "nd_children (vs_node (set_data s n x) y) = nd_children (vs_node s y)" for y by (simp_all add: set_data_def)
  show ?thesis using assms unfolding vfs_wf_def dir_ok_def same .
qed

end
