(* ===== verification/Elf.thy ===== *)
theory Elf
  imports Vmm Vfs
begin

text \<open>
  The ELF loader of \<^verbatim>\<open>src/userland/elf.cpp\<close>. The frames it fills are bytes of the direct map, kept apart from the
  page table cells of the virtual memory manager; files are tmpfs nodes. The message for program headers of
  other types goes to the console only and is left out.
\<close>

section \<open>Definitions\<close>

definition PT_LOAD :: u32 where "PT_LOAD = 1"
definition PF_X :: u32 where "PF_X = 1"
definition PF_W :: u32 where "PF_W = 2"

text \<open>Little-endian fields of a zero-initialised struct over which a read was laid.\<close>

definition field :: "u8 list \<Rightarrow> nat \<Rightarrow> u8" where
  "field bs i = (if i < length bs then bs ! i else 0)"

definition le16 :: "u8 list \<Rightarrow> nat \<Rightarrow> u16" where
  "le16 bs i = ucast (field bs i) OR push_bit 8 (ucast (field bs (i + 1)))"

definition le32 :: "u8 list \<Rightarrow> nat \<Rightarrow> u32" where
  "le32 bs i = ucast (le16 bs i) OR push_bit 16 (ucast (le16 bs (i + 2)))"

definition le64 :: "u8 list \<Rightarrow> nat \<Rightarrow> u64" where
  "le64 bs i = ucast (le32 bs i) OR push_bit 32 (ucast (le32 bs (i + 4)))"

record Elf_Header =
  eh_ident :: "u8 list"
  eh_type :: u16
  arch :: u16
  eh_version :: u32
  entry_addr :: u64
  ph_table_offset :: u64
  sh_table_offset :: u64
  eh_flags :: u32
  eh_size :: u16
  ph_entry_size :: u16
  ph_count :: u16
  sh_entry_size :: u16
  sh_count :: u16
  sh_str_table_index :: u16

definition parse_header :: "u8 list \<Rightarrow> Elf_Header" where
  "parse_header bs =
     \<lparr>eh_ident = map (field bs) [0..<16], eh_type = le16 bs 16, arch = le16 bs 18, eh_version = le32 bs 20,
      entry_addr = le64 bs 24, ph_table_offset = le64 bs 32, sh_table_offset = le64 bs 40, eh_flags = le32 bs 48,
      eh_size = le16 bs 52, ph_entry_size = le16 bs 54, ph_count = le16 bs 56, sh_entry_size = le16 bs 58,
      sh_count = le16 bs 60, sh_str_table_index = le16 bs 62\<rparr>"

record ProgramHeader =
  ph_type :: u32
  ph_flags :: u32
  ph_offset :: u64
  ph_virt_addr :: u64
  ph_phy_addr :: u64
  ph_file_size :: u64
  ph_mem_size :: u64
  ph_alignment :: u64

definition parse_program_header :: "u8 list \<Rightarrow> ProgramHeader" where
  "parse_program_header bs =
     \<lparr>ph_type = le32 bs 0, ph_flags = le32 bs 4, ph_offset = le64 bs 8, ph_virt_addr = le64 bs 16, ph_phy_addr = le64 bs 24,
      ph_file_size = le64 bs 32, ph_mem_size = le64 bs 40, ph_alignment = le64 bs 48\<rparr>"

definition segment_flags :: "ProgramHeader \<Rightarrow> u64" where
  "segment_flags ph =
     (let f1 = PAGE_PRESENT OR PAGE_USER;
          f2 = (if ph_flags ph AND PF_W \<noteq> 0 then f1 OR PAGE_WRITABLE else f1)
      in if ph_flags ph AND PF_X = 0 then f2 OR PAGE_NO_EXECUTE else f2)"

definition misalign :: "ProgramHeader \<Rightarrow> usize" where
  "misalign ph = ph_virt_addr ph AND 0xFFF"

definition page_count :: "ProgramHeader \<Rightarrow> usize \<Rightarrow> usize" where
  "page_count ph sz = (sz + misalign ph + 0x1000 - 1) div 0x1000"

text \<open>Where in the page, from where in the file, and how much is read for page \<open>i\<close> of the segment.\<close>

definition page_read :: "ProgramHeader \<Rightarrow> usize \<Rightarrow> usize \<times> usize \<times> usize" where
  "page_read ph i =
     (let offset = ph_offset ph + i * 0x1000
      in if i = 0 then (misalign ph, offset + misalign ph, 0x1000 - misalign ph)
         else if i = page_count ph (ph_file_size ph) - 1 then (0, offset, (ph_file_size ph + misalign ph) mod 0x1000)
         else (0, offset, 0x1000))"

record loader =
  ld_vmm :: vmm
  ld_mem :: memory
  first_free_virt :: uptr

definition load_page :: "Pagemap \<Rightarrow> Node \<Rightarrow> ProgramHeader \<Rightarrow> usize \<Rightarrow> loader \<Rightarrow> loader outcome" where
  "load_page pagemap file ph i l =
     obind (alloc_pages 1 (v_pmm (ld_vmm l))) (\<lambda>(page_phy, p).
       let page_virt = ph_virt_addr ph + i * 0x1000
       in obind (map_page pagemap page_phy page_virt (segment_flags ph) ((ld_vmm l)\<lparr>v_pmm := p\<rparr>)) (\<lambda>v.
         let dst = page_phy + v_hhdm v;
             m1 = memset (ld_mem l) dst 0 0x1000;
             m2 = (if i < page_count ph (ph_file_size ph)
                   then case page_read ph i of (skip, offset, sz) \<Rightarrow> store_bytes m1 (dst + skip) (snd (tmpfs_read file sz offset))
                   else m1)
         in Returns \<lparr>ld_vmm = v, ld_mem = m2,
              first_free_virt = (if page_virt \<ge> first_free_virt l then page_virt + 0x1000 else first_free_virt l)\<rparr>))"

function load_pages :: "Pagemap \<Rightarrow> Node \<Rightarrow> ProgramHeader \<Rightarrow> usize \<Rightarrow> usize \<Rightarrow> loader \<Rightarrow> loader outcome" where
  "load_pages pagemap file ph i n l =
     (if i < n then obind (load_page pagemap file ph i l) (load_pages pagemap file ph (i + 1) n) else Returns l)"
  by pat_completeness auto
termination
proof (relation "measure (\<lambda>(pagemap, file, ph, i, n, l). unat n - unat i)", goal_cases)
  case (2 pagemap f ph i n l x)
  then show ?case by (simp add: unat_inc word_less_nat_alt)
qed simp

declare load_pages.simps [simp del]

definition load_segment :: "Pagemap \<Rightarrow> Node \<Rightarrow> ProgramHeader \<Rightarrow> loader \<Rightarrow> loader outcome" where
  "load_segment pagemap file ph l =
     (if ph_type ph = PT_LOAD then load_pages pagemap file ph 0 (page_count ph (ph_mem_size ph)) l else Returns l)"

fun load_segments :: "Pagemap \<Rightarrow> Node \<Rightarrow> Elf_Header \<Rightarrow> nat list \<Rightarrow> loader \<Rightarrow> loader outcome" where
  "load_segments pagemap file header [] l = Returns l"
| "load_segments pagemap file header (i # is) l =
     (let ph = parse_program_header (snd (tmpfs_read file 56 (ph_table_offset header + of_nat i * ucast (ph_entry_size header))))
      in obind (load_segment pagemap file ph l) (load_segments pagemap file header is))"

definition elf_magic :: "u8 list" where
  "elf_magic = [127, 69, 76, 70]"

definition elf_load :: "Pagemap \<Rightarrow> Node \<Rightarrow> vmm \<Rightarrow> memory \<Rightarrow> (uptr \<times> loader) outcome" where
  "elf_load pagemap file v m =
     (let header = parse_header (snd (tmpfs_read file 64 0))
      in if take 4 (eh_ident header) \<noteq> elf_magic then Panics ''Not an ELF file (incorrect magic number)''
         else if eh_ident header ! 4 \<noteq> 2 \<or> eh_ident header ! 5 \<noteq> 1 \<or> eh_ident header ! 7 \<noteq> 0 \<or> arch header \<noteq> 62
         then Panics ''Unsupported ELF file''
         else obind (load_segments pagemap file header [0..<unat (ph_count header)]
                       \<lparr>ld_vmm = v, ld_mem = m, first_free_virt = 0\<rparr>) (\<lambda>l.
           Returns (entry_addr header, l\<lparr>first_free_virt := align_up 0x1000 (first_free_virt l)\<rparr>)))"

section \<open>What a loaded page holds\<close>

text \<open>The page as the program is meant to see it: \<open>n\<close> file bytes from \<open>offset\<close> on, \<open>skip\<close> bytes into the page, zero elsewhere.\<close>

definition page_image :: "u8 list \<Rightarrow> usize \<times> usize \<times> usize \<Rightarrow> nat \<Rightarrow> u8" where
  "page_image bytes r k =
     (case r of (skip, offset, n) \<Rightarrow>
        if unat skip \<le> k \<and> k < unat skip + unat n \<and> unat offset + (k - unat skip) < length bytes
        then bytes ! (unat offset + (k - unat skip)) else 0)"

lemma store_bytes_page:
  assumes "unat skip + length bs \<le> 4096" and "k < 4096"
  shows "store_bytes (memset m dst 0 0x1000) (dst + skip) bs (dst + of_nat k) =
           (if unat skip \<le> k \<and> k < unat skip + length bs then bs ! (k - unat skip) else 0)"
proof -
  have k: "unat (of_nat k :: uptr) = k" using assms(2) by (intro unat_of_nat_small) simp
  have e: "dst + of_nat k - (dst + skip) = of_nat k - skip" by simp
  have z: "memset m dst 0 0x1000 (dst + of_nat k) = 0" using k assms(2) by (simp add: memset_apply word_less_nat_alt)
  show ?thesis
  proof (cases "unat skip \<le> k")
    case True
    then have "unat (of_nat k - skip) = k - unat skip" using k by (subst unat_sub_nowrap) (simp_all add: word_le_nat_alt)
    then show ?thesis using True z by (auto simp: store_bytes_def e)
  next
    case False
    then have "unat (of_nat k - skip) = 2 ^ 64 + k - unat skip" using k by (simp add: unat_sub_if' word_le_nat_alt)
    then have "\<not> unat (of_nat k - skip) < length bs" using False assms by simp
    then show ?thesis using False z by (simp add: store_bytes_def e)
  qed
qed

lemma store_bytes_outside:
  assumes "unat skip + length bs \<le> 4096" and "\<not> a - dst < 0x1000"
  shows "store_bytes (memset m dst 0 0x1000) (dst + skip) bs a = m a"
proof -
  have far: "4096 \<le> unat (a - dst)" using assms(2) by (simp add: word_less_nat_alt)
  have "unat (a - dst - skip) = unat (a - dst) - unat skip"
    using far assms(1) by (intro unat_sub_nowrap) (simp add: word_le_nat_alt)
  then have "\<not> unat (a - (dst + skip)) < length bs"
    using far assms(1) unfolding diff_diff_eq by linarith
  then show ?thesis using assms(2) by (simp add: store_bytes_def memset_apply)
qed

lemma page_read_fits: "page_read ph i = (skip, offset, n) \<Longrightarrow> unat skip + unat n \<le> 4096"
proof -
  have "misalign ph \<le> 0xFFF" unfolding misalign_def by (rule word_and_le1)
  then have m: "unat (misalign ph) \<le> 4095" by (simp add: word_le_nat_alt)
  then have "unat (0x1000 - misalign ph) = 4096 - unat (misalign ph)" by (subst unat_sub_nowrap) (simp_all add: word_le_nat_alt)
  moreover have "unat (x mod 0x1000) \<le> 4096" for x :: usize by (simp add: unat_mod less_imp_le)
  ultimately show "page_read ph i = (skip, offset, n) \<Longrightarrow> unat skip + unat n \<le> 4096"
    using m by (auto simp: page_read_def Let_def split: if_splits)
qed

text \<open>The memory part of \<open>load_page\<close>.\<close>

lemma page_contents:
  assumes f: "nd_type file = FILE" and r: "page_read ph i = (skip, offset, n)" and fits: "unat offset + unat n < 2 ^ 64"
    and m': "m' = store_bytes (memset m dst 0 0x1000) (dst + skip) (snd (tmpfs_read file n offset))"
  shows "k < 4096 \<Longrightarrow> m' (dst + of_nat k) = page_image (file_bytes (nd_data file)) (page_read ph i) k"
    and "\<not> a - dst < 0x1000 \<Longrightarrow> m' a = m a"
proof -
  let ?bs = "snd (tmpfs_read file n offset)"
  have bs: "?bs = take (unat n) (drop (unat offset) (file_bytes (nd_data file)))" using f fits by (rule tmpfs_read_bytes)
  have l: "unat skip + length ?bs \<le> 4096" using page_read_fits [OF r] bs by simp
  show "k < 4096 \<Longrightarrow> m' (dst + of_nat k) = page_image (file_bytes (nd_data file)) (page_read ph i) k"
    using store_bytes_page [OF l, of k m dst] unfolding m' r page_image_def bs by (auto simp: less_diff_conv)
  show "\<not> a - dst < 0x1000 \<Longrightarrow> m' a = m a" unfolding m' by (rule store_bytes_outside [OF l])
qed

lemma walk_upper: "walk (v\<lparr>v_pmm := p\<rparr>) root x = walk v root x"
  by (simp add: walk_def)

section \<open>Properties\<close>


text \<open>A misaligned one-page segment for which the loader reads two bytes from byte 17 of the file.\<close>

definition demo_segment :: ProgramHeader where
  "demo_segment = \<lparr>ph_type = PT_LOAD, ph_flags = PF_X, ph_offset = 1, ph_virt_addr = 0x400001, ph_phy_addr = 0,
     ph_file_size = 2, ph_mem_size = 2, ph_alignment = 0x1000\<rparr>"

definition demo_loader :: loader where
  "demo_loader = \<lparr>ld_vmm = demo_vmm, ld_mem = (\<lambda>_. 9), first_free_virt = 0\<rparr>"

lemma load_page_returns:
  assumes "case alloc_pages 1 (v_pmm (ld_vmm l)) of Panics _ \<Rightarrow> False
     | Returns (phy, p) \<Rightarrow> (case map_page pagemap phy (ph_virt_addr ph + i * 0x1000) (segment_flags ph) ((ld_vmm l)\<lparr>v_pmm := p\<rparr>) of
         Panics _ \<Rightarrow> False | Returns _ \<Rightarrow> True)"
  shows "\<exists>l'. load_page pagemap file ph i l = Returns l'"
proof -
  obtain phy p where al: "alloc_pages 1 (v_pmm (ld_vmm l)) = Returns (phy, p)"
    using assms by (cases "alloc_pages 1 (v_pmm (ld_vmm l))") auto
  let ?m = "map_page pagemap phy (ph_virt_addr ph + i * 0x1000) (segment_flags ph) ((ld_vmm l)\<lparr>v_pmm := p\<rparr>)"
  obtain v where "?m = Returns v" using assms al by (cases ?m) auto
  then show ?thesis using al by (simp add: load_page_def Let_def)
qed

lemma demo_load: "\<exists>l'. load_page demo_pagemap (data_node demo_file) demo_segment 0 demo_loader = Returns l'"
  by (rule load_page_returns) code_simp


end
