(* ===== verification/User_Space.thy ===== *)
theory User_Space
  imports Elf
begin

text \<open>
  The address space of a user task, as \<^verbatim>\<open>new_user_task\<close> of \<^verbatim>\<open>src/sched/sched.cpp\<close> builds it: a fresh root table with the
  kernel's half copied in, the image of the program, and the pages of its stack.
\<close>

section \<open>Definitions\<close>

text \<open>The pages of the user stack, mapped upwards from \<^verbatim>\<open>mmap_anon_base\<close>.\<close>

fun map_stack :: "nat \<Rightarrow> Pagemap \<Rightarrow> uptr \<Rightarrow> vmm \<Rightarrow> memory \<Rightarrow> (uptr \<times> vmm \<times> memory) outcome" where
  "map_stack 0 pm base v m = Returns (base, v, m)"
| "map_stack (Suc n) pm base v m =
     obind (alloc_pages 1 (v_pmm v)) (\<lambda>(page_phy, p).
       let m1 = memset m (page_phy + v_hhdm v) 0 0x1000
       in obind (map_page pm page_phy base (PAGE_PRESENT OR PAGE_USER OR PAGE_WRITABLE OR PAGE_NO_EXECUTE) (v\<lparr>v_pmm := p\<rparr>)) (\<lambda>v1.
            map_stack n pm (base + 0x1000) v1 m1))"

definition new_pagemap :: "Pagemap \<Rightarrow> uptr \<Rightarrow> vmm \<Rightarrow> (Pagemap \<times> vmm) outcome" where
  "new_pagemap kernel_pagemap head v =
     obind (alloc_pages 1 (v_pmm v)) (\<lambda>(page, p).
       let pm = \<lparr>pml4 = page + v_hhdm v, range_list_head = head\<rparr>;
           v1 = v\<lparr>v_pmm := p, v_cell := zero_page (v_cell v) (pml4 pm)\<rparr>;
           v2 = map_kernel pm kernel_pagemap v1
       in Returns (pm, v2\<lparr>v_list := list_init (v_list v2) head\<rparr>))"

section \<open>The fresh root\<close>

lemma walk_from_keep:
  assumes inv: "pt_inv s root lv" and keep: "\<And>x j. lv x \<noteq> 0 \<Longrightarrow> j < 512 \<Longrightarrow> c (cell_at x j) = v_cell s (cell_at x j)"
  shows "lv x = Suc n \<Longrightarrow> walk_from c (v_hhdm s) n x v = walk_from (v_cell s) (v_hhdm s) n x v"
proof (induction n arbitrary: x)
  case 0
  then show ?case using keep [of x "table_index 1 v"] by (simp add: walk_from_def)
next
  case (Suc n)
  then show ?case using keep [of x "table_index (Suc (Suc n)) v"] pt_next [OF inv Suc.prems index_less]
    by (simp add: walk_from_Suc Let_def)
qed

text \<open>What \<^verbatim>\<open>map_kernel\<close> does to the cells.\<close>

lemma map_kernel_cells:
  assumes b: "unat b < 2 ^ 40" "unat k < 2 ^ 40" "b \<noteq> k" and pm: "pml4 pm = page_at h b" "pml4 kpm = page_at h k"
  shows "i < 512 \<Longrightarrow> v_cell (map_kernel pm kpm v) (cell_at (page_at h b) i) =
      (if 256 \<le> i then v_cell v (cell_at (page_at h k) i) else v_cell v (cell_at (page_at h b) i))"
    and "(\<And>i. i < 512 \<Longrightarrow> x \<noteq> cell_at (page_at h b) i) \<Longrightarrow> v_cell (map_kernel pm kpm v) x = v_cell v x"
proof -
  let ?b = "cell_at (page_at h b)" and ?k = "cell_at (page_at h k)"
  define f where "f = (\<lambda>i c. c(?b i := c (?k i) :: u64))"
  define P where "P = (\<lambda>n c. \<forall>x. c x = (if \<exists>i. 256 \<le> i \<and> i < n \<and> x = ?b i then v_cell v (?k (THE i. i < 512 \<and> x = ?b i)) else v_cell v x))"
  have the: "(THE i'. i' < 512 \<and> ?b i = ?b i') = i" if "i < 512" for i using cell_inj [OF b(1,1) that] that by blast
  have apart: "?k i \<noteq> ?b j" if "i < 512" "j < 512" for i j using cell_inj [OF b(2,1) that] b(3) by blast
  have "P 512 (for_range f 256 512 (v_cell v))"
  proof (rule for_range_inv [where P = P])
    show "P 256 (v_cell v)" unfolding P_def by (auto dest: leD)
    fix i :: usize and c assume i: "256 \<le> i" "i < 512" and p: "P i c"
    have le: "j < i + 1 \<longleftrightarrow> j < i \<or> j = i" for j using unat_inc [OF i(2)] by (auto simp: word_less_nat_alt word_unat_eq_iff)
    have k: "c (?k i) = v_cell v (?k i)" using p apart [OF i(2)] i(2) unfolding P_def by (metis order.strict_trans)
    show "P (i + 1) (f i c)"
      unfolding P_def
    proof
      fix x
      show "f i c x = (if \<exists>j. 256 \<le> j \<and> j < i + 1 \<and> x = ?b j then v_cell v (?k (THE i. i < 512 \<and> x = ?b i)) else v_cell v x)"
      proof (cases "x = ?b i")
        case True
        then show ?thesis using k i le the [OF i(2)] by (auto simp: f_def)
      next
        case False
        then show ?thesis using p [unfolded P_def, rule_format, of x] by (auto simp: f_def le)
      qed
    qed
  qed simp
  then have P: "v_cell (map_kernel pm kpm v) x =
      (if \<exists>i. 256 \<le> i \<and> i < 512 \<and> x = ?b i then v_cell v (?k (THE i. i < 512 \<and> x = ?b i)) else v_cell v x)" for x
    by (simp add: map_kernel_def pm P_def f_def)
  show "i < 512 \<Longrightarrow> v_cell (map_kernel pm kpm v) (?b i) = (if 256 \<le> i then v_cell v (?k i) else v_cell v (?b i))"
  proof -
    assume i: "i < 512"
    have "(\<exists>i'. 256 \<le> i' \<and> i' < 512 \<and> ?b i = ?b i') \<longleftrightarrow> 256 \<le> i" using cell_inj [OF b(1,1) i] i by blast
    then show ?thesis unfolding P [of "?b i"] using the [OF i] by simp
  qed
  show "(\<And>i. i < 512 \<Longrightarrow> x \<noteq> ?b i) \<Longrightarrow> v_cell (map_kernel pm kpm v) x = v_cell v x" unfolding P [of x] by auto
qed

text \<open>The new address space: its tables are well-formed, its upper half is the kernel's, its lower half is empty.\<close>

lemma new_pagemap_inv:
  assumes inv: "pt_inv v (pml4 kpm) lv" and r: "new_pagemap kpm head v = Returns (pm, v')"
  shows "\<exists>lv'. pt_inv v' (pml4 pm) lv'" and "v_hhdm v' = v_hhdm v"
    and "walk v' (pml4 pm) x = (if 256 \<le> table_index 4 x then walk v (pml4 kpm) x else 0)"
proof -
  let ?h = "v_hhdm v"
  obtain f p where al: "alloc_pages 1 (v_pmm v) = Returns (f, p)" using r by (cases "alloc_pages 1 (v_pmm v)") (auto simp: new_pagemap_def)
  obtain b where b: "f = b * 0x1000" "unat b < 2 ^ 40" "\<not> page_used (v_pmm v) b" "page_used p b"
    "\<And>j. page_used (v_pmm v) j \<Longrightarrow> page_used p j" "frames_ok p"
    using frames.fresh_frame [OF pt_frames [OF inv] al] by blast
  obtain k where k: "pml4 kpm = page_at ?h k" "unat k < 2 ^ 40" "page_used (v_pmm v) k" using pt_page [OF inv, of "pml4 kpm"] pt_root [OF inv] by auto
  have bk: "b \<noteq> k" using b(3) k(3) by blast
  define v1 where "v1 = v\<lparr>v_pmm := p, v_cell := zero_page (v_cell v) (page_at ?h b)\<rparr>"
  define c where "c = v_cell (map_kernel pm kpm v1)"
  have root: "pml4 pm = page_at ?h b" and v': "v' = (map_kernel pm kpm v1)\<lparr>v_list := list_init (v_list v) head\<rparr>"
    using r al b(1) by (auto simp: new_pagemap_def v1_def page_at_def Let_def map_kernel_def)
  then have vc: "v_cell v' = c" "v_hhdm v' = ?h" "v_pmm v' = p" by (simp_all add: c_def map_kernel_def v1_def)
  note cells = map_kernel_cells [OF b(2) k(2) bk root k(1), of _ v1, folded c_def]
  have keep: "c (cell_at x j) = v_cell v (cell_at x j)" if x: "lv x \<noteq> 0" and j: "j < 512" for x j
  proof -
    obtain d where d: "x = page_at ?h d" "unat d < 2 ^ 40" "page_used (v_pmm v) d" using pt_page [OF inv x] by blast
    then have "d \<noteq> b" using b(3) by blast
    then have "cell_at x j \<noteq> cell_at (page_at ?h b) i" if "i < 512" for i using cell_inj [OF d(2) b(2) j that] d(1) by blast
    then have "c (cell_at x j) = v_cell v1 (cell_at x j)" using cells(2) by blast
    then show ?thesis using cell_in_page [OF d(2) b(2) j, of ?h] \<open>d \<noteq> b\<close> d(1) by (simp add: v1_def zero_page_def)
  qed
  have z: "v_cell v1 (cell_at (page_at ?h b) i) = 0" if "i < 512" for i
    using cell_in_page [OF b(2,2) that, of ?h] by (simp add: v1_def zero_page_def)
  have lvk: "lv (page_at ?h k) = 4" using pt_root [OF inv] k(1) by simp
  have lvb: "lv (page_at ?h b) = 0"
  proof (rule ccontr)
    assume "lv (page_at ?h b) \<noteq> 0"
    then obtain d where d: "page_at ?h b = page_at ?h d" "unat d < 2 ^ 40" "page_used (v_pmm v) d" using pt_page [OF inv] by blast
    then have "b = d" using cell_inj [OF b(2) d(2), of 0 0 ?h] by (simp add: cell_at_def)
    then show False using d(3) b(3) by simp
  qed
  have cr: "c (cell_at (page_at ?h b) i) = (if 256 \<le> i then v_cell v (cell_at (page_at ?h k) i) else 0)" if "i < 512" for i
  proof -
    have "v_cell v1 (cell_at (page_at ?h k) i) = v_cell v (cell_at (page_at ?h k) i)"
      using cell_in_page [OF k(2) b(2) that, of ?h] bk by (simp add: v1_def zero_page_def)
    then show ?thesis using cells(1) [OF that] z [OF that] by simp
  qed
  show "v_hhdm v' = v_hhdm v" by (rule vc)
  let ?i = "table_index 4 x"
  have "walk v' (pml4 pm) x = (let e = c (cell_at (page_at ?h b) ?i) in if present e then walk_from c ?h 2 (Vmm.target ?h e) x else 0)"
    using walk_from_Suc [of c ?h 2 "page_at ?h b" x] by (simp add: walk_def vc root eval_nat_numeral)
  moreover have "walk v (pml4 kpm) x = (let e = v_cell v (cell_at (page_at ?h k) ?i) in if present e then walk_from (v_cell v) ?h 2 (Vmm.target ?h e) x else 0)"
    using walk_from_Suc [of "v_cell v" ?h 2 "page_at ?h k" x] by (simp add: walk_def k(1) eval_nat_numeral)
  moreover have "walk_from c ?h 2 (Vmm.target ?h e) x = walk_from (v_cell v) ?h 2 (Vmm.target ?h e) x"
    if "e = v_cell v (cell_at (page_at ?h k) ?i)" "present e" for e
    using pt_next [OF inv, of "page_at ?h k" 2 ?i] lvk that by (intro walk_from_keep [OF inv keep]) simp_all
  ultimately show "walk v' (pml4 pm) x = (if 256 \<le> ?i then walk v (pml4 kpm) x else 0)"
    using cr [OF index_less, of 4 x] by (simp add: Let_def present_def)
  define lv' where "lv' = (\<lambda>t. if t = page_at ?h b then 4 else if lv t < 4 then lv t else 0)"
  have src: "\<exists>t' i'. present (v_cell v (cell_at t' i')) \<and> i' < 512 \<and> c (cell_at t i) = v_cell v (cell_at t' i') \<and>
      lv t' = lv' t \<and> i' = i \<and> t' = (if t = page_at ?h b then page_at ?h k else t)"
    if "lv' t \<noteq> 0" "i < 512" "present (c (cell_at t i))" for t i
    using that keep [of t i] cr [of i] lvk lvb by (auto simp: lv'_def present_def split: if_splits)
  have "pt_inv v' (pml4 pm) lv'"
    unfolding pt_inv_def vc root
  proof (intro conjI allI impI; (elim conjE)?)
    show "frames_ok p" by (rule b(6))
    show "lv' (page_at ?h b) = 4" by (simp add: lv'_def)
    show "\<exists>d. t = page_at ?h d \<and> unat d < 2 ^ 40 \<and> page_used p d" if "lv' t \<noteq> 0" for t
      using that pt_page [OF inv, of t] b(2,4,5) by (auto simp: lv'_def split: if_splits)
  next
    fix t l i assume t: "lv' t = Suc (Suc l)" "i < 512" "present (c (cell_at t i))"
    then obtain t' where t': "present (v_cell v (cell_at t' i))" "c (cell_at t i) = v_cell v (cell_at t' i)" "lv t' = Suc (Suc l)"
      using src [of t i] by auto
    have "lv (Vmm.target ?h (c (cell_at t i))) = Suc l" using pt_next [OF inv t'(3) t(2) t'(1)] t'(2) by simp
    moreover have "Suc (Suc l) \<le> 4" using t(1) by (auto simp: lv'_def split: if_splits)
    ultimately show "lv' (Vmm.target ?h (c (cell_at t i))) = Suc l" using lvb by (auto simp: lv'_def)
  next
    fix t u i j assume a: "2 \<le> lv' t" "2 \<le> lv' u" "i < 512" "j < 512" "present (c (cell_at t i))" "present (c (cell_at u j))"
      "Vmm.target ?h (c (cell_at t i)) = Vmm.target ?h (c (cell_at u j))"
    obtain t' where t': "present (v_cell v (cell_at t' i))" "c (cell_at t i) = v_cell v (cell_at t' i)" "lv t' = lv' t"
      "t' = (if t = page_at ?h b then page_at ?h k else t)" using src [of t i] a by auto
    obtain u' where u': "present (v_cell v (cell_at u' j))" "c (cell_at u j) = v_cell v (cell_at u' j)" "lv u' = lv' u"
      "u' = (if u = page_at ?h b then page_at ?h k else u)" using src [of u j] a by auto
    have "t' = u' \<and> i = j" using pt_inj [OF inv _ _ a(3,4) t'(1) u'(1)] t' u' a by simp
    moreover have "lv' (page_at ?h k) = 0" using lvk lvb by (auto simp: lv'_def)
    ultimately show "t = u" "i = j" using t'(4) u'(4) a(1,2) by (auto split: if_splits)
  qed
  then show "\<exists>lv'. pt_inv v' (pml4 pm) lv'" by blast
qed

section \<open>Pages in sequence\<close>

lemma same_page_nat: "same_page v w \<longleftrightarrow> unat v div 4096 mod 2 ^ 36 = unat w div 4096 mod 2 ^ 36"
proof -
  have "unat (take_bit 36 (drop_bit 12 x)) = unat x div 4096 mod 2 ^ 36" for x :: uptr
    by (simp add: unsigned_take_bit_eq unsigned_drop_bit_eq take_bit_eq_mod drop_bit_eq_div unat_div unat_mod)
  then show ?thesis unfolding same_page_def word_unat_eq_iff by simp
qed

lemma page_number:
  fixes x :: uptr
  assumes "i < 2 ^ 36"
  shows "unat (x + of_nat i * 0x1000) div 4096 mod 2 ^ 36 = (unat x div 4096 + i) mod 2 ^ 36"
proof -
  have "unat (of_nat i * 0x1000 :: uptr) = i * 4096" using assms by (subst unat_mult_nowrap; simp add: unat_of_nat_small)
  then have "unat (x + of_nat i * 0x1000) = (unat x + i * 4096) mod (4096 * 2 ^ 52)" by (simp add: unat_word_ariths)
  also have "\<dots> div 4096 = ((unat x + i * 4096) div 4096) mod 2 ^ 52" unfolding mod_mult2_eq by simp
  also have "\<dots> mod 2 ^ 36 = (unat x div 4096 + i) mod 2 ^ 36" by (simp add: mod_mod_cancel add.commute)
  finally show ?thesis .
qed

lemma pages_apart:
  assumes "j < 2 ^ 36" and "k < 2 ^ 36"
  shows "same_page (x + of_nat j * 0x1000) (x + of_nat k * 0x1000) \<longleftrightarrow> j = k"
proof -
  have "(int c + int j) mod 2 ^ 36 = (int c + int k) mod 2 ^ 36 \<Longrightarrow> j = k" for c
  proof -
    assume "(int c + int j) mod 2 ^ 36 = (int c + int k) mod 2 ^ 36"
    then have "2 ^ 36 dvd int j - int k" by (simp add: mod_eq_dvd_iff)
    then show "j = k" using assms zdvd_imp_le [of "2 ^ 36" "int j - int k"] zdvd_imp_le [of "2 ^ 36" "int k - int j"]
      by (cases j k rule: linorder_cases) (auto simp: dvd_diff_commute)
  qed
  moreover have z: "(int a + int b) mod 2 ^ 36 = int ((a + b) mod 2 ^ 36)" for a b by (simp add: zmod_int)
  have "(a + b) mod 2 ^ 36 = (a + d) mod 2 ^ 36 \<longleftrightarrow> (int a + int b) mod 2 ^ 36 = (int a + int d) mod 2 ^ 36" for a b d :: nat
    unfolding z by (rule of_nat_eq_iff [symmetric])
  ultimately show ?thesis unfolding same_page_nat page_number [OF assms(1)] page_number [OF assms(2)] by blast
qed

text \<open>Just below a page boundary is the page before, which is none of the following ones.\<close>

lemma below_apart:
  assumes "unat x mod 4096 = 0" and "k < 2 ^ 36 - 1"
  shows "\<not> same_page (x - 8) (x + of_nat k * 0x1000)"
proof -
  let ?q = "unat x div 4096"
  have q: "unat x = ?q * 4096" using assms(1) by auto
  have "unat (x - 8) div 4096 mod 2 ^ 36 = (?q + (2 ^ 36 - 1)) mod 2 ^ 36"
  proof (cases "?q = 0")
    case True
    then have "unat (x - 8) = 2 ^ 64 - 8" using q by (simp add: unat_sub_if_size word_size)
    then show ?thesis using True by simp
  next
    case False
    then have "unat (x - 8) = ?q * 4096 - 8" using q by (subst unat_sub_nowrap) (simp_all add: word_le_nat_alt)
    moreover have "?q * 4096 - 8 = (?q - 1) * 4096 + 4088" using False by (cases ?q) simp_all
    ultimately have "unat (x - 8) div 4096 = ?q - 1" by simp
    moreover have "?q + (2 ^ 36 - 1) = (?q - 1) + 2 ^ 36" using False by simp
    ultimately show ?thesis by (metis mod_add_self2)
  qed
  then have "same_page (x - 8) y \<longleftrightarrow> same_page (x + of_nat (2 ^ 36 - 1) * 0x1000) y" for y
    unfolding same_page_nat by (subst page_number) simp_all
  then show ?thesis using pages_apart [of "2 ^ 36 - 1" k x] assms(2) by simp
qed

section \<open>Loading keeps the tables well-formed\<close>

definition tables_ok :: "Pagemap \<Rightarrow> vmm \<Rightarrow> bool" where
  "tables_ok pm v \<longleftrightarrow> (\<exists>lv. pt_inv v (pml4 pm) lv)"

lemma tables_ok_alloc:
  assumes "tables_ok pm v" and "frames_ok p" and "\<And>j. page_used (v_pmm v) j \<Longrightarrow> page_used p j"
  shows "tables_ok pm (v\<lparr>v_pmm := p\<rparr>)"
  using assms pt_inv_upper [of v "pml4 pm" _ "v\<lparr>v_pmm := p\<rparr>"] unfolding tables_ok_def by auto

text \<open>Allocating a frame and mapping it, the step both the loader and the stack take.\<close>

lemma alloc_map:
  assumes ok: "tables_ok pm v" and al: "alloc_pages 1 (v_pmm v) = Returns (f, p)"
    and m: "map_page pm f virt flags (v\<lparr>v_pmm := p\<rparr>) = Returns v'"
  shows "tables_ok pm v'" and "v_hhdm v' = v_hhdm v" and "v_list v' = v_list v"
    and "\<exists>b. \<not> page_used (v_pmm v) b \<and> unat b < 2 ^ 40 \<and>
           (\<forall>x. walk v' (pml4 pm) x = (if same_page x virt then b * 0x1000 OR flags else walk v (pml4 pm) x))"
proof -
  obtain lv where inv: "pt_inv v (pml4 pm) lv" using ok by (auto simp: tables_ok_def)
  obtain b where b: "f = b * 0x1000" "unat b < 2 ^ 40" "\<not> page_used (v_pmm v) b" "page_used p b"
    "\<And>j. page_used (v_pmm v) j \<Longrightarrow> page_used p j" "frames_ok p"
    using frames.fresh_frame [OF pt_frames [OF inv] al] by blast
  have inv1: "pt_inv (v\<lparr>v_pmm := p\<rparr>) (pml4 pm) lv" using b(5,6) by (intro pt_inv_upper [OF inv]) simp_all
  note w = map_page_update [OF inv1 m]
  show "tables_ok pm v'" "v_hhdm v' = v_hhdm v" "v_list v' = v_list v" using w by (simp_all add: tables_ok_def)
  have "f AND ADDR_MASK = b * 0x1000" using frame_masked [OF b(2), of 0] b(1) by simp
  then show "\<exists>b. \<not> page_used (v_pmm v) b \<and> unat b < 2 ^ 40 \<and>
      (\<forall>x. walk v' (pml4 pm) x = (if same_page x virt then b * 0x1000 OR flags else walk v (pml4 pm) x))"
    using b(2,3) w by (intro exI [of _ b]) (simp add: walk_upper)
qed

lemma obind_Returns: "obind r f = Returns y \<longleftrightarrow> (\<exists>x. r = Returns x \<and> f x = Returns y)"
  by (cases r) auto

lemma load_page_ok:
  "tables_ok pm (ld_vmm l) \<Longrightarrow> load_page pm file ph i l = Returns l' \<Longrightarrow>
   tables_ok pm (ld_vmm l') \<and> v_hhdm (ld_vmm l') = v_hhdm (ld_vmm l) \<and> v_list (ld_vmm l') = v_list (ld_vmm l)"
  using alloc_map [of pm "ld_vmm l"] by (fastforce simp: load_page_def obind_Returns Let_def)

lemma load_pages_ok:
  "tables_ok pm (ld_vmm l) \<Longrightarrow> load_pages pm file ph i n l = Returns l' \<Longrightarrow>
   tables_ok pm (ld_vmm l') \<and> v_hhdm (ld_vmm l') = v_hhdm (ld_vmm l) \<and> v_list (ld_vmm l') = v_list (ld_vmm l)"
proof (induction pm "file" ph i n l rule: load_pages.induct)
  case (1 pm f ph i n l)
  show ?case
  proof (cases "i < n")
    case True
    then obtain l1 where l1: "load_page pm f ph i l = Returns l1" "load_pages pm f ph (i + 1) n l1 = Returns l'"
      using 1(3) by (auto simp: load_pages.simps [of _ _ _ i] obind_Returns)
    note p = load_page_ok [OF 1(2) l1(1)]
    then show ?thesis using 1(1) [OF True _ l1(2)] by simp
  qed (use 1 in \<open>simp add: load_pages.simps [of _ _ _ i]\<close>)
qed

lemma load_segment_ok:
  "tables_ok pm (ld_vmm l) \<Longrightarrow> load_segment pm file ph l = Returns l' \<Longrightarrow>
   tables_ok pm (ld_vmm l') \<and> v_hhdm (ld_vmm l') = v_hhdm (ld_vmm l) \<and> v_list (ld_vmm l') = v_list (ld_vmm l)"
  using load_pages_ok by (auto simp: load_segment_def split: if_splits)

lemma load_segments_ok:
  "tables_ok pm (ld_vmm l) \<Longrightarrow> load_segments pm file hdr is l = Returns l' \<Longrightarrow>
   tables_ok pm (ld_vmm l') \<and> v_hhdm (ld_vmm l') = v_hhdm (ld_vmm l) \<and> v_list (ld_vmm l') = v_list (ld_vmm l)"
proof (induction "is" arbitrary: l)
  case (Cons i "is")
  then show ?case using load_segment_ok by (fastforce simp: obind_Returns Let_def)
qed simp

lemma elf_load_ok:
  assumes "tables_ok pm v" and "elf_load pm file v m = Returns (ip, l)"
  shows "tables_ok pm (ld_vmm l)" and "v_hhdm (ld_vmm l) = v_hhdm v" and "v_list (ld_vmm l) = v_list v"
  using assms load_segments_ok [of pm "\<lparr>ld_vmm = v, ld_mem = m, first_free_virt = 0\<rparr>"]
  by (auto simp: elf_load_def obind_Returns Let_def split: if_splits)

text \<open>The stack.\<close>

definition stack_flags :: u64 where
  "stack_flags = PAGE_PRESENT OR PAGE_USER OR PAGE_WRITABLE OR PAGE_NO_EXECUTE"

lemma map_stack_pages:
  assumes "tables_ok pm v" and "map_stack n pm base v m = Returns (base', v', m')" and "n < 2 ^ 36"
  shows "tables_ok pm v' \<and> v_hhdm v' = v_hhdm v \<and> v_list v' = v_list v \<and> base' = base + of_nat n * 0x1000 \<and>
    (\<forall>x. (\<forall>k<n. \<not> same_page x (base + of_nat k * 0x1000)) \<longrightarrow> walk v' (pml4 pm) x = walk v (pml4 pm) x) \<and>
    (\<forall>k<n. \<exists>b. \<forall>x. same_page x (base + of_nat k * 0x1000) \<longrightarrow> walk v' (pml4 pm) x = b * 0x1000 OR stack_flags)"
  using assms
proof (induction n arbitrary: base v m)
  case (Suc n)
  obtain f p v1 m1 where al: "alloc_pages 1 (v_pmm v) = Returns (f, p)"
    and mp: "map_page pm f base stack_flags (v\<lparr>v_pmm := p\<rparr>) = Returns v1"
    and rest: "map_stack n pm (base + 0x1000) v1 m1 = Returns (base', v', m')"
    using Suc.prems(2) by (auto simp: obind_Returns stack_flags_def Let_def)
  note st = alloc_map [OF Suc.prems(1) al mp]
  obtain b where b: "\<And>x. walk v1 (pml4 pm) x = (if same_page x base then b * 0x1000 OR stack_flags else walk v (pml4 pm) x)"
    using st(4) by auto
  have ih: "tables_ok pm v' \<and> v_hhdm v' = v_hhdm v1 \<and> v_list v' = v_list v1 \<and> base' = base + 0x1000 + of_nat n * 0x1000 \<and>
    (\<forall>x. (\<forall>k<n. \<not> same_page x (base + 0x1000 + of_nat k * 0x1000)) \<longrightarrow> walk v' (pml4 pm) x = walk v1 (pml4 pm) x) \<and>
    (\<forall>k<n. \<exists>b. \<forall>x. same_page x (base + 0x1000 + of_nat k * 0x1000) \<longrightarrow> walk v' (pml4 pm) x = b * 0x1000 OR stack_flags)"
    using Suc.IH [OF st(1) rest] Suc.prems(3) by simp
  have e: "base + 0x1000 + of_nat k * 0x1000 = base + of_nat (Suc k) * 0x1000" for k by (simp add: algebra_simps)
  have first: "walk v' (pml4 pm) x = b * 0x1000 OR stack_flags" if x: "same_page x base" for x
  proof -
    have "\<not> same_page x (base + of_nat (Suc k) * 0x1000)" if "k < n" for k
      using pages_apart [of 0 "Suc k" base] that Suc.prems(3) x by (simp add: same_page_def)
    then show ?thesis using ih b [of x] x unfolding e by simp
  qed
  show ?case
  proof (intro conjI allI impI)
    show "\<exists>b. \<forall>x. same_page x (base + of_nat k * 0x1000) \<longrightarrow> walk v' (pml4 pm) x = b * 0x1000 OR stack_flags" if "k < Suc n" for k
      using that first ih unfolding e by (cases k) auto
    show "walk v' (pml4 pm) x = walk v (pml4 pm) x" if "\<forall>k<Suc n. \<not> same_page x (base + of_nat k * 0x1000)" for x
      using that [rule_format, of 0] that [rule_format, of "Suc _"] ih b [of x] unfolding e by simp
  qed (use ih st in \<open>simp_all add: algebra_simps\<close>)
qed simp

section \<open>Enough memory\<close>

text \<open>Frames that are left; nothing here panics while there are enough.\<close>

definition free_frames :: "pmm \<Rightarrow> usize set" where
  "free_frames p = {j. j < Bitmap.m_size (page_bitmap p) \<and> \<not> page_used p j}"

definition room :: "nat \<Rightarrow> pmm \<Rightarrow> bool" where
  "room n p \<longleftrightarrow> frames_ok p \<and> n \<le> card (free_frames p)"

lemma room_mono: "room n p \<Longrightarrow> m \<le> n \<Longrightarrow> room m p"
  by (simp add: room_def)

lemma alloc_room:
  assumes "room (unat n + k) p" and "alloc_pages n p = Returns (f, p')"
  shows "room k p'"
proof -
  have ok: "frames_ok p" "unat n + k \<le> card (free_frames p)" using assms(1) by (auto simp: room_def)
  then have wf: "pmm_wf p" by (simp add: frames_ok_def)
  obtain b where b: "unat b + unat n \<le> unat (Bitmap.m_size (page_bitmap p))"
    "\<forall>j. page_used p' j \<longleftrightarrow> page_used p j \<or> b \<le> j \<and> j < b + n" "page_bitmap p' = page_bitmap p" "pmm_wf p'"
    using alloc_pages_Returns [OF wf assms(2)] by blast
  have u: "unat (b + n) = unat b + unat n" using b(1) unat_64 [of "Bitmap.m_size (page_bitmap p)"] by (intro unat_add_nowrap) simp
  let ?r = "{j. b \<le> j \<and> j < b + n}"
  have "card ?r = card (unat ` ?r)" by (rule card_image [symmetric]) (simp add: inj_on_def word_unat_eq_iff)
  also have "\<dots> \<le> card {unat b..<unat b + unat n}"
    using u by (intro card_mono) (auto simp: word_le_nat_alt word_less_nat_alt)
  finally have "card ?r \<le> unat n" by simp
  moreover have "free_frames p - ?r \<subseteq> free_frames p'" using b(2,3) by (auto simp: free_frames_def)
  then have "card (free_frames p - ?r) \<le> card (free_frames p')" by (intro card_mono) simp_all
  moreover have "card (free_frames p) - card ?r \<le> card (free_frames p - ?r)" by (rule diff_card_le_card_Diff) simp
  moreover have "frames_ok p'" using ok(1) b(3,4) by (simp add: frames_ok_def)
  ultimately show ?thesis using ok(2) by (simp add: room_def)
qed

lemma alloc_one_room: "room (Suc k) p \<Longrightarrow> \<exists>f p'. alloc_pages 1 p = Returns (f, p') \<and> room k p'"
proof -
  assume r: "room (Suc k) p"
  then have "free_frames p \<noteq> {}" by (auto simp: room_def)
  then obtain j where "j < Bitmap.m_size (page_bitmap p)" "\<not> page_used p j" by (auto simp: free_frames_def)
  moreover have "pmm_wf p" using r by (simp add: room_def frames_ok_def)
  ultimately obtain f p' where a: "alloc_pages 1 p = Returns (f, p')" using alloc_one_returns by blast
  moreover have "room k p'" using r by (intro alloc_room [OF _ a]) simp
  ultimately show ?thesis by blast
qed

lemma next_level_room:
  "room (Suc k) (v_pmm s) \<Longrightarrow> \<exists>t' s'. page_table_next_level s t i = Returns (t', s') \<and> room k (v_pmm s')"
  using alloc_one_room [of k "v_pmm s"] room_mono [of "Suc k" "v_pmm s" k]
  by (cases "v_cell s (cell_at t i) AND PAGE_PRESENT = 0") (auto simp: page_table_next_level_def Let_def)

lemma last_table_room:
  assumes "room (3 + k) (v_pmm s)"
  shows "\<exists>t s'. last_table s root virt = Returns (t, s') \<and> room k (v_pmm s')"
proof -
  have "room (Suc (Suc (Suc k))) (v_pmm s)" using assms by (simp add: numeral_3_eq_3)
  then obtain t3 s3 where 3: "page_table_next_level s root (drop_bit 39 virt AND 0x1FF) = Returns (t3, s3)" "room (Suc (Suc k)) (v_pmm s3)"
    using next_level_room by blast
  obtain t2 s2 where 2: "page_table_next_level s3 t3 (drop_bit 30 virt AND 0x1FF) = Returns (t2, s2)" "room (Suc k) (v_pmm s2)"
    using next_level_room [OF 3(2)] by blast
  obtain t1 s1 where 1: "page_table_next_level s2 t2 (drop_bit 21 virt AND 0x1FF) = Returns (t1, s1)" "room k (v_pmm s1)"
    using next_level_room [OF 2(2)] by blast
  show ?thesis using 1 2(1) 3(1) by (simp add: last_table_def)
qed

lemma map_page_room:
  assumes "room (3 + k) (v_pmm s)"
  shows "\<exists>s'. map_page this phy virt flags s = Returns s' \<and> room k (v_pmm s')"
  using last_table_room [OF assms, of "pml4 this" virt] by (auto simp: map_page_def Let_def)

lemma map_stack_room:
  "room (4 * n) (v_pmm v) \<Longrightarrow> \<exists>r. map_stack n pm base v m = Returns r"
proof (induction n arbitrary: base v m)
  case (Suc n)
  then have "room (Suc (3 + 4 * n)) (v_pmm v)" by simp
  then obtain f p where a: "alloc_pages 1 (v_pmm v) = Returns (f, p)" "room (3 + 4 * n) p" using alloc_one_room by blast
  then obtain v1 where v1: "map_page pm f base (PAGE_PRESENT OR PAGE_USER OR PAGE_WRITABLE OR PAGE_NO_EXECUTE) (v\<lparr>v_pmm := p\<rparr>) = Returns v1"
    "room (4 * n) (v_pmm v1)" using map_page_room [of "4 * n" "v\<lparr>v_pmm := p\<rparr>" pm f base] by auto
  then show ?case using Suc.IH [OF v1(2)] a(1) by (auto simp: Let_def)
qed simp

section \<open>Properties\<close>

text \<open>The address space of a new task shares the kernel's half with the kernel and has nothing mapped in the user's half; its tables
  are well-formed and its list of ranges is empty.\<close>

theorem new_pagemap_shares_kernel:
  assumes "tables_ok kpm v" and "new_pagemap kpm head v = Returns (pm, v')" and "head \<noteq> 0"
  shows "tables_ok pm v' \<and> ring (v_list v') (range_list_head pm) [] \<and>
         walk v' (pml4 pm) x = (if 256 \<le> table_index 4 x then walk v (pml4 kpm) x else 0)"
proof -
  obtain lv where "pt_inv v (pml4 kpm) lv" using assms(1) by (auto simp: tables_ok_def)
  note n = new_pagemap_inv [OF this assms(2)]
  have "range_list_head pm = head" "v_list v' = list_init (v_list v) head"
    using assms(2) by (auto simp: new_pagemap_def obind_Returns Let_def map_kernel_def)
  then show ?thesis using n(1) n(3) [of x] ring_init [OF assms(3)] by (simp add: tables_ok_def)
qed

lemma new_pagemap_returns: "alloc_pages 1 (v_pmm v) = Returns (f, p) \<Longrightarrow> \<exists>pm v'. new_pagemap kpm head v = Returns (pm, v')"
  by (simp add: new_pagemap_def Let_def)

lemma demo_alloc: "\<exists>f p. alloc_pages 1 (v_pmm demo_vmm) = Returns (f, p)"
proof -
  have "case alloc_pages 1 (v_pmm demo_vmm) of Returns _ \<Rightarrow> True | Panics _ \<Rightarrow> False" by code_simp
  then show ?thesis by (auto split: outcome.splits)
qed

theorem new_pagemap_shares_kernel_witness:
  "\<exists>pm v'. new_pagemap demo_pagemap 0x500 demo_vmm = Returns (pm, v') \<and> walk v' (pml4 pm) 0x400000 = 0"
proof -
  obtain pm v' where n: "new_pagemap demo_pagemap 0x500 demo_vmm = Returns (pm, v')"
    using new_pagemap_returns demo_alloc by blast
  have "tables_ok demo_pagemap demo_vmm" using demo_pt_inv by (auto simp: tables_ok_def)
  moreover have "\<not> 256 \<le> table_index 4 0x400000" by code_simp
  ultimately show ?thesis using new_pagemap_shares_kernel [OF _ n, where x = "0x400000"] n by auto
qed

end
