(* ===== verification/Keyboard.thy ===== *)
theory Keyboard
  imports Fish_Prelude
begin

text \<open>
  The PS/2 keyboard driver of \<^verbatim>\<open>src/ps2/kbd/keyboard.cpp\<close>: the interrupt handler turns scancodes into
  characters and puts them into a ring buffer, \<^verbatim>\<open>read\<close> takes them out. Handler and reader
  interleave: \<open>kbd_step\<close> has one rule for each, and the handler may run between any two steps of
  the reader. \<open>kbd_read\<close> is the reader with the interrupts that arrive while it waits.
\<close>

section \<open>Definitions\<close>

definition buffer_size :: usize where "buffer_size = 256"

definition kbd_map :: "u8 list" where
  "kbd_map =
     [0, 27, 49, 50, 51, 52, 53, 54, 55, 56,
      57, 48, 45, 61, 8,
      9,
      113, 119, 101, 114,
      116, 121, 117, 105, 111, 112, 91, 93, 10,
      0,
      97, 115, 100, 102, 103, 104, 106, 107, 108, 59,
      39, 96, 0,
      92, 122, 120, 99, 118, 98, 110,
      109, 44, 46, 47, 0,
      42,
      0,
      32,
      0,
      0,
      0, 0, 0, 0, 0, 0, 0, 0,
      0,
      0,
      0,
      0,
      0,
      0,
      45,
      0,
      0,
      0,
      43] @ replicate 49 0"

record kbd =
  kb_buffer :: "u8 list"
  buffer_write_index :: usize
  buffer_read_index :: usize
  left_shift :: bool
  right_shift :: bool
  caps_lock :: bool

definition kbd_boot :: kbd where
  "kbd_boot = \<lparr>kb_buffer = replicate 256 0, buffer_write_index = 0, buffer_read_index = 0,
     left_shift = False, right_shift = False, caps_lock = False\<rparr>"

definition is_caps :: "kbd \<Rightarrow> bool" where
  "is_caps k = (caps_lock k \<noteq> (left_shift k \<or> right_shift k))"

text \<open>Storing a character, with what is echoed: a full buffer drops it.\<close>

definition kbd_put :: "u8 \<Rightarrow> kbd \<Rightarrow> kbd \<times> u8 list" where
  "kbd_put c k =
     (if (buffer_write_index k + 1) mod buffer_size \<noteq> buffer_read_index k
      then (k\<lparr>kb_buffer := (kb_buffer k)[unat (buffer_write_index k) := c],
              buffer_write_index := (buffer_write_index k + 1) mod buffer_size\<rparr>, [c])
      else (k, []))"

definition kbd_irq :: "u8 \<Rightarrow> kbd \<Rightarrow> kbd \<times> u8 list" where
  "kbd_irq scancode k =
     (if scancode AND 128 \<noteq> 0 then
        (let code = scancode AND 127
         in if code = 42 then (k\<lparr>left_shift := False\<rparr>, [])
            else if code = 54 then (k\<lparr>right_shift := False\<rparr>, [])
            else if code = 58 then (k\<lparr>caps_lock := \<not> caps_lock k\<rparr>, [])
            else (k, []))
      else if scancode = 42 then (k\<lparr>left_shift := True\<rparr>, [])
      else if scancode = 54 then (k\<lparr>right_shift := True\<rparr>, [])
      else let c = kbd_map ! unat scancode
           in if c \<noteq> 0 then kbd_put (if is_caps k \<and> 97 \<le> c \<and> c \<le> 122 then c - 97 + 65 else c) k
              else (k, []))"

definition kbd_init :: "kbd \<Rightarrow> kbd" where
  "kbd_init k = k\<lparr>kb_buffer := replicate (unat buffer_size) 0\<rparr>"

text \<open>One turn of the loop of \<^verbatim>\<open>read\<close> once the buffer is not empty; \<open>None\<close> while it waits.\<close>

definition kbd_take :: "kbd \<Rightarrow> (u8 \<times> kbd) option" where
  "kbd_take k =
     (if buffer_read_index k = buffer_write_index k then None
      else Some (kb_buffer k ! unat (buffer_read_index k),
                 k\<lparr>buffer_read_index := (buffer_read_index k + 1) mod buffer_size\<rparr>))"

text \<open>\<open>got\<close> is what is in the caller's buffer, \<open>irqs\<close> the scancodes that arrive while the loop waits; \<open>None\<close>
  is waiting forever.\<close>

function kbd_read_loop :: "kbd \<Rightarrow> usize \<Rightarrow> u8 list \<Rightarrow> u8 list \<Rightarrow> (u8 list \<times> kbd) option" where
  "kbd_read_loop k cnt got irqs =
     (if length got < unat cnt then
        (case kbd_take k of
           None \<Rightarrow> (case irqs of [] \<Rightarrow> None | sc # rest \<Rightarrow> kbd_read_loop (fst (kbd_irq sc k)) cnt got rest)
         | Some (c, k') \<Rightarrow> if c = 10 then Some (got @ [c], k') else kbd_read_loop k' cnt (got @ [c]) irqs)
      else Some (got, k))"
  by pat_completeness auto
termination
  by (relation "measures [\<lambda>(k, cnt, got, irqs). unat cnt - length got, \<lambda>(k, cnt, got, irqs). length irqs]") auto

declare kbd_read_loop.simps [simp del]

definition kbd_read :: "kbd \<Rightarrow> usize \<Rightarrow> u8 list \<Rightarrow> (u8 list \<times> kbd) option" where
  "kbd_read k cnt irqs = kbd_read_loop k cnt [] irqs"

section \<open>The ring buffer is a bounded queue\<close>

locale bounded_queue =
  fixes ok :: "'q \<Rightarrow> bool" and items :: "'q \<Rightarrow> 'a list" and cap :: nat
    and put :: "'a \<Rightarrow> 'q \<Rightarrow> 'q \<times> 'a list" and take_first :: "'q \<Rightarrow> ('a \<times> 'q) option"
  assumes put_ok: "ok q \<Longrightarrow> ok (fst (put x q))"
    and put_items: "ok q \<Longrightarrow> items (fst (put x q)) = items q @ snd (put x q)"
    and put_accepts: "ok q \<Longrightarrow> snd (put x q) = (if length (items q) < cap then [x] else [])"
    and take_items: "ok q \<Longrightarrow> (case take_first q of None \<Rightarrow> items q = [] | Some (x, q') \<Rightarrow> ok q' \<and> items q = x # items q')"
begin

text \<open>Whatever the order of insertions (\<open>Some x\<close>) and removals (\<open>None\<close>), what comes out is a prefix of what was
  accepted, in order, and the rest is in the queue.\<close>

fun run :: "'a option list \<Rightarrow> 'q \<Rightarrow> 'a list \<times> 'a list \<times> 'q" where
  "run [] q = ([], [], q)"
| "run (Some x # es) q = (let (q', a) = put x q; (as, ts, r) = run es q' in (a @ as, ts, r))"
| "run (None # es) q = (case take_first q of None \<Rightarrow> run es q | Some (x, q') \<Rightarrow> let (as, ts, r) = run es q' in (as, x # ts, r))"

lemma run_fifo: "ok q \<Longrightarrow> run es q = (as, ts, r) \<Longrightarrow> ok r \<and> items q @ as = ts @ items r"
proof (induction es q arbitrary: as ts r rule: run.induct)
  case (2 x es q)
  then show ?case using put_ok [OF 2(2), of x] put_items [OF 2(2), of x]
    by (fastforce simp: Let_def split: prod.splits)
next
  case (3 es q)
  then show ?case using take_items [OF 3(3)] by (fastforce simp: Let_def split: prod.splits option.splits)
qed simp

end

definition pending :: "kbd \<Rightarrow> nat" where
  "pending k = (unat (buffer_write_index k) + 256 - unat (buffer_read_index k)) mod 256"

definition kbd_items :: "kbd \<Rightarrow> u8 list" where
  "kbd_items k = map (\<lambda>i. kb_buffer k ! ((unat (buffer_read_index k) + i) mod 256)) [0..<pending k]"

definition kbd_ok :: "kbd \<Rightarrow> bool" where
  "kbd_ok k \<longleftrightarrow> length (kb_buffer k) = 256 \<and> buffer_write_index k < 256 \<and> buffer_read_index k < 256"

lemma unat_next_index: "i < 256 \<Longrightarrow> unat ((i + 1) mod buffer_size) = (unat i + 1) mod 256" for i :: usize
proof -
  assume "i < 256"
  then have "unat (i + 1) = unat i + 1" using unat_inc [of i 256] by simp
  then show ?thesis by (simp add: unat_mod buffer_size_def)
qed

lemma ring_arith:
  fixes r w :: nat
  assumes "r < 256" and "w < 256"
  shows "(r + (w + 256 - r) mod 256) mod 256 = w" "(w + 256 - r) mod 256 < 256"
    "i < (w + 256 - r) mod 256 \<Longrightarrow> (r + i) mod 256 \<noteq> w"
    "(w + 1) mod 256 \<noteq> r \<longleftrightarrow> (w + 256 - r) mod 256 < 255"
    "(w + 256 - r) mod 256 < 255 \<Longrightarrow> ((w + 1) mod 256 + 256 - r) mod 256 = (w + 256 - r) mod 256 + 1"
    "r \<noteq> w \<Longrightarrow> (w + 256 - (r + 1) mod 256) mod 256 + 1 = (w + 256 - r) mod 256"
    "(w + 256 - r) mod 256 = 0 \<longleftrightarrow> r = w"
proof -
  have m: "(w + 256 - r) mod 256 = (if r \<le> w then w - r else w + 256 - r)"
  proof (cases "r \<le> w")
    case True
    then have "w + 256 - r = (w - r) + 256" by simp
    then have "(w + 256 - r) mod 256 = (w - r) mod 256" by (metis mod_add_self2)
    then show ?thesis using assms True by simp
  qed (use assms in simp)
  have s: "n < 512 \<Longrightarrow> n mod 256 = (if n < 256 then n else n - 256)" for n :: nat by (simp add: mod_if)
  show "(r + (w + 256 - r) mod 256) mod 256 = w" unfolding m using assms by (auto simp: s)
  show "(w + 256 - r) mod 256 < 256" by simp
  show "i < (w + 256 - r) mod 256 \<Longrightarrow> (r + i) mod 256 \<noteq> w" unfolding m using assms by (auto simp: s split: if_splits)
  show "(w + 1) mod 256 \<noteq> r \<longleftrightarrow> (w + 256 - r) mod 256 < 255" unfolding m using assms by (auto simp: s)
  show "(w + 256 - r) mod 256 < 255 \<Longrightarrow> ((w + 1) mod 256 + 256 - r) mod 256 = (w + 256 - r) mod 256 + 1"
    unfolding m using assms by (cases "w = 255"; cases "r \<le> w"; auto simp: s)
  show "r \<noteq> w \<Longrightarrow> (w + 256 - (r + 1) mod 256) mod 256 + 1 = (w + 256 - r) mod 256"
    unfolding m using assms by (cases "r = 255"; cases "r \<le> w"; auto simp: s)
  show "(w + 256 - r) mod 256 = 0 \<longleftrightarrow> r = w" unfolding m using assms by auto
qed

lemma kbd_put_queue:
  assumes ok: "kbd_ok k"
  shows "kbd_ok (fst (kbd_put c k)) \<and> kbd_items (fst (kbd_put c k)) = kbd_items k @ snd (kbd_put c k) \<and>
     snd (kbd_put c k) = (if length (kbd_items k) < 255 then [c] else [])"
proof -
  let ?r = "unat (buffer_read_index k)" and ?w = "unat (buffer_write_index k)"
  have b: "?r < 256" "?w < 256" using ok by (simp_all add: kbd_ok_def word_less_nat_alt)
  note a = ring_arith [OF b, folded pending_def]
  have next_w: "unat ((buffer_write_index k + 1) mod buffer_size) = (?w + 1) mod 256"
    using ok by (intro unat_next_index) (simp add: kbd_ok_def)
  then have guard: "(buffer_write_index k + 1) mod buffer_size \<noteq> buffer_read_index k \<longleftrightarrow> pending k < 255"
    using a(4) by (simp add: word_unat_eq_iff)
  show ?thesis
  proof (cases "pending k < 255")
    case True
    let ?k = "fst (kbd_put c k)"
    have k': "?k = k\<lparr>kb_buffer := (kb_buffer k)[?w := c], buffer_write_index := (buffer_write_index k + 1) mod buffer_size\<rparr>"
      "snd (kbd_put c k) = [c]" using True guard by (simp_all add: kbd_put_def)
    have p: "pending ?k = pending k + 1" using a(5) True next_w by (simp add: pending_def k')
    have "kb_buffer ?k ! ((?r + i) mod 256) = kb_buffer k ! ((?r + i) mod 256)" if "i < pending k" for i
      using a(3) [OF that] by (simp add: k')
    moreover have "kb_buffer ?k ! ((?r + pending k) mod 256) = c" using ok b a(1) by (simp add: k' kbd_ok_def)
    ultimately have "kbd_items ?k = kbd_items k @ [c]" by (simp add: kbd_items_def p) (simp add: k')
    moreover have "kbd_ok ?k" using ok next_w by (simp add: kbd_ok_def k' word_less_nat_alt)
    ultimately show ?thesis using True k'(2) by (simp add: kbd_items_def)
  next
    case False
    then show ?thesis using guard ok by (simp add: kbd_put_def kbd_items_def)
  qed
qed

lemma kbd_take_queue:
  assumes ok: "kbd_ok k"
  shows "case kbd_take k of None \<Rightarrow> kbd_items k = [] | Some (c, k') \<Rightarrow> kbd_ok k' \<and> kbd_items k = c # kbd_items k'"
proof -
  let ?r = "unat (buffer_read_index k)" and ?w = "unat (buffer_write_index k)"
  have b: "?r < 256" "?w < 256" using ok by (simp_all add: kbd_ok_def word_less_nat_alt)
  note a = ring_arith [OF b, folded pending_def]
  have next_r: "unat ((buffer_read_index k + 1) mod buffer_size) = (?r + 1) mod 256"
    using ok by (intro unat_next_index) (simp add: kbd_ok_def)
  show ?thesis
  proof (cases "buffer_read_index k = buffer_write_index k")
    case True
    then show ?thesis using a(7) by (simp add: kbd_take_def kbd_items_def)
  next
    case False
    let ?k = "k\<lparr>buffer_read_index := (buffer_read_index k + 1) mod buffer_size\<rparr>"
    have p: "pending k = Suc (pending ?k)" using a(6) False next_r by (simp add: pending_def word_unat_eq_iff)
    have "[0..<Suc n] = 0 # map Suc [0..<n]" for n by (simp add: map_Suc_upt upt_conv_Cons del: upt_Suc)
    moreover have "(?r + Suc i) mod 256 = ((?r + 1) mod 256 + i) mod 256" for i by (simp add: mod_add_left_eq)
    ultimately have "kbd_items k = kb_buffer k ! ?r # kbd_items ?k"
      using b(1) by (simp add: kbd_items_def p next_r o_def del: upt_Suc)
    moreover have "kbd_ok ?k" using ok next_r by (simp add: kbd_ok_def word_less_nat_alt)
    ultimately show ?thesis using False by (simp add: kbd_take_def)
  qed
qed

interpretation ring: bounded_queue kbd_ok kbd_items 255 kbd_put kbd_take
  using kbd_put_queue kbd_take_queue by unfold_locales auto

section \<open>Interrupts between the steps of a reader\<close>

lemma kbd_map_length [simp]: "length kbd_map = 128"
  by (simp add: kbd_map_def)

lemma kbd_map_keys: "kbd_map ! 28 = 10" "kbd_map ! 30 = 97" "kbd_map ! 57 = 32" "kbd_map ! 74 = 45" "kbd_map ! 78 = 43"
  by (simp_all add: kbd_map_def)

lemma kbd_shift_keys [simp]:
  "kbd_ok (k\<lparr>left_shift := b\<rparr>) = kbd_ok k" "kbd_ok (k\<lparr>right_shift := b\<rparr>) = kbd_ok k" "kbd_ok (k\<lparr>caps_lock := b\<rparr>) = kbd_ok k"
  "kbd_items (k\<lparr>left_shift := b\<rparr>) = kbd_items k" "kbd_items (k\<lparr>right_shift := b\<rparr>) = kbd_items k"
  "kbd_items (k\<lparr>caps_lock := b\<rparr>) = kbd_items k"
  by (simp_all add: kbd_ok_def kbd_items_def pending_def)

text \<open>The handler appends exactly what it echoes.\<close>

lemma kbd_irq_queue:
  "kbd_ok k \<Longrightarrow> kbd_ok (fst (kbd_irq sc k)) \<and> kbd_items (fst (kbd_irq sc k)) = kbd_items k @ snd (kbd_irq sc k)"
  using ring.put_ok ring.put_items by (simp add: kbd_irq_def Let_def)

record kbd_run =
  kr_kbd :: kbd
  kr_got :: "u8 list"
  kr_done :: bool
  kr_echo :: "u8 list"

inductive kbd_step :: "usize \<Rightarrow> kbd_run \<Rightarrow> kbd_run \<Rightarrow> bool" for cnt :: usize where
  interrupt: "kbd_irq sc (kr_kbd s) = (k, e) \<Longrightarrow> kbd_step cnt s (s\<lparr>kr_kbd := k, kr_echo := kr_echo s @ e\<rparr>)"
| deliver: "\<not> kr_done s \<Longrightarrow> length (kr_got s) < unat cnt \<Longrightarrow> kbd_take (kr_kbd s) = Some (c, k) \<Longrightarrow>
    kbd_step cnt s (s\<lparr>kr_kbd := k, kr_got := kr_got s @ [c], kr_done := (c = 10)\<rparr>)"
| full: "\<not> kr_done s \<Longrightarrow> \<not> length (kr_got s) < unat cnt \<Longrightarrow> kbd_step cnt s (s\<lparr>kr_done := True\<rparr>)"

inductive_cases kbd_stepE: "kbd_step cnt s s'"

text \<open>Every character accepted is delivered in order or still in the buffer; a newline can only be the last
  delivered, and then the call is over.\<close>

definition kbd_inv :: "usize \<Rightarrow> u8 list \<Rightarrow> kbd_run \<Rightarrow> bool" where
  "kbd_inv cnt old s \<longleftrightarrow> kbd_ok (kr_kbd s) \<and> old @ kr_echo s = kr_got s @ kbd_items (kr_kbd s) \<and>
     length (kr_got s) \<le> unat cnt \<and> 10 \<notin> set (butlast (kr_got s)) \<and> (10 \<in> set (kr_got s) \<longrightarrow> kr_done s)"

lemma kbd_step_inv: "kbd_step cnt s s' \<Longrightarrow> kbd_inv cnt old s \<Longrightarrow> kbd_inv cnt old s'"
proof (induction rule: kbd_step.induct)
  case (interrupt sc s k e)
  then show ?case using kbd_irq_queue [of "kr_kbd s" sc] by (auto simp: kbd_inv_def)
next
  case (deliver s c k)
  then show ?case using kbd_take_queue [of "kr_kbd s"] by (auto simp: kbd_inv_def dest: in_set_butlastD)
qed (auto simp: kbd_inv_def)


lemma kbd_boot_ok: "kbd_ok kbd_boot" "kbd_items kbd_boot = []"
  by (simp_all add: kbd_boot_def kbd_ok_def kbd_items_def pending_def)


end
