(* ===== verification/Framebuffer.thy ===== *)
theory Framebuffer
  imports Kmem
begin

text \<open>
  The linear framebuffer of \<^verbatim>\<open>src/gfx/framebuffer.cpp\<close>. Coordinates are 16-bit, the sums in the
  loop conditions are \<^verbatim>\<open>int\<close>s and the byte offsets 32-bit, as in the source; a
  16-bit counter that can never reach its bound makes \<open>fill_rect\<close> diverge (\<open>None\<close>). The
  linked PSF font is a parameter: its header and the bytes of its image.
\<close>

section \<open>Definitions\<close>

record Framebuffer =
  fb_addr :: uptr
  fb_width :: u32
  fb_height :: u32
  fb_pitch :: u32
  fb_pixel_width :: u32

text \<open>The three colour bytes stored at a pixel, blue first.\<close>

definition blue :: "u32 \<Rightarrow> u8" where "blue rgb = ucast (rgb AND 255)"
definition green :: "u32 \<Rightarrow> u8" where "green rgb = ucast (drop_bit 8 rgb AND 255)"
definition red :: "u32 \<Rightarrow> u8" where "red rgb = ucast (drop_bit 16 rgb AND 255)"

definition put_pixel :: "Framebuffer \<Rightarrow> u16 \<Rightarrow> u16 \<Rightarrow> u32 \<Rightarrow> memory \<Rightarrow> memory" where
  "put_pixel fb x y rgb m =
     (if ucast x > fb_width fb \<or> ucast y > fb_height fb then m
      else let pos = fb_addr fb + ucast (ucast x * fb_pixel_width fb + ucast y * fb_pitch fb)
           in m(pos := blue rgb, pos + 1 := green rgb, pos + 2 := red rgb))"

partial_function (option) fill_row ::
    "Framebuffer \<Rightarrow> uptr \<Rightarrow> u16 \<Rightarrow> u16 \<Rightarrow> u32 \<Rightarrow> u16 \<Rightarrow> memory \<Rightarrow> memory option" where
  "fill_row fb pos x w rgb j m =
     (if unat j < unat w + unat x then
        if ucast j \<ge> fb_width fb then fill_row fb pos x w rgb (j + 1) m
        else let pw = fb_pixel_width fb
             in fill_row fb pos x w rgb (j + 1)
                  (m(pos + ucast (ucast j * pw) := blue rgb,
                     pos + ucast (ucast j * pw + 1) := green rgb,
                     pos + ucast (ucast j * pw + 2) := red rgb))
      else Some m)"

partial_function (option) fill_rows ::
    "Framebuffer \<Rightarrow> u16 \<Rightarrow> u16 \<Rightarrow> u16 \<Rightarrow> u16 \<Rightarrow> u32 \<Rightarrow> u16 \<Rightarrow> memory \<Rightarrow> memory option" where
  "fill_rows fb x y w h rgb i m =
     (if unat i < unat h + unat y then
        if ucast i \<ge> fb_height fb then fill_rows fb x y w h rgb (i + 1) m
        else case fill_row fb (fb_addr fb + ucast (fb_pitch fb * ucast i)) x w rgb x m of
               None \<Rightarrow> None
             | Some m' \<Rightarrow> fill_rows fb x y w h rgb (i + 1) m'
      else Some m)"

definition fill_rect :: "Framebuffer \<Rightarrow> u16 \<Rightarrow> u16 \<Rightarrow> u16 \<Rightarrow> u16 \<Rightarrow> u32 \<Rightarrow> memory \<Rightarrow> memory option" where
  "fill_rect fb x y w h rgb m = fill_rows fb x y w h rgb y m"

record PSF =
  psf_magic :: u32
  psf_version :: u32
  psf_header_size :: u32
  psf_flags :: u32
  psf_num_glyph :: u32
  psf_bytes_per_glyph :: u32
  psf_height :: u32
  psf_width :: u32

text \<open>A 32-bit store, little endian.\<close>

definition store32 :: "memory \<Rightarrow> uptr \<Rightarrow> u32 \<Rightarrow> memory" where
  "store32 m a v = m(a := ucast v, a + 1 := ucast (drop_bit 8 v), a + 2 := ucast (drop_bit 16 v), a + 3 := ucast (drop_bit 24 v))"

text \<open>One row of a glyph: \<^verbatim>\<open>mask\<close> moves right, \<^verbatim>\<open>line\<close> by a pixel.\<close>

primrec psf_row :: "Framebuffer \<Rightarrow> u8 \<Rightarrow> u32 \<Rightarrow> u32 \<Rightarrow> nat \<Rightarrow> usize \<Rightarrow> usize \<Rightarrow> memory \<Rightarrow> memory" where
  "psf_row fb glyph fg bg 0 msk line m = m"
| "psf_row fb glyph fg bg (Suc n) msk line m =
     psf_row fb glyph fg bg n (drop_bit 1 msk) (line + ucast (fb_pixel_width fb))
       (store32 m (fb_addr fb + line) (if ucast glyph AND msk \<noteq> 0 then fg else bg))"

text \<open>The rows; \<^verbatim>\<open>1 << (font->width - 1)\<close> is an \<^verbatim>\<open>int\<close>, whose shift count is taken modulo 32.\<close>

primrec psf_rows ::
    "Framebuffer \<Rightarrow> PSF \<Rightarrow> (usize \<Rightarrow> u8) \<Rightarrow> u32 \<Rightarrow> u32 \<Rightarrow> nat \<Rightarrow> usize \<Rightarrow> u64 \<Rightarrow> memory \<Rightarrow> memory" where
  "psf_rows fb font img fg bg 0 glyph pos m = m"
| "psf_rows fb font img fg bg (Suc n) glyph pos m =
     psf_rows fb font img fg bg n (glyph + ucast ((psf_width font + 7) div 8)) (pos + ucast (fb_pitch fb))
       (psf_row fb (img glyph) fg bg (unat (psf_width font))
          (scast (push_bit (unat ((psf_width font - 1) mod 32)) 1 :: u32)) pos m)"

definition draw_psf_char ::
    "Framebuffer \<Rightarrow> PSF \<Rightarrow> (usize \<Rightarrow> u8) \<Rightarrow> u32 \<Rightarrow> u16 \<Rightarrow> u16 \<Rightarrow> u16 \<Rightarrow> u16 \<Rightarrow> u32 \<Rightarrow> u32 \<Rightarrow> memory \<Rightarrow> memory" where
  "draw_psf_char fb font img c cx cy offx offy fg bg m =
     (let glyph = ucast (psf_header_size font) +
                  ucast ((if c > 0 \<and> c < psf_num_glyph font then c else 0) * psf_bytes_per_glyph font);
          pos = ucast ((ucast cy * psf_height font + ucast offy) * fb_pitch fb +
                          (ucast cx * psf_width font + ucast offx) * 4)
      in psf_rows fb font img fg bg (unat (psf_height font)) glyph pos m)"

section \<open>The screen as a grid of pixels\<close>

definition fb_ok :: "Framebuffer \<Rightarrow> bool" where
  "fb_ok fb \<longleftrightarrow> 3 \<le> unat (fb_pixel_width fb) \<and> unat (fb_width fb) * unat (fb_pixel_width fb) \<le> unat (fb_pitch fb) \<and>
     unat (fb_pitch fb) * unat (fb_height fb) < 2 ^ 32"

definition off :: "Framebuffer \<Rightarrow> nat \<Rightarrow> nat \<Rightarrow> nat \<Rightarrow> nat" where
  "off fb i j k = i * unat (fb_pitch fb) + (j * unat (fb_pixel_width fb) + k)"

definition pixel_byte :: "Framebuffer \<Rightarrow> nat \<Rightarrow> nat \<Rightarrow> nat \<Rightarrow> uptr" where
  "pixel_byte fb i j k = fb_addr fb + of_nat (off fb i j k)"

definition on_screen :: "Framebuffer \<Rightarrow> nat \<Rightarrow> nat \<Rightarrow> bool" where
  "on_screen fb i j \<longleftrightarrow> i < unat (fb_height fb) \<and> j < unat (fb_width fb)"

definition pixel :: "Framebuffer \<Rightarrow> memory \<Rightarrow> nat \<Rightarrow> nat \<Rightarrow> u8 \<times> u8 \<times> u8" where
  "pixel fb m i j = (m (pixel_byte fb i j 0), m (pixel_byte fb i j 1), m (pixel_byte fb i j 2))"

definition paint :: "Framebuffer \<Rightarrow> u32 \<Rightarrow> nat \<Rightarrow> nat \<Rightarrow> memory \<Rightarrow> memory" where
  "paint fb rgb i j m = (if on_screen fb i j then
     m(pixel_byte fb i j 0 := blue rgb, pixel_byte fb i j 1 := green rgb, pixel_byte fb i j 2 := red rgb) else m)"

text \<open>Bytes of no visible pixel.\<close>

definition off_screen :: "Framebuffer \<Rightarrow> uptr \<Rightarrow> bool" where
  "off_screen fb a \<longleftrightarrow> (\<forall>i j k. on_screen fb i j \<and> k < 3 \<longrightarrow> a \<noteq> pixel_byte fb i j k)"

lemma off_inside:
  assumes "fb_ok fb" and "on_screen fb i j" and "k < 3"
  shows "j * unat (fb_pixel_width fb) + k < unat (fb_pitch fb)" "off fb i j k < 2 ^ 32"
proof -
  let ?pw = "unat (fb_pixel_width fb)" and ?p = "unat (fb_pitch fb)"
  have "j * ?pw + k < Suc j * ?pw" using assms by (simp add: fb_ok_def)
  also have "\<dots> \<le> unat (fb_width fb) * ?pw" using assms(2) by (intro mult_le_mono1) (simp add: on_screen_def)
  also have "\<dots> \<le> ?p" using assms(1) by (simp add: fb_ok_def)
  finally show a: "j * ?pw + k < ?p" .
  then have "off fb i j k < Suc i * ?p" by (simp add: off_def)
  also have "\<dots> \<le> unat (fb_height fb) * ?p" using assms(2) by (intro mult_le_mono1) (simp add: on_screen_def)
  also have "\<dots> < 2 ^ 32" using assms(1) by (simp add: fb_ok_def mult.commute)
  finally show "off fb i j k < 2 ^ 32" .
qed

lemma off_unat: "n < 2 ^ 32 \<Longrightarrow> unat (of_nat n :: uptr) = n"
  by (intro unat_of_nat_small) simp

lemma pixel_byte_eq:
  assumes "fb_ok fb" and p: "on_screen fb i j" "k < 3" and q: "on_screen fb i' j'" "k' < 3"
  shows "pixel_byte fb i j k = pixel_byte fb i' j' k' \<longleftrightarrow> i = i' \<and> j = j' \<and> k = k'"
proof
  let ?pw = "unat (fb_pixel_width fb)" and ?p = "unat (fb_pitch fb)"
  note a = off_inside [OF assms(1) p] and b = off_inside [OF assms(1) q]
  assume "pixel_byte fb i j k = pixel_byte fb i' j' k'"
  then have "(of_nat (off fb i j k) :: uptr) = of_nat (off fb i' j' k')" by (simp add: pixel_byte_def)
  then have "off fb i j k = off fb i' j' k'"
    using a(2) b(2) by (metis off_unat)
  then have eq: "off fb i j k div ?p = off fb i' j' k' div ?p" "off fb i j k mod ?p = off fb i' j' k' mod ?p" by simp_all
  then have i: "i = i'" and r: "j * ?pw + k = j' * ?pw + k'" using a(1) b(1) by (simp_all add: off_def)
  have k: "k < ?pw" "k' < ?pw" using assms by (auto simp: fb_ok_def)
  from r have "(j * ?pw + k) div ?pw = (j' * ?pw + k') div ?pw" "(j * ?pw + k) mod ?pw = (j' * ?pw + k') mod ?pw" by simp_all
  then show "i = i' \<and> j = j' \<and> k = k'" using i k by simp
qed simp

lemma pixel_paint:
  assumes "fb_ok fb" and "on_screen fb i' j'"
  shows "pixel fb (paint fb rgb i j m) i' j' =
           (if i = i' \<and> j = j' then (blue rgb, green rgb, red rgb) else pixel fb m i' j')"
proof (cases "on_screen fb i j")
  case True
  have e: "pixel_byte fb i' j' k' = pixel_byte fb i j k \<longleftrightarrow> i' = i \<and> j' = j \<and> k' = k" if "k < 3" "k' < 3" for k k'
    using that by (intro pixel_byte_eq [OF assms(1)] assms(2) True)
  have e3: "pixel_byte fb i' j' k' = pixel_byte fb i j 0 \<longleftrightarrow> i' = i \<and> j' = j \<and> k' = 0"
    "pixel_byte fb i' j' k' = pixel_byte fb i j 1 \<longleftrightarrow> i' = i \<and> j' = j \<and> k' = 1"
    "pixel_byte fb i' j' k' = pixel_byte fb i j 2 \<longleftrightarrow> i' = i \<and> j' = j \<and> k' = 2" if "k' < 3" for k'
    using that by (simp_all add: e)
  show ?thesis
    unfolding pixel_def paint_def if_P [OF True] fun_upd_apply
    by (simp add: e3 eq_commute [of i'] eq_commute [of j'] del: One_nat_def)
next
  case False
  then show ?thesis using assms(2) by (auto simp: pixel_def paint_def)
qed

lemma paint_off_screen: "off_screen fb a \<Longrightarrow> paint fb rgb i j m a = m a"
  by (auto simp: paint_def off_screen_def)

section \<open>The loops\<close>

lemma ucast_of_nat: "(ucast x :: 64 word) = of_nat (unat x)" for x :: "'i::len word"
  by simp

lemma unat_ucast_16_32: "unat (ucast i :: u32) = unat i" for i :: u16
proof -
  have "unat i < 2 ^ 32" using unsigned_less [of i, where ?'a = nat] by simp
  then show ?thesis by (simp add: unsigned_ucast_eq take_bit_nat_eq_self)
qed

lemma row_addr:
  fixes i j :: u16
  assumes ok: "fb_ok fb" and s: "on_screen fb (unat i) (unat j)" and k: "k < 3"
  shows "fb_addr fb + ucast (fb_pitch fb * ucast i) + ucast (ucast j * fb_pixel_width fb + of_nat k) = pixel_byte fb (unat i) (unat j) k"
proof -
  note b = off_inside [OF ok s k]
  have k32: "unat (of_nat k :: u32) = k" using k by (intro unat_of_nat_small) simp
  have ui: "unat (ucast i :: u32) = unat i" "unat (ucast j :: u32) = unat j" by (rule unat_ucast_16_32)+
  have small: "unat i * unat (fb_pitch fb) < 2 ^ 32" "unat j * unat (fb_pixel_width fb) + k < 2 ^ 32"
    using b(2) by (simp_all add: off_def)
  have p: "unat (fb_pitch fb * ucast i) = unat i * unat (fb_pitch fb)"
    using small(1) ui by (subst unat_mult_nowrap) (simp_all add: mult.commute)
  have q: "unat (ucast j * fb_pixel_width fb :: u32) = unat j * unat (fb_pixel_width fb)"
    using small(2) ui by (subst unat_mult_nowrap) simp_all
  have r: "unat (ucast j * fb_pixel_width fb + of_nat k :: u32) = unat j * unat (fb_pixel_width fb) + k"
    using small(2) q k32 by (subst unat_add_nowrap) simp_all
  show ?thesis unfolding pixel_byte_def off_def ucast_of_nat p r by (simp add: add.assoc)
qed

lemma fold_nothing: "(\<And>x s. x \<in> set xs \<Longrightarrow> f x s = s) \<Longrightarrow> fold f xs s = s"
  by (induction xs) auto

lemma upt_step: "a < b \<Longrightarrow> [a..<b] = a # [Suc a..<b]"
  by (rule upt_conv_Cons)

lemma unat_inc_16: "unat j < 65535 \<Longrightarrow> unat (j + 1) = Suc (unat j)" for j :: u16
  by (subst unat_add_nowrap) simp_all

lemma fill_row_fold:
  assumes ok: "fb_ok fb" and vis: "unat i < unat (fb_height fb)" and fits: "unat w + unat x \<le> 65535"
    and le: "unat j \<le> unat w + unat x"
  shows "fill_row fb (fb_addr fb + ucast (fb_pitch fb * ucast (i :: u16))) x w rgb j m =
           Some (fold (\<lambda>j. paint fb rgb (unat i) j) [unat j..<unat w + unat x] m)"
  using le
proof (induction "unat w + unat x - unat j" arbitrary: j m)
  case 0
  then show ?case by (simp add: fill_row.simps)
next
  case (Suc n)
  let ?pos = "fb_addr fb + ucast (fb_pitch fb * ucast i)"
  have less: "unat j < unat w + unat x" using Suc.hyps(2) by linarith
  have inc: "unat (j + 1) = Suc (unat j)" using less fits by (intro unat_inc_16) linarith
  have IH: "fill_row fb ?pos x w rgb (j + 1) m' = Some (fold (\<lambda>j. paint fb rgb (unat i) j) [Suc (unat j)..<unat w + unat x] m')" for m'
    using Suc.hyps(1) [of "j + 1" m'] Suc.hyps(2) less inc by simp
  have uj: "unat (ucast j :: u32) = unat j" by (rule unat_ucast_16_32)
  show ?case
  proof (cases "fb_width fb \<le> ucast j")
    case True
    then have "\<not> on_screen fb (unat i) (unat j)" using uj by (simp add: on_screen_def word_le_nat_alt)
    then show ?thesis using True less by (simp add: fill_row.simps [of _ _ _ _ _ j] IH upt_step paint_def)
  next
    case False
    then have s: "on_screen fb (unat i) (unat j)" using uj vis by (simp add: on_screen_def word_le_nat_alt)
    note a = row_addr [OF ok s, of 0] row_addr [OF ok s, of 1] row_addr [OF ok s, of 2]
    show ?thesis using False less s a by (simp add: fill_row.simps [of _ _ _ _ _ j] IH upt_step paint_def Let_def)
  qed
qed

lemma fill_rows_fold:
  assumes ok: "fb_ok fb" and fits: "unat w + unat x \<le> 65535" "unat h + unat y \<le> 65535" and le: "unat i \<le> unat h + unat y"
  shows "fill_rows fb x y w h rgb i m =
           Some (fold (\<lambda>i. fold (\<lambda>j. paint fb rgb i j) [unat x..<unat w + unat x]) [unat i..<unat h + unat y] m)"
  using le
proof (induction "unat h + unat y - unat i" arbitrary: i m)
  case 0
  then show ?case by (simp add: fill_rows.simps)
next
  case (Suc n)
  have less: "unat i < unat h + unat y" using Suc.hyps(2) by linarith
  have inc: "unat (i + 1) = Suc (unat i)" using less fits by (intro unat_inc_16) linarith
  have IH: "fill_rows fb x y w h rgb (i + 1) m' =
      Some (fold (\<lambda>i. fold (\<lambda>j. paint fb rgb i j) [unat x..<unat w + unat x]) [Suc (unat i)..<unat h + unat y] m')" for m'
    using Suc.hyps(1) [of "i + 1" m'] Suc.hyps(2) less inc by simp
  have ui: "unat (ucast i :: u32) = unat i" by (rule unat_ucast_16_32)
  show ?case
  proof (cases "fb_height fb \<le> ucast i")
    case True
    then have "\<not> on_screen fb (unat i) j" for j using ui by (simp add: on_screen_def word_le_nat_alt)
    then have "fold (\<lambda>j. paint fb rgb (unat i) j) js m = m" for js by (intro fold_nothing) (simp add: paint_def)
    then show ?thesis using True less by (simp add: fill_rows.simps [of _ _ _ _ _ _ i] IH upt_step)
  next
    case False
    then have "unat i < unat (fb_height fb)" using ui by (simp add: word_le_nat_alt)
    then show ?thesis using False less fill_row_fold [OF ok _ fits(1)]
      by (simp add: fill_rows.simps [of _ _ _ _ _ _ i] IH upt_step)
  qed
qed

lemma pixel_fold_row:
  "fb_ok fb \<Longrightarrow> on_screen fb i' j' \<Longrightarrow> pixel fb (fold (\<lambda>j. paint fb rgb i j) js m) i' j' =
     (if i = i' \<and> j' \<in> set js then (blue rgb, green rgb, red rgb) else pixel fb m i' j')"
  by (induction js arbitrary: m) (auto simp: pixel_paint)

lemma pixel_fold_rows:
  "fb_ok fb \<Longrightarrow> on_screen fb i' j' \<Longrightarrow> pixel fb (fold (\<lambda>i. fold (\<lambda>j. paint fb rgb i j) js) is m) i' j' =
     (if i' \<in> set is \<and> j' \<in> set js then (blue rgb, green rgb, red rgb) else pixel fb m i' j')"
  by (induction "is" arbitrary: m) (auto simp: pixel_fold_row)

lemma fold_rows_off_screen:
  "off_screen fb a \<Longrightarrow> fold (\<lambda>i. fold (\<lambda>j. paint fb rgb i j) js) is m a = m a"
proof (induction "is" arbitrary: m)
  case (Cons i "is")
  have "fold (\<lambda>j. paint fb rgb i j) js m a = m a" using Cons.prems by (induction js arbitrary: m) (simp_all add: paint_off_screen)
  then show ?case using Cons by simp
qed simp

text \<open>A row counter that must exceed 65535 to end the loop never does.\<close>

lemma fill_rows_diverges:
  assumes "65535 < unat h + unat y"
  shows "fill_rows fb x y w h rgb i m = None"
proof -
  have top: "unat (i :: u16) < unat h + unat y" for i using unsigned_less [of i, where ?'a = nat] assms by simp
  have "False" if "fill_rows fb x y w h rgb i m = Some m'" for m'
  proof -
    have "(\<forall>i :: u16. unat i < unat h + unat y) \<longrightarrow> False"
      by (rule fill_rows.raw_induct [where P = "\<lambda>fb x y' w h' rgb i m r. (\<forall>i :: u16. unat i < unat h' + unat y') \<longrightarrow> False"
            and xa = "(((((((fb, x), y), w), h), rgb), i), m)", unfolded prod.case, OF _ that])
         (auto split: if_splits option.splits)
    then show False using top by blast
  qed
  then show ?thesis by (cases "fill_rows fb x y w h rgb i m") auto
qed

section \<open>Properties\<close>

text \<open>\<^verbatim>\<open>fill_rect\<close> is the operation on pixels it stands for: when both sums fit 16 bits it returns, every pixel
  of the rectangle that is on the screen has the colour, every other pixel and every byte
  outside the visible pixels is unchanged; when the sum of height and top row exceeds 65535,
  the row counter wraps and it never returns.\<close>

theorem fill_rect_correct:
  assumes "fb_ok fb" and "unat w + unat x \<le> 65535"
  shows "if unat h + unat y \<le> 65535
         then \<exists>m'. fill_rect fb x y w h rgb m = Some m' \<and>
           (\<forall>i j. on_screen fb i j \<longrightarrow> pixel fb m' i j =
              (if unat y \<le> i \<and> i < unat y + unat h \<and> unat x \<le> j \<and> j < unat x + unat w
               then (blue rgb, green rgb, red rgb) else pixel fb m i j)) \<and>
           (\<forall>a. off_screen fb a \<longrightarrow> m' a = m a)
         else fill_rect fb x y w h rgb m = None"
proof (cases "unat h + unat y \<le> 65535")
  case True
  have "fill_rect fb x y w h rgb m =
      Some (fold (\<lambda>i. fold (\<lambda>j. paint fb rgb i j) [unat x..<unat w + unat x]) [unat y..<unat h + unat y] m)"
    unfolding fill_rect_def by (rule fill_rows_fold [OF assms True]) simp
  then show ?thesis using True
    by (simp add: pixel_fold_rows [OF assms(1)] fold_rows_off_screen add.commute conj_assoc)
next
  case False
  then show ?thesis by (simp add: fill_rect_def fill_rows_diverges)
qed

definition demo_fb :: Framebuffer where
  "demo_fb = \<lparr>fb_addr = 0x1000, fb_width = 4, fb_height = 3, fb_pitch = 16, fb_pixel_width = 4\<rparr>"

theorem fill_rect_correct_witness:
  "\<exists>m'. fill_rect demo_fb 1 2 9 9 0x102030 (\<lambda>_. 0) = Some m' \<and> pixel demo_fb m' 2 1 = (0x30, 0x20, 0x10) \<and>
        pixel demo_fb m' 1 1 = (0, 0, 0)"
proof -
  have ok: "fb_ok demo_fb" "on_screen demo_fb 2 1" "on_screen demo_fb 1 1" by (simp_all add: demo_fb_def fb_ok_def on_screen_def)
  obtain m' where m': "fill_rect demo_fb 1 2 9 9 0x102030 (\<lambda>_. 0) = Some m'"
    "\<forall>i j. on_screen demo_fb i j \<longrightarrow> pixel demo_fb m' i j =
       (if 2 \<le> i \<and> i < 11 \<and> 1 \<le> j \<and> j < 10 then (blue 0x102030, green 0x102030, red 0x102030) else pixel demo_fb (\<lambda>_. 0) i j)"
    using fill_rect_correct [of demo_fb 9 1 9 2 "0x102030" "\<lambda>_. 0"] ok(1) by auto
  have "pixel demo_fb m' 2 1 = (blue 0x102030, green 0x102030, red 0x102030)" using m'(2) ok(2) by simp
  moreover have "pixel demo_fb m' 1 1 = (0, 0, 0)" using m'(2) ok(3) by (simp add: pixel_def)
  moreover have "blue 0x102030 = 0x30" "green 0x102030 = 0x20" "red 0x102030 = 0x10"
    by (simp_all add: blue_def green_def red_def)
  ultimately show ?thesis using m'(1) by simp
qed

end
