(* ===== verification/Terminal.thy ===== *)
theory Terminal
  imports Framebuffer Pmm "HOL-Library.Monad_Syntax"
begin

text \<open>
  The kernel terminal of \<^verbatim>\<open>src/gfx/terminal.cpp\<close>: a grid of characters, a cursor and the pixels they are
  drawn to. The character buffer is an array of its own (the constructor takes its pages
  from the frame allocator); drawing goes through the framebuffer and diverges where that does.
  \<open>display\<close> collects the screen and the linked font.
\<close>

section \<open>Definitions\<close>

record display =
  d_fb :: Framebuffer
  d_font :: PSF
  d_img :: "usize \<Rightarrow> u8"

record Terminal =
  te_buffer :: "usize \<Rightarrow> u8"
  te_width :: usize
  te_height :: usize
  te_x :: usize
  te_y :: usize
  width_chars :: usize
  height_chars :: usize
  padding_top :: usize
  padding_bottom :: usize
  padding_left :: usize
  padding_right :: usize
  actual_width :: usize
  actual_height :: usize
  actual_x :: usize
  actual_y :: usize
  te_fg :: u32
  te_bg :: u32
  te_border :: u32
  font_width :: usize
  font_height :: usize
  cursor_x :: usize
  cursor_y :: usize
  old_cursor_x :: usize
  old_cursor_y :: usize
  cursor_needs_undrawing :: bool

type_synonym screen = "Terminal \<times> memory"

definition set_char_at :: "display \<Rightarrow> usize \<Rightarrow> usize \<Rightarrow> u8 \<Rightarrow> screen \<Rightarrow> screen" where
  "set_char_at d c_x c_y c s =
     (case s of (t, m) \<Rightarrow>
        let p = c_y * width_chars t + c_x
        in if te_buffer t p = c then (t, m)
           else (t\<lparr>te_buffer := (te_buffer t)(p := c), cursor_needs_undrawing := False\<rparr>,
                 draw_psf_char (d_fb d) (d_font d) (d_img d) (scast c) (ucast c_x) (ucast c_y)
                   (ucast (actual_x t)) (ucast (actual_y t)) (te_fg t) (te_bg t) m))"

definition set_char_at_cursor :: "display \<Rightarrow> u8 \<Rightarrow> screen \<Rightarrow> screen" where
  "set_char_at_cursor d c s = set_char_at d (cursor_x (fst s)) (cursor_y (fst s)) c s"

definition get_char_at :: "Terminal \<Rightarrow> usize \<Rightarrow> usize \<Rightarrow> u8" where
  "get_char_at t c_x c_y = te_buffer t (c_y * width_chars t + c_x)"

definition scroll_row :: "display \<Rightarrow> usize \<Rightarrow> usize \<Rightarrow> screen \<Rightarrow> screen" where
  "scroll_row d w y s = for_range (\<lambda>x s. set_char_at d x y (get_char_at (fst s) x (y + 1)) s) 0 w s"

definition scroll :: "display \<Rightarrow> screen \<Rightarrow> screen" where
  "scroll d s =
     (let w = width_chars (fst s); h = height_chars (fst s);
          s1 = for_range (scroll_row d w) 0 (h - 1) s;
          s2 = for_range (\<lambda>x. set_char_at d x (h - 1) 32) 0 w s1
      in ((fst s2)\<lparr>cursor_needs_undrawing := True\<rparr>, snd s2))"

definition draw_cursor :: "display \<Rightarrow> Terminal \<Rightarrow> usize \<Rightarrow> usize \<Rightarrow> u32 \<Rightarrow> memory \<Rightarrow> memory option" where
  "draw_cursor d t c_x c_y col m =
     fill_rect (d_fb d) (ucast (c_x * font_width t + 1 + actual_x t)) (ucast (c_y * font_height t + actual_y t))
       1 (ucast (font_height t)) col m"

definition redraw_cursor :: "display \<Rightarrow> screen \<Rightarrow> screen option" where
  "redraw_cursor d s =
     (case s of (t, m) \<Rightarrow>
        do {
          m1 \<leftarrow> (if cursor_needs_undrawing t then draw_cursor d t (old_cursor_x t) (old_cursor_y t) (te_bg t) m else Some m);
          m2 \<leftarrow> draw_cursor d t (cursor_x t) (cursor_y t) (te_fg t) m1;
          Some (t\<lparr>old_cursor_x := cursor_x t, old_cursor_y := cursor_y t\<rparr>, m2)
        })"

text \<open>The static object is zero before its constructor runs; \<open>junk\<close> is what the fresh pages hold.\<close>

definition zero_terminal :: Terminal where
  "zero_terminal = \<lparr>te_buffer = (\<lambda>_. 0), te_width = 0, te_height = 0, te_x = 0, te_y = 0, width_chars = 0, height_chars = 0,
     padding_top = 0, padding_bottom = 0, padding_left = 0, padding_right = 0, actual_width = 0, actual_height = 0,
     actual_x = 0, actual_y = 0, te_fg = 0, te_bg = 0, te_border = 0, font_width = 0, font_height = 0, cursor_x = 0,
     cursor_y = 0, old_cursor_x = 0, old_cursor_y = 0, cursor_needs_undrawing = False\<rparr>"

definition terminal_layout :: "Framebuffer \<Rightarrow> (usize \<Rightarrow> u8) \<Rightarrow> Terminal" where
  "terminal_layout fb junk =
     (let w = ucast (fb_width fb div 2); h = ucast (fb_height fb); aw = w - 4 - 4; ah = h - 4 - 4;
          wc = aw div 8; hc = ah div 16; buffer_size = wc * hc
      in zero_terminal\<lparr>te_buffer := (\<lambda>i. if i < buffer_size then 32 else junk i),
           te_width := w, te_height := h, padding_top := 4, padding_bottom := 4, padding_left := 4, padding_right := 4,
           actual_width := aw, actual_height := ah, actual_x := 0 + 4, actual_y := 0 + 4,
           te_fg := 0xFCFCFC, te_bg := 0x232627, te_border := 0x232627, font_width := 8, font_height := 16,
           width_chars := wc, height_chars := hc\<rparr>)"

definition draw_frame :: "display \<Rightarrow> Terminal \<Rightarrow> memory \<Rightarrow> memory option" where
  "draw_frame d t m =
     do {
       let rect = (\<lambda>x y w h. fill_rect (d_fb d) (ucast x) (ucast y) (ucast w) (ucast h));
       m1 \<leftarrow> rect (actual_x t) (actual_y t) (actual_width t) (actual_height t) (te_bg t) m;
       m2 \<leftarrow> rect (te_x t) (te_y t) (te_width t) (padding_top t) (te_border t) m1;
       m3 \<leftarrow> rect (te_x t) (te_height t - padding_bottom t) (te_width t) (padding_bottom t) (te_border t) m2;
       m4 \<leftarrow> rect (te_x t) (padding_top t) (padding_left t) (actual_height t) (te_border t) m3;
       rect (te_width t - padding_right t) (padding_top t) (padding_right t) (actual_height t) (te_border t) m4
     }"

definition terminal_new :: "display \<Rightarrow> (usize \<Rightarrow> u8) \<Rightarrow> pmm \<Rightarrow> memory \<Rightarrow> (screen \<times> pmm) outcome option" where
  "terminal_new d junk p m =
     (let t = terminal_layout (d_fb d) junk; buffer_size = width_chars t * height_chars t
      in case alloc_pages ((buffer_size + 0x1000 - 1) div 0x1000) p of
           Panics msg \<Rightarrow> Some (Panics msg)
         | Returns (_, p') \<Rightarrow>
             do { m1 \<leftarrow> draw_frame d t m; s \<leftarrow> redraw_cursor d (t, m1); Some (Returns (s, p')) })"

definition finish_char :: "display \<Rightarrow> screen \<Rightarrow> screen option" where
  "finish_char d s =
     do {
       let (t, m) = s;
       let t1 = (if cursor_x t \<ge> width_chars t then t\<lparr>cursor_x := 0, cursor_y := cursor_y t + 1\<rparr> else t);
       let (t2, m2) = (if cursor_y t1 \<ge> height_chars t1
                       then let (t', m') = scroll d (t1, m) in (t'\<lparr>cursor_y := cursor_y t' - 1\<rparr>, m')
                       else (t1, m));
       (t3, m3) \<leftarrow> redraw_cursor d (t2, m2);
       Some (t3\<lparr>cursor_needs_undrawing := True\<rparr>, m3)
     }"

definition write_char :: "display \<Rightarrow> u8 \<Rightarrow> screen \<Rightarrow> screen option" where
  "write_char d c s =
     (case s of (t, m) \<Rightarrow>
        if c = 8 then
          if cursor_x t > 0 then
            let (t1, m1) = set_char_at_cursor d 32 (t\<lparr>cursor_x := cursor_x t - 1\<rparr>, m)
            in redraw_cursor d (t1\<lparr>cursor_needs_undrawing := True\<rparr>, m1)
          else Some (t\<lparr>cursor_needs_undrawing := False\<rparr>, m)
        else if c = 13 then finish_char d (t\<lparr>cursor_x := 0\<rparr>, m)
        else if c = 10 then finish_char d (t\<lparr>cursor_x := 0, cursor_y := cursor_y t + 1, cursor_needs_undrawing := True\<rparr>, m)
        else let (t1, m1) = set_char_at_cursor d c (t, m)
             in finish_char d (t1\<lparr>cursor_x := cursor_x t1 + 1\<rparr>, m1))"

section \<open>The text on the screen\<close>

definition cell :: "Terminal \<Rightarrow> nat \<Rightarrow> nat \<Rightarrow> u8" where
  "cell t x y = te_buffer t (of_nat y * width_chars t + of_nat x)"

abbreviation cols :: "Terminal \<Rightarrow> nat" where "cols t \<equiv> unat (width_chars t)"
abbreviation rows :: "Terminal \<Rightarrow> nat" where "rows t \<equiv> unat (height_chars t)"

definition text_lines :: "Terminal \<Rightarrow> u8 list list" where
  "text_lines t = map (\<lambda>y. map (\<lambda>x. cell t x y) [0..<cols t]) [0..<rows t]"

definition grid_ok :: "Terminal \<Rightarrow> bool" where
  "grid_ok t \<longleftrightarrow> 0 < cols t \<and> 0 < rows t \<and> cols t * rows t < 2 ^ 64"

text \<open>The cursor is inside the grid, and the grid inside 16-bit coordinates.\<close>

definition frame_ok :: "Terminal \<Rightarrow> bool" where
  "frame_ok t \<longleftrightarrow> grid_ok t \<and> unat (old_cursor_x t) < cols t \<and> unat (old_cursor_y t) < rows t \<and>
     font_width t = 8 \<and> font_height t = 16 \<and> actual_x t = 4 \<and> actual_y t = 4 \<and>
     cols t * 8 + 8 \<le> 65535 \<and> rows t * 16 + 24 \<le> 65535"

definition term_inv :: "Terminal \<Rightarrow> bool" where
  "term_inv t \<longleftrightarrow> frame_ok t \<and> unat (cursor_x t) < cols t \<and> unat (cursor_y t) < rows t"

text \<open>What a terminal promises: text, cursor column and cursor line.\<close>

fun new_line :: "nat \<Rightarrow> u8 list list \<Rightarrow> nat \<Rightarrow> u8 list list \<times> nat" where
  "new_line w ls y = (if y + 1 < length ls then (ls, y + 1) else (tl ls @ [replicate w 32], y))"

definition typed :: "nat \<Rightarrow> u8 \<Rightarrow> u8 list list \<times> nat \<times> nat \<Rightarrow> u8 list list \<times> nat \<times> nat" where
  "typed w c s =
     (case s of (ls, x, y) \<Rightarrow>
        if c = 8 then if x > 0 then (ls[y := (ls ! y)[x - 1 := 32]], x - 1, y) else (ls, x, y)
        else if c = 13 then (ls, 0, y)
        else if c = 10 then let (ls', y') = new_line w ls y in (ls', 0, y')
        else let ls1 = ls[y := (ls ! y)[x := c]]
             in if x + 1 < w then (ls1, x + 1, y)
                else let (ls', y') = new_line w ls1 y in (ls', 0, y'))"

definition terminal_abs :: "Terminal \<Rightarrow> u8 list list \<times> nat \<times> nat" where
  "terminal_abs t = (text_lines t, unat (cursor_x t), unat (cursor_y t))"

section \<open>Cells\<close>

lemma cell_index:
  assumes "grid_ok t" and "x < cols t" and "y < rows t"
  shows "unat (of_nat y * width_chars t + of_nat x) = y * cols t + x"
proof -
  have "y * cols t + x < Suc y * cols t" using assms(2) by simp
  also have "\<dots> \<le> rows t * cols t" using assms(3) by (intro mult_le_mono1) simp
  also have "\<dots> < 2 ^ 64" using assms(1) by (simp add: grid_ok_def mult.commute)
  finally have b: "y * cols t + x < 2 ^ 64" .
  have x: "unat (of_nat x :: usize) = x" using assms(2) unat_64 [of "width_chars t"] by (intro unat_of_nat_small) simp
  have y: "unat (of_nat y :: usize) = y" using assms(3) unat_64 [of "height_chars t"] by (intro unat_of_nat_small) simp
  have "unat (of_nat y * width_chars t) = y * cols t" using b y by (subst unat_mult_nowrap) simp_all
  then show ?thesis using b x by (subst unat_add_nowrap) simp_all
qed

lemma cell_index_eq:
  assumes "grid_ok t" and "x < cols t" "y < rows t" and "x' < cols t" "y' < rows t"
  shows "of_nat y * width_chars t + of_nat x = of_nat y' * width_chars t + of_nat x' \<longleftrightarrow> x = x' \<and> y = y'"
proof
  assume "of_nat y * width_chars t + of_nat x = of_nat y' * width_chars t + of_nat x'"
  then have "y * cols t + x = y' * cols t + x'"
    using cell_index [OF assms(1-3)] cell_index [OF assms(1,4,5)] by simp
  then have "(y * cols t + x) div cols t = (y' * cols t + x') div cols t" "(y * cols t + x) mod cols t = (y' * cols t + x') mod cols t"
    by simp_all
  then show "x = x' \<and> y = y'" using assms(2,4) by simp
qed simp

text \<open>Drawing characters changes the buffer and the undrawing flag only.\<close>

definition same_frame :: "Terminal \<Rightarrow> Terminal \<Rightarrow> bool" where
  "same_frame t t' \<longleftrightarrow> (\<exists>b u. t' = t\<lparr>te_buffer := b, cursor_needs_undrawing := u\<rparr>)"

lemma same_frame_refl [simp]: "same_frame t t"
  unfolding same_frame_def by (intro exI [of _ "te_buffer t"] exI [of _ "cursor_needs_undrawing t"]) simp

lemma same_frame_upd [simp]: "same_frame t (t\<lparr>te_buffer := b, cursor_needs_undrawing := u\<rparr>)"
  unfolding same_frame_def by blast

lemma same_frame_trans: "same_frame t t' \<Longrightarrow> same_frame t' t'' \<Longrightarrow> same_frame t t''"
  unfolding same_frame_def by (elim exE) (simp, blast)

lemma same_frame_simps:
  "same_frame t t' \<Longrightarrow> width_chars t' = width_chars t" "same_frame t t' \<Longrightarrow> height_chars t' = height_chars t"
  "same_frame t t' \<Longrightarrow> grid_ok t' = grid_ok t"
  "same_frame t t' \<Longrightarrow> cursor_x t' = cursor_x t" "same_frame t t' \<Longrightarrow> cursor_y t' = cursor_y t"
  "same_frame t t' \<Longrightarrow> frame_ok t' = frame_ok t"
  by (auto simp: same_frame_def grid_ok_def frame_ok_def)

lemma set_char_at_cells:
  assumes ok: "grid_ok t" and x: "unat c_x < cols t" "unat c_y < rows t"
  shows "same_frame t (fst (set_char_at d c_x c_y c (t, m)))"
    and "x' < cols t \<Longrightarrow> y' < rows t \<Longrightarrow> cell (fst (set_char_at d c_x c_y c (t, m))) x' y' =
           (if x' = unat c_x \<and> y' = unat c_y then c else cell t x' y')"
proof -
  show "same_frame t (fst (set_char_at d c_x c_y c (t, m)))"
    by (simp add: set_char_at_def Let_def)
  assume x': "x' < cols t" "y' < rows t"
  have "of_nat y' * width_chars t + of_nat x' = c_y * width_chars t + c_x \<longleftrightarrow> x' = unat c_x \<and> y' = unat c_y"
    using cell_index_eq [OF ok x' x] by simp
  then show "cell (fst (set_char_at d c_x c_y c (t, m))) x' y' = (if x' = unat c_x \<and> y' = unat c_y then c else cell t x' y')"
    by (auto simp: set_char_at_def Let_def cell_def)
qed

section \<open>Scrolling\<close>

text \<open>What a run of \<open>set_char_at\<close> over the columns of line \<open>y\<close> leaves.\<close>

lemma row_loop:
  fixes g :: "Terminal \<Rightarrow> usize \<Rightarrow> u8" and d :: display and s :: screen and y :: usize and v :: "nat \<Rightarrow> u8"
  assumes ok: "grid_ok (fst s)" and y: "unat y < rows (fst s)"
    and g: "\<And>t x. same_frame (fst s) t \<Longrightarrow> unat x < cols (fst s) \<Longrightarrow>
        (\<forall>x'<cols (fst s). \<forall>y'<rows (fst s). unat x \<le> x' \<or> y' \<noteq> unat y \<longrightarrow> cell t x' y' = cell (fst s) x' y') \<Longrightarrow> g t x = v (unat x)"
  defines "s' \<equiv> for_range (\<lambda>x s. set_char_at d x y (g (fst s) x) s) 0 (width_chars (fst s)) s"
  shows "same_frame (fst s) (fst s') \<and> (\<forall>x'<cols (fst s). \<forall>y'<rows (fst s).
     cell (fst s') x' y' = (if y' = unat y then v x' else cell (fst s) x' y'))"
proof -
  let ?t = "fst s"
  let ?P = "\<lambda>x (r :: screen). same_frame ?t (fst r) \<and> (\<forall>x'<cols ?t. \<forall>y'<rows ?t.
     cell (fst r) x' y' = (if y' = unat y \<and> x' < unat (x :: usize) then v x' else cell ?t x' y'))"
  have "?P (width_chars ?t) s'"
    unfolding s'_def
  proof (rule for_range_inv [where P = ?P])
    fix x and r :: screen assume x: "x < width_chars ?t" and r: "?P x r"
    then have ux: "unat x < cols ?t" by (simp add: word_less_nat_alt)
    have sf: "same_frame ?t (fst r)" using r by blast
    have ok': "grid_ok (fst r)" "unat x < cols (fst r)" "unat y < rows (fst r)" using sf ok ux y by (simp_all add: same_frame_simps)
    have gv: "g (fst r) x = v (unat x)" using r by (intro g [OF sf ux]) auto
    note sc = set_char_at_cells [OF ok', where d = d and c = "v (unat x)" and m = "snd r"]
    have "same_frame ?t (fst (set_char_at d x y (v (unat x)) r))" using sc(1) same_frame_trans [OF sf] by simp
    moreover have "cell (fst (set_char_at d x y (v (unat x)) r)) x' y' =
        (if y' = unat y \<and> x' < unat (x + 1) then v x' else cell ?t x' y')" if "x' < cols ?t" "y' < rows ?t" for x' y'
      using sc(2) [of x' y'] r that unat_inc [OF x] by (auto simp: same_frame_simps [OF sf] less_Suc_eq)
    ultimately show "?P (x + 1) (set_char_at d x y (g (fst r) x) r)" using gv by simp
  qed simp_all
  then show ?thesis by auto
qed

lemma scroll_cells:
  assumes ok: "grid_ok (fst s)"
  shows "same_frame (fst s) (fst (scroll d s)) \<and> (\<forall>x<cols (fst s). \<forall>y<rows (fst s).
     cell (fst (scroll d s)) x y = (if y + 1 < rows (fst s) then cell (fst s) x (y + 1) else 32))"
proof -
  let ?t = "fst s" and ?h = "height_chars (fst s) - 1"
  have h: "unat ?h = rows ?t - 1" using ok by (subst unat_sub_nowrap) (simp_all add: grid_ok_def word_le_nat_alt)
  let ?P = "\<lambda>y (r :: screen). same_frame ?t (fst r) \<and> (\<forall>x'<cols ?t. \<forall>y'<rows ?t.
     cell (fst r) x' y' = (if y' < unat (y :: usize) then cell ?t x' (y' + 1) else cell ?t x' y'))"
  let ?s1 = "for_range (scroll_row d (width_chars ?t)) 0 ?h s"
  have "?P ?h ?s1"
  proof (rule for_range_inv [where P = ?P])
    fix y and r :: screen assume y: "y < ?h" and r: "?P y r"
    have sf: "same_frame ?t (fst r)" using r by blast
    note fr = same_frame_simps [OF sf]
    have uy: "unat y + 1 < rows ?t" using y h by (simp add: word_less_nat_alt)
    have y1: "unat (y + 1) = unat y + 1" using unat_inc [OF y] by simp
    have "same_frame (fst r) (fst (scroll_row d (width_chars ?t) y r)) \<and> (\<forall>x'<cols (fst r). \<forall>y'<rows (fst r).
        cell (fst (scroll_row d (width_chars ?t) y r)) x' y' = (if y' = unat y then cell ?t x' (unat y + 1) else cell (fst r) x' y'))"
      unfolding scroll_row_def fr(1) [symmetric]
    proof (rule row_loop [where g = "\<lambda>t x. get_char_at t x (y + 1)"])
      show "grid_ok (fst r)" "unat y < rows (fst r)" using ok uy fr by simp_all
      fix t and x :: usize assume t: "same_frame (fst r) t" "unat x < cols (fst r)"
        and c: "\<forall>x'<cols (fst r). \<forall>y'<rows (fst r). unat x \<le> x' \<or> y' \<noteq> unat y \<longrightarrow> cell t x' y' = cell (fst r) x' y'"
      have "get_char_at t x (y + 1) = cell t (unat x) (unat y + 1)"
        using y1 by (simp add: get_char_at_def cell_def) (metis add.commute)
      also have "\<dots> = cell (fst r) (unat x) (unat y + 1)" using c t(2) uy fr(2) by simp
      also have "\<dots> = cell ?t (unat x) (unat y + 1)" using r t(2) uy fr(1) by simp
      finally show "get_char_at t x (y + 1) = cell ?t (unat x) (unat y + 1)" .
    qed
    then show "?P (y + 1) (scroll_row d (width_chars ?t) y r)"
      using r sf y1 fr(1,2) by (auto simp: less_Suc_eq intro: same_frame_trans)
  qed simp_all
  then have s1: "same_frame ?t (fst ?s1)" and c1: "\<And>x' y'. x' < cols ?t \<Longrightarrow> y' < rows ?t \<Longrightarrow>
      cell (fst ?s1) x' y' = (if y' < rows ?t - 1 then cell ?t x' (y' + 1) else cell ?t x' y')"
    using h by auto
  obtain r where r: "r = ?s1" by blast
  note s1 = s1 [folded r] and c1 = c1 [folded r] and fr = same_frame_simps [OF s1 [folded r]]
  obtain q where q: "q = for_range (\<lambda>x. set_char_at d x ?h 32) 0 (width_chars ?t) r" by blast
  have "grid_ok (fst r)" "unat ?h < rows (fst r)" using ok h fr by (simp_all add: grid_ok_def)
  then have row: "same_frame (fst r) (fst q)" "\<And>x' y'. x' < cols ?t \<Longrightarrow> y' < rows ?t \<Longrightarrow>
     cell (fst q) x' y' = (if y' = unat ?h then 32 else cell (fst r) x' y')"
    using row_loop [of r ?h "\<lambda>_ _. 32" "\<lambda>_. 32" d] fr(1,2) by (simp_all add: q)
  have s2: "same_frame ?t (fst q)" using s1 row(1) by (rule same_frame_trans)
  have c2: "cell (fst q) x' y' = (if y' + 1 < rows ?t then cell ?t x' (y' + 1) else 32)"
    if "x' < cols ?t" "y' < rows ?t" for x' y'
    using row(2) [OF that] c1 [OF that] that(2) h by auto
  have f: "fst (scroll d s) = (fst q)\<lparr>cursor_needs_undrawing := True\<rparr>" by (simp add: scroll_def Let_def q r)
  have "same_frame (fst q) (fst (scroll d s))"
    using same_frame_upd [where t = "fst q" and b = "te_buffer (fst q)" and u = True] by (simp add: f)
  then have "same_frame ?t (fst (scroll d s))" using s2 same_frame_trans by blast
  moreover have "cell (fst (scroll d s)) x y = cell (fst q) x y" for x y by (simp add: f cell_def)
  ultimately show ?thesis using c2 by simp
qed

section \<open>Text lines\<close>

lemma text_lines_shape [simp]: "length (text_lines t) = rows t" "y < rows t \<Longrightarrow> length (text_lines t ! y) = cols t"
  by (simp_all add: text_lines_def)

lemma text_lines_cell [simp]: "x < cols t \<Longrightarrow> y < rows t \<Longrightarrow> text_lines t ! y ! x = cell t x y"
  by (simp add: text_lines_def)

lemma text_lines_upd [simp]:
  "text_lines (t\<lparr>cursor_x := a\<rparr>) = text_lines t" "text_lines (t\<lparr>cursor_y := a\<rparr>) = text_lines t"
  "text_lines (t\<lparr>old_cursor_x := a\<rparr>) = text_lines t" "text_lines (t\<lparr>old_cursor_y := a\<rparr>) = text_lines t"
  "text_lines (t\<lparr>cursor_needs_undrawing := u\<rparr>) = text_lines t"
  by (simp_all add: text_lines_def cell_def)

lemma text_lines_eqI:
  assumes "length ls = rows t" and "\<And>y. y < rows t \<Longrightarrow> length (ls ! y) = cols t"
    and "\<And>x y. x < cols t \<Longrightarrow> y < rows t \<Longrightarrow> cell t x y = ls ! y ! x"
  shows "text_lines t = ls"
  using assms by (intro nth_equalityI) auto

lemma text_lines_set_char:
  assumes ok: "grid_ok t" and x: "unat c_x < cols t" "unat c_y < rows t"
  shows "text_lines (fst (set_char_at d c_x c_y c (t, m))) =
           (text_lines t)[unat c_y := (text_lines t ! unat c_y)[unat c_x := c]]"
proof -
  note sc = set_char_at_cells [OF assms, where d = d and c = c and m = m]
  note fr = same_frame_simps [OF sc(1)]
  show ?thesis
  proof (rule text_lines_eqI)
    fix x' y' assume "x' < cols (fst (set_char_at d c_x c_y c (t, m)))" "y' < rows (fst (set_char_at d c_x c_y c (t, m)))"
    then have b: "x' < cols t" "y' < rows t" by (simp_all add: fr)
    then show "cell (fst (set_char_at d c_x c_y c (t, m))) x' y' = (text_lines t)[unat c_y := (text_lines t ! unat c_y)[unat c_x := c]] ! y' ! x'"
      using sc(2) [OF b] b x by (cases "y' = unat c_y") (auto simp: nth_list_update)
  qed (use x in \<open>auto simp: fr nth_list_update\<close>)
qed

lemma text_lines_scroll:
  assumes ok: "grid_ok (fst s)"
  shows "text_lines (fst (scroll d s)) = tl (text_lines (fst s)) @ [replicate (cols (fst s)) 32]"
proof -
  note sc = scroll_cells [OF ok, of d]
  note fr = same_frame_simps [OF conjunct1 [OF sc]]
  have pos: "0 < rows (fst s)" using ok by (simp add: grid_ok_def)
  show ?thesis
  proof (rule text_lines_eqI)
    show "length (tl (text_lines (fst s)) @ [replicate (cols (fst s)) 32]) = rows (fst (scroll d s))"
      using pos by (simp add: fr)
    fix y assume "y < rows (fst (scroll d s))"
    then have y: "y < rows (fst s)" by (simp add: fr)
    then show "length ((tl (text_lines (fst s)) @ [replicate (cols (fst s)) 32]) ! y) = cols (fst (scroll d s))"
      by (simp add: fr nth_append nth_tl)
    fix x assume "x < cols (fst (scroll d s))"
    then have x: "x < cols (fst s)" by (simp add: fr)
    show "cell (fst (scroll d s)) x y = (tl (text_lines (fst s)) @ [replicate (cols (fst s)) 32]) ! y ! x"
      using sc x y by (cases "Suc y < rows (fst s)") (simp_all add: nth_append nth_tl less_diff_conv)
  qed
qed

section \<open>Drawing the cursor\<close>

lemma fill_rect_returns:
  "fb_ok fb \<Longrightarrow> unat w + unat x \<le> 65535 \<Longrightarrow> unat h + unat y \<le> 65535 \<Longrightarrow> \<exists>m'. fill_rect fb x y w h rgb m = Some m'"
  by (simp add: fill_rect_def fill_rows_fold)

lemma unat_ucast_16: "unat n \<le> 65535 \<Longrightarrow> unat (ucast n :: u16) = unat n" for n :: usize
  by (simp add: unsigned_ucast_eq take_bit_nat_eq_self)

lemma draw_cursor_returns:
  assumes fb: "fb_ok (d_fb d)" and t: "frame_ok t" and c: "unat c_x < cols t" "unat c_y < rows t"
  shows "\<exists>m'. draw_cursor d t c_x c_y col m = Some m'"
proof -
  have b: "unat c_x * 8 + 5 \<le> 65534" "unat c_y * 16 + 4 + 16 \<le> 65535" using t c by (simp_all add: frame_ok_def)
  have k: "unat (8 :: usize) = 8" "unat (16 :: usize) = 16" "unat (1 :: usize) = 1" "unat (4 :: usize) = 4" by simp_all
  have x8: "unat (c_x * 8) = unat c_x * 8" using b(1) by (subst unat_mult_nowrap) (simp_all only: k, simp_all)
  have x9: "unat (c_x * 8 + 1) = unat c_x * 8 + 1" using b(1) by (subst unat_add_nowrap) (simp_all only: k x8, simp_all)
  have x: "unat (c_x * 8 + 1 + 4) = unat c_x * 8 + 5" using b(1) by (subst unat_add_nowrap) (simp_all only: k x9, simp_all)
  have y16: "unat (c_y * 16) = unat c_y * 16" using b(2) by (subst unat_mult_nowrap) (simp_all only: k, simp_all)
  have y: "unat (c_y * 16 + 4) = unat c_y * 16 + 4" using b(2) by (subst unat_add_nowrap) (simp_all only: k y16, simp_all)
  have xy: "unat (ucast (c_x * 8 + 1 + 4) :: u16) = unat c_x * 8 + 5" "unat (ucast (c_y * 16 + 4) :: u16) = unat c_y * 16 + 4"
    using b x y by (simp_all only: unat_ucast_16)
  have f: "font_width t = 8" "font_height t = 16" "actual_x t = 4" "actual_y t = 4" using t by (simp_all add: frame_ok_def)
  show ?thesis unfolding draw_cursor_def f
    by (rule fill_rect_returns [OF fb]) (use b in \<open>simp_all only: xy, simp_all\<close>)
qed

lemma redraw_cursor_returns:
  assumes "fb_ok (d_fb d)" and "term_inv t"
  shows "\<exists>m'. redraw_cursor d (t, m) = Some (t\<lparr>old_cursor_x := cursor_x t, old_cursor_y := cursor_y t\<rparr>, m')"
proof -
  have t: "frame_ok t" "unat (old_cursor_x t) < cols t" "unat (old_cursor_y t) < rows t"
      "unat (cursor_x t) < cols t" "unat (cursor_y t) < rows t"
    using assms(2) by (simp_all add: term_inv_def frame_ok_def)
  obtain m1 where m1: "(if cursor_needs_undrawing t then draw_cursor d t (old_cursor_x t) (old_cursor_y t) (te_bg t) m else Some m) = Some m1"
    using draw_cursor_returns [OF assms(1) t(1-3)] by (cases "cursor_needs_undrawing t") auto
  obtain m2 where "draw_cursor d t (cursor_x t) (cursor_y t) (te_fg t) m1 = Some m2"
    using draw_cursor_returns [OF assms(1) t(1,4,5)] by blast
  then show ?thesis using m1 by (simp add: redraw_cursor_def)
qed

section \<open>Writing a character\<close>

text \<open>Wrapping at the right margin and scrolling at the bottom, on the abstract terminal.\<close>

definition settle :: "nat \<Rightarrow> u8 list list \<times> nat \<times> nat \<Rightarrow> u8 list list \<times> nat \<times> nat" where
  "settle w s =
     (case s of (ls, x, y) \<Rightarrow>
        let (x', y') = (if w \<le> x then (0, y + 1) else (x, y))
        in if length ls \<le> y' then (tl ls @ [replicate w 32], x', y' - 1) else (ls, x', y'))"

lemma finish_char_settles:
  assumes fb: "fb_ok (d_fb d)" and t: "frame_ok t"
    and x: "unat (cursor_x t) \<le> cols t" and y: "unat (cursor_y t) \<le> rows t"
    and xy: "unat (cursor_x t) = cols t \<longrightarrow> unat (cursor_y t) < rows t"
  shows "\<exists>t' m'. finish_char d (t, m) = Some (t', m') \<and> term_inv t' \<and> cols t' = cols t \<and>
           terminal_abs t' = settle (cols t) (terminal_abs t)"
proof -
  define t1 where "t1 = (if cursor_x t \<ge> width_chars t then t\<lparr>cursor_x := 0, cursor_y := cursor_y t + 1\<rparr> else t)"
  have inc: "unat (cursor_y t + 1) = unat (cursor_y t) + 1" if "unat (cursor_x t) = cols t"
    using xy that unat_inc [of "cursor_y t" "height_chars t"] by (simp add: word_less_nat_alt)
  have t1: "frame_ok t1" "grid_ok t1" "cols t1 = cols t" "rows t1 = rows t" "text_lines t1 = text_lines t"
    using t by (auto simp: t1_def frame_ok_def grid_ok_def)
  have c1: "(unat (cursor_x t1), unat (cursor_y t1)) = (if cols t \<le> unat (cursor_x t) then (0, unat (cursor_y t) + 1) else (unat (cursor_x t), unat (cursor_y t)))"
    using x inc by (auto simp: t1_def word_le_nat_alt)
  have pos: "0 < cols t" "0 < rows t" using t by (simp_all add: frame_ok_def grid_ok_def)
  have b1: "unat (cursor_x t1) < cols t" "unat (cursor_y t1) \<le> rows t" using c1 x y xy pos by (auto split: if_splits)
  define s2 where "s2 = (if cursor_y t1 \<ge> height_chars t1
     then let (t', m') = scroll d (t1, m) in (t'\<lparr>cursor_y := cursor_y t' - 1\<rparr>, m') else (t1, m))"
  have s2: "term_inv (fst s2) \<and> cols (fst s2) = cols t \<and> terminal_abs (fst s2) = settle (cols t) (terminal_abs t)"
  proof (cases "cursor_y t1 \<ge> height_chars t1")
    case True
    let ?q = "fst (scroll d (t1, m))"
    have sf: "same_frame t1 ?q" using scroll_cells [of "(t1, m)" d] t1(2) by simp
    note fr = same_frame_simps [OF sf]
    have e: "unat (cursor_y t1) = rows t" using True b1(2) t1(4) by (simp add: word_le_nat_alt)
    then have dec: "unat (cursor_y t1 - 1) = rows t - 1"
      using pos by (subst unat_sub_nowrap) (simp_all add: word_le_nat_alt)
    have f: "fst s2 = ?q\<lparr>cursor_y := cursor_y ?q - 1\<rparr>" using True by (simp add: s2_def split: prod.split)
    have "frame_ok (fst s2)" using t1(1) fr(6) by (simp add: f frame_ok_def grid_ok_def)
    moreover have "text_lines (fst s2) = tl (text_lines t) @ [replicate (cols t) 32]"
      using text_lines_scroll [of "(t1, m)" d] t1 by (simp add: f)
    ultimately show ?thesis using dec b1(1) c1 e pos t1 fr
      by (auto simp: f term_inv_def terminal_abs_def settle_def split: if_splits)
  next
    case False
    then have "unat (cursor_y t1) < rows t" using t1(4) by (simp add: word_le_nat_alt)
    then show ?thesis using False t1 b1 c1
      by (auto simp: s2_def term_inv_def terminal_abs_def settle_def split: if_splits)
  qed
  obtain m3 where r: "redraw_cursor d s2 = Some ((fst s2)\<lparr>old_cursor_x := cursor_x (fst s2), old_cursor_y := cursor_y (fst s2)\<rparr>, m3)"
    using redraw_cursor_returns [OF fb conjunct1 [OF s2], of "snd s2"] by auto
  let ?t3 = "(fst s2)\<lparr>old_cursor_x := cursor_x (fst s2), old_cursor_y := cursor_y (fst s2), cursor_needs_undrawing := True\<rparr>"
  have "finish_char d (t, m) = Some (?t3, m3)"
    using r unfolding finish_char_def s2_def [unfolded t1_def] by (simp add: t1_def Let_def split: prod.split)
  moreover have "term_inv ?t3" "cols ?t3 = cols t" "terminal_abs ?t3 = settle (cols t) (terminal_abs t)"
    using s2 by (auto simp: term_inv_def frame_ok_def grid_ok_def terminal_abs_def)
  ultimately show ?thesis by blast
qed

lemma set_char_at_cursor_abs:
  assumes t: "frame_ok t" "unat (cursor_x t) < cols t" "unat (cursor_y t) < rows t"
  obtains t' m' where "set_char_at_cursor d c (t, m) = (t', m')" and "same_frame t t'"
    and "text_lines t' = (text_lines t)[unat (cursor_y t) := (text_lines t ! unat (cursor_y t))[unat (cursor_x t) := c]]"
proof -
  have ok: "grid_ok t" using t(1) by (simp add: frame_ok_def)
  show ?thesis
    using that [of "fst (set_char_at_cursor d c (t, m))" "snd (set_char_at_cursor d c (t, m))"]
      set_char_at_cells(1) [OF ok t(2,3)] text_lines_set_char [OF ok t(2,3)]
    by (simp add: set_char_at_cursor_def)
qed

lemma write_char_abs:
  assumes fb: "fb_ok (d_fb d)" and t: "term_inv t"
  shows "\<exists>t' m'. write_char d c (t, m) = Some (t', m') \<and> term_inv t' \<and> cols t' = cols t \<and>
           terminal_abs t' = typed (cols t) c (terminal_abs t)"
proof -
  have f: "frame_ok t" and cx: "unat (cursor_x t) < cols t" and cy: "unat (cursor_y t) < rows t"
    using t by (simp_all add: term_inv_def)
  have incx: "unat (cursor_x t + 1) = unat (cursor_x t) + 1" using unat_inc [of "cursor_x t" "width_chars t"] cx by (simp add: word_less_nat_alt)
  have incy: "unat (cursor_y t + 1) = unat (cursor_y t) + 1" using unat_inc [of "cursor_y t" "height_chars t"] cy by (simp add: word_less_nat_alt)
  consider (bs) "c = 8" "cursor_x t > 0" | (bs0) "c = 8" "cursor_x t = 0" | (cr) "c = 13" | (lf) "c = 10"
    | (chr) "c \<noteq> 8" "c \<noteq> 13" "c \<noteq> 10" by (metis word_gt_0)
  then show ?thesis
  proof cases
    case bs
    let ?u = "t\<lparr>cursor_x := cursor_x t - 1\<rparr>"
    have pos: "0 < unat (cursor_x t)" using bs(2) by (simp add: word_less_nat_alt)
    then have "1 \<le> cursor_x t" by (simp add: word_le_nat_alt)
    with pos have dec: "unat (cursor_x t - 1) = unat (cursor_x t) - 1" "0 < unat (cursor_x t)"
      by (simp_all add: unat_sub_nowrap)
    have u: "frame_ok ?u" "unat (cursor_x ?u) < cols ?u" "unat (cursor_y ?u) < rows ?u"
      using f cx cy dec by (simp_all add: frame_ok_def grid_ok_def)
    obtain t1 m1 where r: "set_char_at_cursor d 32 (?u, m) = (t1, m1)" and sf: "same_frame ?u t1"
      and ls: "text_lines t1 = (text_lines t)[unat (cursor_y t) := (text_lines t ! unat (cursor_y t))[unat (cursor_x t) - 1 := 32]]"
      using set_char_at_cursor_abs [OF u, where d = d and c = 32 and m = m] dec by auto
    let ?v = "t1\<lparr>cursor_needs_undrawing := True\<rparr>"
    have v: "term_inv ?v" using u same_frame_simps [OF sf] by (simp add: term_inv_def frame_ok_def grid_ok_def)
    obtain m2 where m2: "redraw_cursor d (?v, m1) = Some (?v\<lparr>old_cursor_x := cursor_x ?v, old_cursor_y := cursor_y ?v\<rparr>, m2)"
      using redraw_cursor_returns [OF fb v] by blast
    have "write_char d c (t, m) = redraw_cursor d (?v, m1)" using bs r by (simp add: write_char_def Let_def)
    moreover have "terminal_abs (?v\<lparr>old_cursor_x := cursor_x ?v, old_cursor_y := cursor_y ?v\<rparr>) = typed (cols t) c (terminal_abs t)"
      using bs(1) dec ls same_frame_simps(4,5) [OF sf] by (simp add: terminal_abs_def typed_def)
    moreover have "term_inv (?v\<lparr>old_cursor_x := cursor_x ?v, old_cursor_y := cursor_y ?v\<rparr>)"
      using v by (simp add: term_inv_def frame_ok_def grid_ok_def)
    ultimately show ?thesis using m2 same_frame_simps(1) [OF sf] by auto
  next
    case bs0
    have "term_inv (t\<lparr>cursor_needs_undrawing := False\<rparr>)" using t by (simp add: term_inv_def frame_ok_def grid_ok_def)
    then show ?thesis using bs0 by (simp add: write_char_def terminal_abs_def typed_def)
  next
    case cr
    let ?u = "t\<lparr>cursor_x := 0\<rparr>"
    have "frame_ok ?u" using f by (simp add: frame_ok_def grid_ok_def)
    then obtain t' m' where "finish_char d (?u, m) = Some (t', m')" "term_inv t'" "cols t' = cols t"
      "terminal_abs t' = settle (cols t) (terminal_abs ?u)"
      using finish_char_settles [OF fb, of ?u m] cx cy by auto
    then show ?thesis using cr cx cy by (simp add: write_char_def terminal_abs_def typed_def settle_def)
  next
    case lf
    let ?u = "t\<lparr>cursor_x := 0, cursor_y := cursor_y t + 1, cursor_needs_undrawing := True\<rparr>"
    have "frame_ok ?u" using f by (simp add: frame_ok_def grid_ok_def)
    then obtain t' m' where "finish_char d (?u, m) = Some (t', m')" "term_inv t'" "cols t' = cols t"
      "terminal_abs t' = settle (cols t) (terminal_abs ?u)"
      using finish_char_settles [OF fb, of ?u m] cx cy incy by auto
    then show ?thesis using lf cx cy incy by (simp add: write_char_def terminal_abs_def typed_def settle_def)
  next
    case chr
    obtain t1 m1 where r: "set_char_at_cursor d c (t, m) = (t1, m1)" and sf: "same_frame t t1"
      and ls: "text_lines t1 = (text_lines t)[unat (cursor_y t) := (text_lines t ! unat (cursor_y t))[unat (cursor_x t) := c]]"
      using set_char_at_cursor_abs [OF f cx cy] by blast
    note fr = same_frame_simps [OF sf]
    let ?u = "t1\<lparr>cursor_x := cursor_x t1 + 1\<rparr>"
    have "frame_ok ?u" using f fr by (simp add: frame_ok_def grid_ok_def)
    then obtain t' m' where "finish_char d (?u, m1) = Some (t', m')" "term_inv t'" "cols t' = cols t"
      "terminal_abs t' = settle (cols t) (terminal_abs ?u)"
      using finish_char_settles [OF fb, of ?u m1] cx cy incx fr by auto
    then show ?thesis using chr r cx cy incx ls fr
      by (simp add: write_char_def terminal_abs_def typed_def settle_def Let_def)
  qed
qed

section \<open>Properties\<close>

text \<open>C15. Writing a character always returns, keeps the cursor inside the grid, and acts on the text as a
  terminal should: printable characters go to the cursor cell, the line wraps at the right
  margin, a new line on the last line scrolls the text up by one and blanks the last line, return and
  backspace move within the line and backspace blanks.\<close>

theorem write_char_refines_typed:
  assumes "fb_ok (d_fb d)" and "term_inv t"
  shows "\<exists>t' m'. write_char d c (t, m) = Some (t', m') \<and> term_inv t' \<and>
           terminal_abs t' = typed (unat (width_chars t)) c (terminal_abs t)"
  using write_char_abs [OF assms, of c m] by blast

definition demo_display :: display where
  "demo_display = \<lparr>d_fb = demo_fb, d_font = \<lparr>psf_magic = 0x864ab572, psf_version = 0, psf_header_size = 32, psf_flags = 0,
     psf_num_glyph = 1, psf_bytes_per_glyph = 16, psf_height = 16, psf_width = 8\<rparr>, d_img = (\<lambda>_. 0)\<rparr>"

definition demo_terminal :: Terminal where
  "demo_terminal = terminal_layout \<lparr>fb_addr = 0x1000, fb_width = 48, fb_height = 40, fb_pitch = 192, fb_pixel_width = 4\<rparr> (\<lambda>_. 0)"

lemma demo_terminal_eq: "term_inv demo_terminal" "terminal_abs demo_terminal = ([[32, 32], [32, 32]], 0, 0)"
  "width_chars demo_terminal = 2"
  by (simp_all add: demo_terminal_def terminal_layout_def zero_terminal_def Let_def term_inv_def frame_ok_def grid_ok_def
      terminal_abs_def text_lines_def cell_def upt_rec)

theorem write_char_refines_typed_witness:
  "\<exists>t' m'. write_char demo_display 65 (demo_terminal, \<lambda>_. 0) = Some (t', m') \<and>
     terminal_abs t' = ([[65, 32], [32, 32]], 1, 0)"
  using write_char_refines_typed [of demo_display demo_terminal 65 "\<lambda>_. 0"] demo_terminal_eq
  by (auto simp: demo_display_def demo_fb_def fb_ok_def typed_def)

end
