(* ===== verification/Printf.thy ===== *)
theory Printf
  imports Terminal
begin

text \<open>
  Formatted output of \<^verbatim>\<open>src/klib/cstdio.cpp\<close>. The arguments are the 64-bit slots of the
  \<^verbatim>\<open>va_list\<close>, the strings they point to are bytes of memory. \<open>None\<close> stands for a call that
  does not return (the specifier loop never ends on a character it does not know), that
  reads past the end of the format, or that asks for an argument it was not given.
\<close>

section \<open>Characters out\<close>

record console =
  serial :: "u8 list"
  terminal_ready :: bool
  cn_term :: Terminal
  early_x :: usize
  early_y :: usize
  cn_mem :: memory

definition early_putchar :: "display \<Rightarrow> u8 \<Rightarrow> console \<Rightarrow> console" where
  "early_putchar d c s =
     (let fb = d_fb d;
          (x, y) = (if early_x s > ucast (fb_width fb div 8) then (0, early_y s + 1) else (early_x s, early_y s));
          y1 = (if y > ucast (fb_height fb div 16) then 0 else y)
      in if c = 10 then s\<lparr>early_x := 0, early_y := y1 + 1\<rparr>
         else s\<lparr>cn_mem := draw_psf_char fb (d_font d) (d_img d) (scast c) (ucast x) (ucast y1) 4 4 (NOT 0) 0 (cn_mem s),
                early_x := x + 1, early_y := y1\<rparr>)"

definition putchar :: "display \<Rightarrow> u8 \<Rightarrow> console \<Rightarrow> console option" where
  "putchar d c s =
     (let s1 = s\<lparr>serial := serial s @ [c]\<rparr>
      in if terminal_ready s1 then
           do { (t, m) \<leftarrow> write_char d c (cn_term s1, cn_mem s1); Some (s1\<lparr>cn_term := t, cn_mem := m\<rparr>) }
         else if fb_addr (d_fb d) \<noteq> 0 then Some (early_putchar d c s1)
         else Some s1)"

primrec put_all :: "display \<Rightarrow> u8 list \<Rightarrow> console \<Rightarrow> console option" where
  "put_all d [] s = Some s"
| "put_all d (c # cs) s = do { s' \<leftarrow> putchar d c s; put_all d cs s' }"

section \<open>Numbers\<close>

partial_function (option) num_digits_loop :: "u64 \<Rightarrow> u64 \<Rightarrow> usize \<Rightarrow> usize option" where
  "num_digits_loop x base i =
     (let x' = x div base in if x' \<noteq> 0 then num_digits_loop x' base (i + 1) else Some i)"

declare num_digits_loop.simps [code]

definition num_digits :: "u64 \<Rightarrow> u64 \<Rightarrow> usize option" where
  "num_digits x base = num_digits_loop x base 0"

definition low_digits :: "u8 list" where
  "low_digits = [48, 49, 50, 51, 52, 53, 54, 55, 56, 57, 97, 98, 99, 100, 101, 102]"

definition high_digits :: "u8 list" where
  "high_digits = [48, 49, 50, 51, 52, 53, 54, 55, 56, 57, 65, 66, 67, 68, 69, 70]"

text \<open>The padding and the digits, most significant first, with the amount added to \<^verbatim>\<open>written\<close>.\<close>

definition emit_number :: "(u64 \<Rightarrow> u8) \<Rightarrow> u64 \<Rightarrow> u64 \<Rightarrow> usize \<Rightarrow> (u8 list \<times> u32) option" where
  "emit_number digit base val pad =
     do {
       digits \<leftarrow> num_digits val base;
       let zeros = (if pad \<noteq> 0 \<and> pad > digits then pad - digits - 1 else 0);
       Some (replicate (unat zeros) 48 @
             map (\<lambda>di. digit ((((\<lambda>v. v div base) ^^ di) val) mod base)) (rev [0..<Suc (unat digits)]),
             ucast zeros + of_nat (Suc (unat digits)))
     }"

section \<open>Format strings\<close>

definition fch :: "u8 list \<Rightarrow> nat \<Rightarrow> u8 option" where
  "fch format i = (if i < length format then Some (format ! i) else if i = length format then Some 0 else None)"

record spec_flags =
  alt_form :: bool
  long_int :: bool
  zero_pad :: usize
  s_length :: usize

definition no_flags :: spec_flags where
  "no_flags = \<lparr>alt_form = False, long_int = False, zero_pad = 0, s_length = 0\<rparr>"

text \<open>\<^verbatim>\<open>va_arg\<close>: the next slot, its low half for a 32-bit type.\<close>

definition next_int :: "bool \<Rightarrow> u64 list \<Rightarrow> (u64 \<times> u64 list) option" where
  "next_int long args = (case args of [] \<Rightarrow> None | a # as \<Rightarrow> Some (if long then a else ucast (ucast a :: u32), as))"

text \<open>\<^verbatim>\<open>format[i] - '0'\<close>, an \<^verbatim>\<open>int\<close>: \<^verbatim>\<open>char\<close> is signed.\<close>

definition char_digit :: "u8 \<Rightarrow> u32" where
  "char_digit c = scast c - 48"

definition emit_string :: "memory \<Rightarrow> usize \<Rightarrow> uptr \<Rightarrow> (u8 list \<times> u32) option" where
  "emit_string m len str =
     do {
       n \<leftarrow> (if len \<noteq> 0 then Some len else strlen m str);
       Some (map (\<lambda>i. m (str + of_nat i)) [0..<unat n], ucast n)
     }"

text \<open>The loop over the characters of one conversion: the output, what it adds to \<^verbatim>\<open>written\<close>, the position of
  the final specifier and the arguments left.\<close>

function spec_loop :: "memory \<Rightarrow> u8 list \<Rightarrow> nat \<Rightarrow> spec_flags \<Rightarrow> u64 list \<Rightarrow> (u8 list \<times> u32 \<times> nat \<times> u64 list) option" where
  "spec_loop m format i fl args =
     (case fch format i of
        None \<Rightarrow> None
      | Some c \<Rightarrow>
          if c = 35 then spec_loop m format (i + 1) (fl\<lparr>alt_form := True\<rparr>) args
          else if c = 48 then
            (case (fch format (i + 1), fch format (i + 2)) of
               (Some c1, Some c2) \<Rightarrow>
                 if 48 \<le> sint c2 \<and> sint c2 \<le> 57
                 then spec_loop m format (i + 3) (fl\<lparr>zero_pad := scast (char_digit c1 * 10 + char_digit c2)\<rparr>) args
                 else spec_loop m format (i + 2) (fl\<lparr>zero_pad := scast (char_digit c1)\<rparr>) args
             | _ \<Rightarrow> None)
          else if c = 108 then spec_loop m format (i + 1) (fl\<lparr>long_int := True\<rparr>) args
          else if c = 46 then
            (case fch format (i + 1) of
               None \<Rightarrow> None
             | Some c1 \<Rightarrow>
                 if c1 = 42 then (case args of [] \<Rightarrow> None | a # as \<Rightarrow> spec_loop m format (i + 2) (fl\<lparr>s_length := a\<rparr>) as)
                 else spec_loop m format (i + 1) fl args)
          else if c = 120 \<or> c = 88 then
            do {
              (val, rest) \<leftarrow> next_int (long_int fl) args;
              let used = (if c = 88 then high_digits else low_digits);
              (out, n) \<leftarrow> emit_number (\<lambda>d. used ! unat d) 16 val (zero_pad fl);
              Some (if alt_form fl then ([48, 120] @ out, 2 + n, i, rest) else (out, n, i, rest))
            }
          else if c = 100 then
            do {
              (val, rest) \<leftarrow> next_int (long_int fl) args;
              (out, n) \<leftarrow> emit_number (\<lambda>d. ucast (48 + d)) 10 val (zero_pad fl);
              Some (out, n, i, rest)
            }
          else if c = 115 then
            (case args of [] \<Rightarrow> None
             | a # as \<Rightarrow> do { (out, n) \<leftarrow> emit_string m (s_length fl) a; Some (out, n, i, as) })
          else None)"
  by pat_completeness auto
termination
  by (relation "measure (\<lambda>(m, format, i, fl, args). Suc (length format) - i)")
     (auto simp: fch_def split: if_splits)

declare spec_loop.simps [simp del]

lemma fch_nonzero: "fch format i = Some c \<Longrightarrow> c \<noteq> 0 \<Longrightarrow> i < length format"
  by (auto simp: fch_def split: if_splits)

lemma spec_loop_position: "spec_loop m format i fl args = Some (out, n, i', args') \<Longrightarrow> i \<le> i' \<and> i' < length format"
proof (induction "Suc (length format) - i" arbitrary: i fl args rule: less_induct)
  case less
  have le: "i \<le> length format" using less.prems by (subst (asm) spec_loop.simps) (auto simp: fch_def split: if_splits)
  have IH: "i \<le> i' \<and> i' < length format" if "spec_loop m format j fl args = Some (out, n, i', args')" "i < j" for j fl args
    using less.hyps [OF _ that(1)] that(2) le by fastforce
  note step = less.prems [unfolded spec_loop.simps [of m format i fl args]]
  then obtain c where c: "fch format i = Some c" by (auto split: option.splits)
  consider "c = 35" | "c = 48" | "c = 108" | "c = 46" | "c = 120 \<or> c = 88" | "c = 100" | "c = 115"
    | "c \<notin> {35, 48, 108, 46, 120, 88, 100, 115}" by blast
  then show ?case
  proof cases
    case 2
    then show ?thesis using step c IH [of "i + 2"] IH [of "i + 3"] by (simp split: option.splits if_splits)
  next
    case 4
    then show ?thesis using step c IH [of "i + 1"] IH [of "i + 2"] by (simp split: option.splits if_splits list.splits)
  qed (use step c IH [of "i + 1"] fch_nonzero [OF c] in \<open>auto simp: bind_eq_Some_conv split: if_splits list.splits\<close>)
qed

function vprintf_loop :: "memory \<Rightarrow> u8 list \<Rightarrow> nat \<Rightarrow> u64 list \<Rightarrow> (u8 list \<times> u32) option" where
  "vprintf_loop m format i args =
     (case fch format i of
        None \<Rightarrow> None
      | Some c \<Rightarrow>
          if c = 0 then Some ([], 0)
          else if c = 37 then
            (case spec_loop m format (i + 1) no_flags args of
               None \<Rightarrow> None
             | Some (out, n, i', args') \<Rightarrow>
                 (case vprintf_loop m format (i' + 1) args' of
                    None \<Rightarrow> None
                  | Some (outs, n') \<Rightarrow> Some (out @ outs, n + n')))
          else (case vprintf_loop m format (i + 1) args of
                  None \<Rightarrow> None
                | Some (outs, n') \<Rightarrow> Some (c # outs, 1 + n')))"
  by pat_completeness auto
termination
  by (relation "measure (\<lambda>(m, format, i, args). Suc (length format) - i)")
     (auto simp: fch_def split: if_splits dest!: spec_loop_position)

declare vprintf_loop.simps [simp del]

text \<open>\<^verbatim>\<open>vprintf\<close> under \<^verbatim>\<open>print_lock\<close>; the output is emitted character by character.\<close>

definition vprintf :: "display \<Rightarrow> memory \<Rightarrow> u8 list \<Rightarrow> u64 list \<Rightarrow> console \<Rightarrow> (u32 \<times> console) option" where
  "vprintf d m format list s =
     do {
       (out, written) \<leftarrow> vprintf_loop m format 0 list;
       s' \<leftarrow> put_all d out s;
       Some (written, s')
     }"

section \<open>Numerals\<close>

fun digit_count :: "nat \<Rightarrow> nat \<Rightarrow> nat" where
  "digit_count b n = (if b < 2 \<or> n < b then 1 else Suc (digit_count b (n div b)))"

declare digit_count.simps [simp del]

definition char_value :: "u8 \<Rightarrow> nat" where
  "char_value c = (if 97 \<le> c then unat c - 87 else if 65 \<le> c then unat c - 55 else unat c - 48)"

definition parse_number :: "nat \<Rightarrow> u8 list \<Rightarrow> nat" where
  "parse_number b cs = foldl (\<lambda>a c. a * b + char_value c) 0 cs"

lemma digit_count_bound: "2 \<le> b \<Longrightarrow> n < b ^ digit_count b n"
proof (induction b n rule: digit_count.induct)
  case (1 b n)
  show ?case
  proof (cases "n < b")
    case False
    then have "n div b < b ^ digit_count b (n div b)" using 1 by simp
    then have "n < b * b ^ digit_count b (n div b)" using 1(2) by (simp add: div_less_iff_less_mult mult.commute)
    then show ?thesis using False 1(2) by (simp add: digit_count.simps [of b n])
  qed (simp add: digit_count.simps [of b n])
qed

lemma digit_count_le: "2 \<le> b \<Longrightarrow> 0 < k \<Longrightarrow> n < 2 ^ k \<Longrightarrow> digit_count b n \<le> k"
proof (induction b n arbitrary: k rule: digit_count.induct)
  case (1 b n)
  show ?case
  proof (cases "n < b")
    case False
    then have "k \<noteq> 1" using 1(2,4) by auto
    then obtain k' where k: "k = Suc k'" "0 < k'" using 1(3) by (cases k) auto
    have "n div b \<le> n div 2" using 1(2) by (simp add: div_le_mono2)
    also have "\<dots> < 2 ^ k'" using 1(4) k by simp
    finally show ?thesis using 1(1) [of k'] 1(2) False k by (simp add: digit_count.simps [of b n])
  qed (use 1(3) in \<open>simp add: digit_count.simps [of b n]\<close>)
qed

lemma num_digits_loop_spec:
  assumes "2 \<le> unat base"
  shows "num_digits_loop x base i = Some (i + of_nat (digit_count (unat base) (unat x) - 1))"
proof (induction "unat x" arbitrary: x i rule: less_induct)
  case less
  have d: "unat (x div base) = unat x div unat base" by (rule unat_div)
  show ?case
  proof (cases "unat x < unat base")
    case True
    then have "x div base = 0" by (simp add: word_unat_eq_iff d)
    then show ?thesis using True by (simp add: num_digits_loop.simps [of x] digit_count.simps)
  next
    case False
    then have nz: "x div base \<noteq> 0" using assms by (simp add: word_unat_eq_iff d div_eq_0_iff)
    have "0 < unat x" using False assms by linarith
    then have "unat (x div base) < unat x" using assms by (simp add: d)
    from less [OF this] have "num_digits_loop (x div base) base (i + 1) =
        Some (i + 1 + of_nat (digit_count (unat base) (unat x div unat base) - 1))" by (simp add: d)
    moreover have "0 < digit_count (unat base) (unat x div unat base)" by (subst digit_count.simps) simp
    ultimately show ?thesis using nz False assms
      by (simp add: num_digits_loop.simps [of x] digit_count.simps [of _ "unat x"] Let_def of_nat_diff)
  qed
qed

lemma num_digits_spec:
  assumes "2 \<le> unat base"
  obtains k where "num_digits x base = Some k" and "Suc (unat k) = digit_count (unat base) (unat x)"
proof -
  let ?k = "digit_count (unat base) (unat x) - 1"
  have "digit_count (unat base) (unat x) \<le> 64" by (rule digit_count_le [OF assms _ unat_64]) simp
  moreover have "0 < digit_count (unat base) (unat x)" by (subst digit_count.simps) simp
  ultimately show ?thesis
    using that [of "of_nat ?k"] num_digits_loop_spec [OF assms, of x 0] unat_of_nat_small [of ?k, where 'i = 64]
    by (simp add: num_digits_def)
qed

lemma iterated_div: "unat (((\<lambda>v. v div base) ^^ n) x) = unat x div unat base ^ n"
  by (induction n) (simp_all add: unat_div power_Suc2 div_mult2_eq del: power_Suc)

lemma foldl_digits:
  "foldl (\<lambda>a d. a * b + d) a (map (\<lambda>i. v div b ^ i mod b) (rev [0..<n])) = a * b ^ n + v mod b ^ n" for a b v :: nat
proof (induction n arbitrary: a)
  case (Suc n)
  have "v mod b ^ Suc n = b ^ n * (v div b ^ n mod b) + v mod b ^ n"
    by (simp add: mod_mult2_eq [of v "b ^ n" b, symmetric] mult.commute)
  then show ?case using Suc [of "a * b + v div b ^ n mod b"] by (simp add: algebra_simps)
qed simp

lemma parse_zeros: "parse_number b (replicate n 48 @ cs) = parse_number b cs"
  by (induction n) (simp_all add: parse_number_def char_value_def)

lemma emit_number_spec:
  assumes b: "2 \<le> unat base" and d: "\<And>x. x < base \<Longrightarrow> char_value (digit x) = unat x" and p: "unat pad < 100"
  obtains out where "emit_number digit base val pad = Some (out, of_nat (length out))"
    and "length out = max (unat pad) (digit_count (unat base) (unat val))"
    and "parse_number (unat base) out = unat val"
proof -
  obtain k where k: "num_digits val base = Some k" "Suc (unat k) = digit_count (unat base) (unat val)"
    using num_digits_spec [OF b] .
  let ?z = "if pad \<noteq> 0 \<and> pad > k then pad - k - 1 else 0"
  let ?ds = "map (\<lambda>di. digit ((((\<lambda>v. v div base) ^^ di) val) mod base)) (rev [0..<Suc (unat k)])"
  have z: "unat ?z = unat pad - Suc (unat k)"
  proof (cases "pad > k")
    case True
    then have "unat (pad - k) = unat pad - unat k" by (intro unat_sub_nowrap) simp
    moreover have "1 \<le> pad - k" using True calculation by (simp add: word_le_nat_alt word_less_nat_alt)
    ultimately have "unat (pad - k - 1) = unat pad - unat k - 1" by (simp add: unat_sub_nowrap)
    moreover have "pad \<noteq> 0" using True by auto
    ultimately show ?thesis using True by simp
  next
    case False
    then show ?thesis by (simp add: word_less_nat_alt)
  qed
  let ?out = "replicate (unat ?z) 48 @ ?ds"
  have "unat ?z < 100" using z p by linarith
  then have "ucast ?z = (of_nat (unat ?z) :: u32)" by simp
  then have "emit_number digit base val pad = Some (?out, of_nat (length ?out))"
    using k(1) by (simp add: emit_number_def Let_def)
  moreover have "length ?out = max (unat pad) (digit_count (unat base) (unat val))" using z k(2) by simp
  moreover have "parse_number (unat base) ?out = unat val"
  proof -
    have cv: "map char_value ?ds = map (\<lambda>i. unat val div unat base ^ i mod unat base) (rev [0..<Suc (unat k)])"
    proof -
      have "base \<noteq> 0" using b by auto
      then have "char_value (digit (((\<lambda>v. v div base) ^^ i) val mod base)) = unat val div unat base ^ i mod unat base" for i
        by (subst d) (simp_all add: word_mod_less_divisor word_gt_0 unat_mod iterated_div)
      then show ?thesis by (simp only: map_map o_def)
    qed
    have "parse_number (unat base) ?out = foldl (\<lambda>a d. a * unat base + d) 0 (map char_value ?ds)"
      unfolding parse_zeros unfolding parse_number_def by (simp only: foldl_map)
    also have "\<dots> = unat val mod unat base ^ Suc (unat k)" unfolding cv foldl_digits by simp
    also have "\<dots> = unat val" using digit_count_bound [OF b, of "unat val"] unfolding k(2) by simp
    finally show ?thesis .
  qed
  ultimately show ?thesis using that by blast
qed

section \<open>Output\<close>

definition console_ok :: "display \<Rightarrow> console \<Rightarrow> bool" where
  "console_ok d s \<longleftrightarrow> fb_ok (d_fb d) \<and> (terminal_ready s \<longrightarrow> term_inv (cn_term s))"

lemma putchar_returns:
  assumes "console_ok d s"
  shows "\<exists>s'. putchar d c s = Some s' \<and> console_ok d s' \<and> serial s' = serial s @ [c] \<and> terminal_ready s' = terminal_ready s \<and>
     (terminal_ready s \<longrightarrow> width_chars (cn_term s') = width_chars (cn_term s) \<and>
        terminal_abs (cn_term s') = typed (cols (cn_term s)) c (terminal_abs (cn_term s)))"
proof (cases "terminal_ready s")
  case True
  then obtain t' m' where "write_char d c (cn_term s, cn_mem s) = Some (t', m')" "term_inv t'"
      "cols t' = cols (cn_term s)" "terminal_abs t' = typed (cols (cn_term s)) c (terminal_abs (cn_term s))"
    using write_char_abs [of d "cn_term s" c "cn_mem s"] assms by (auto simp: console_ok_def)
  then show ?thesis using True assms by (simp add: putchar_def Let_def console_ok_def word_unat_eq_iff)
next
  case False
  then show ?thesis using assms
    by (auto simp: putchar_def Let_def console_ok_def early_putchar_def split: prod.splits)
qed

lemma put_all_returns:
  "console_ok d s \<Longrightarrow> \<exists>s'. put_all d cs s = Some s' \<and> console_ok d s' \<and> serial s' = serial s @ cs \<and>
     terminal_ready s' = terminal_ready s \<and>
     (terminal_ready s \<longrightarrow> terminal_abs (cn_term s') = fold (typed (cols (cn_term s))) cs (terminal_abs (cn_term s)))"
proof (induction cs arbitrary: s)
  case (Cons c cs)
  obtain s1 where s1: "putchar d c s = Some s1" "console_ok d s1" "serial s1 = serial s @ [c]" "terminal_ready s1 = terminal_ready s"
    "terminal_ready s \<longrightarrow> width_chars (cn_term s1) = width_chars (cn_term s) \<and>
        terminal_abs (cn_term s1) = typed (cols (cn_term s)) c (terminal_abs (cn_term s))"
    using putchar_returns [OF Cons.prems] by blast
  then show ?case using Cons.IH [OF s1(2)] by auto
qed simp

definition number_base :: "u8 \<Rightarrow> u64" where
  "number_base spec = (if spec = 100 then 10 else 16)"

lemma small_u64: "w < 10 \<Longrightarrow> w \<in> {0, 1, 2, 3, 4, 5, 6, 7, 8, 9}" for w :: u64
proof -
  assume "w < 10"
  then have "unat w \<in> {0, 1, 2, 3, 4, 5, 6, 7, 8, 9}" by (auto simp: word_less_nat_alt)
  then show ?thesis by (auto simp: word_unat_eq_iff)
qed

lemma small_u8: "w < 10 \<Longrightarrow> w \<in> {0, 1, 2, 3, 4, 5, 6, 7, 8, 9}" for w :: u8
proof -
  assume "w < 10"
  then have "unat w \<in> {0, 1, 2, 3, 4, 5, 6, 7, 8, 9}" by (auto simp: word_less_nat_alt)
  then show ?thesis by (auto simp: word_unat_eq_iff)
qed

lemma digit_chars:
  "x < 10 \<Longrightarrow> char_value (ucast (48 + x :: u64)) = unat x"
  "x < 16 \<Longrightarrow> char_value (low_digits ! unat (x :: u64)) = unat x"
  "x < 16 \<Longrightarrow> char_value (high_digits ! unat (x :: u64)) = unat x"
proof -
  assume "x < 10"
  then have "x \<in> {0, 1, 2, 3, 4, 5, 6, 7, 8, 9}" by (rule small_u64)
  then show "char_value (ucast (48 + x :: u64)) = unat x" by (auto simp: char_value_def)
next
  assume "x < 16"
  then have "unat x < 16" by (simp add: word_less_nat_alt)
  moreover have "list_all (\<lambda>n. char_value (low_digits ! n) = n \<and> char_value (high_digits ! n) = n) [0..<16]"
    by (simp add: char_value_def low_digits_def high_digits_def upt_rec)
  ultimately show "char_value (low_digits ! unat x) = unat x" "char_value (high_digits ! unat x) = unat x"
    by (auto simp: list_all_iff)
qed

lemma emit_spec:
  assumes "spec \<in> {100, 120, 88}" and "unat pad < 100"
  obtains out where "emit_number (if spec = 100 then \<lambda>d. ucast (48 + d) else (\<lambda>d. (if spec = 88 then high_digits else low_digits) ! unat d))
        (number_base spec) val pad = Some (out, of_nat (length out))"
    and "length out = max (unat pad) (digit_count (unat (number_base spec)) (unat val))"
    and "parse_number (unat (number_base spec)) out = unat val"
proof (rule emit_number_spec [of "number_base spec"
      "if spec = 100 then \<lambda>d. ucast (48 + d) else (\<lambda>d. (if spec = 88 then high_digits else low_digits) ! unat d)" pad val])
  show "2 \<le> unat (number_base spec)" by (simp add: number_base_def)
  fix x assume "x < number_base spec"
  then show "char_value ((if spec = 100 then \<lambda>d. ucast (48 + d) else (\<lambda>d. (if spec = 88 then high_digits else low_digits) ! unat d)) x) = unat x"
    using digit_chars [of x] by (auto simp: number_base_def)
qed (use assms that in blast)+

lemma vprintf_loop_end: "vprintf_loop m format (length format) args = Some ([], 0)"
  by (simp add: vprintf_loop.simps fch_def)

text \<open>One conversion that is the whole format.\<close>

lemma vprintf_loop_single:
  assumes "spec_loop m (37 # rest) 1 no_flags args = Some (out, n, length rest, args')"
  shows "vprintf_loop m (37 # rest) 0 args = Some (out, n)"
  using assms vprintf_loop_end [of m "37 # rest" args']
  by (subst vprintf_loop.simps) (simp add: fch_def)

lemma spec_loop_number:
  assumes "spec \<in> {100, 120, 88}" and "fch format i = Some spec"
  shows "spec_loop m format i fl (v # vs) =
     (case emit_number (if spec = 100 then \<lambda>d. ucast (48 + d) else (\<lambda>d. (if spec = 88 then high_digits else low_digits) ! unat d))
            (number_base spec) (if long_int fl then v else ucast (ucast v :: u32)) (zero_pad fl) of
        None \<Rightarrow> None
      | Some (out, n) \<Rightarrow> Some (if alt_form fl \<and> spec \<noteq> 100 then ([48, 120] @ out, 2 + n, i, vs) else (out, n, i, vs)))"
  using assms by (subst spec_loop.simps) (elim insertE; simp add: next_int_def number_base_def split: option.split)

section \<open>Properties\<close>

text \<open>C16. The conversions \<^verbatim>\<open>%d\<close>, \<^verbatim>\<open>%x\<close> and \<^verbatim>\<open>%X\<close> print the value so that reading the digits back gives it, the
  number goes to the serial line and to the terminal, and the count returned is the number
  of characters: with a two-digit zero padding and the long flag the output is the 64-bit
  value in at least that many characters; the plain conversion prints the low 32 bits as an
  unsigned number, a negative \<^verbatim>\<open>int\<close> included.\<close>

theorem printf_number_roundtrip:
  assumes ok: "console_ok d s" and spec: "spec \<in> {100, 120, 88}" and ab: "a < 10" "b < 10"
  shows "(\<exists>out s'. vprintf d m [37, 48, 48 + a, 48 + b, 108, spec] [v] s = Some (of_nat (length out), s') \<and>
            serial s' = serial s @ out \<and>
            length out = max (10 * unat a + unat b) (digit_count (unat (number_base spec)) (unat v)) \<and>
            parse_number (unat (number_base spec)) out = unat v) \<and>
         (\<exists>out s'. vprintf d m [37, spec] [v] s = Some (of_nat (length out), s') \<and> serial s' = serial s @ out \<and>
            parse_number (unat (number_base spec)) out = unat (ucast v :: u32))"
proof
  have b8: "b \<in> {0, 1, 2, 3, 4, 5, 6, 7, 8, 9}" and a8: "a \<in> {0, 1, 2, 3, 4, 5, 6, 7, 8, 9}"
    using ab by (auto dest!: small_u8)
  have dig: "48 \<le> sint (48 + b)" "sint (48 + b) \<le> 57" using b8 by auto
  let ?pad = "scast (char_digit (48 + a) * 10 + char_digit (48 + b)) :: usize"
  have pad: "unat ?pad = 10 * unat a + unat b" using a8 b8 by (auto simp: char_digit_def)
  have "unat a < 10" "unat b < 10" using ab by (simp_all add: word_less_nat_alt)
  then have p100: "unat ?pad < 100" using pad by linarith
  let ?f = "[37, 48, 48 + a, 48 + b, 108, spec]"
  obtain out where out: "emit_number (if spec = 100 then \<lambda>d. ucast (48 + d) else (\<lambda>d. (if spec = 88 then high_digits else low_digits) ! unat d))
        (number_base spec) v ?pad = Some (out, of_nat (length out))"
    "length out = max (unat ?pad) (digit_count (unat (number_base spec)) (unat v))"
    "parse_number (unat (number_base spec)) out = unat v"
    using emit_spec [OF spec p100] .
  have "spec_loop m ?f 5 (no_flags\<lparr>zero_pad := ?pad, long_int := True\<rparr>) [v] = Some (out, of_nat (length out), 5, [])"
    using out(1) by (subst spec_loop_number [OF spec]) (simp_all add: fch_def no_flags_def)
  then have "spec_loop m ?f 1 no_flags [v] = Some (out, of_nat (length out), 5, [])"
    using dig by (simp add: spec_loop.simps [of m ?f "Suc 0"] spec_loop.simps [of m ?f 4] fch_def)
  then have "vprintf_loop m ?f 0 [v] = Some (out, of_nat (length out))" by (intro vprintf_loop_single) simp
  then show "\<exists>out s'. vprintf d m ?f [v] s = Some (of_nat (length out), s') \<and> serial s' = serial s @ out \<and>
            length out = max (10 * unat a + unat b) (digit_count (unat (number_base spec)) (unat v)) \<and>
            parse_number (unat (number_base spec)) out = unat v"
    using put_all_returns [OF ok, of out] out(2,3) pad by (auto simp: vprintf_def)
next
  obtain out where out: "emit_number (if spec = 100 then \<lambda>d. ucast (48 + d) else (\<lambda>d. (if spec = 88 then high_digits else low_digits) ! unat d))
        (number_base spec) (ucast (ucast v :: u32)) 0 = Some (out, of_nat (length out))"
    "parse_number (unat (number_base spec)) out = unat (ucast (ucast v :: u32) :: u64)"
    by (rule emit_spec [OF spec, of 0]) simp_all
  have "spec_loop m [37, spec] 1 no_flags [v] = Some (out, of_nat (length out), 1, [])"
    using out(1) by (subst spec_loop_number [OF spec]) (simp_all add: fch_def no_flags_def)
  then have "vprintf_loop m [37, spec] 0 [v] = Some (out, of_nat (length out))" by (intro vprintf_loop_single) simp
  moreover have "unat (ucast w :: u64) = unat w" for w :: u32
    using unsigned_less [of w, where ?'a = nat] by (simp add: unsigned_ucast_eq take_bit_nat_eq_self)
  then have "parse_number (unat (number_base spec)) out = unat (ucast v :: u32)" using out(2) by metis
  ultimately show "\<exists>out s'. vprintf d m [37, spec] [v] s = Some (of_nat (length out), s') \<and> serial s' = serial s @ out \<and>
            parse_number (unat (number_base spec)) out = unat (ucast v :: u32)"
    using put_all_returns [OF ok, of out] by (auto simp: vprintf_def)
qed

definition demo_console :: console where
  "demo_console = \<lparr>serial = [], terminal_ready = True, cn_term = demo_terminal, early_x = 0, early_y = 0, cn_mem = (\<lambda>_. 0)\<rparr>"

theorem printf_number_roundtrip_witness:
  "\<exists>out s'. vprintf demo_display (\<lambda>_. 0) [37, 48, 49, 54, 108, 88] [0xBEEF] demo_console = Some (of_nat (length out), s') \<and>
     serial s' = out \<and> length out = 16 \<and> parse_number 16 out = 0xBEEF"
proof -
  have ok: "console_ok demo_display demo_console"
    using demo_terminal_eq(1) by (simp add: console_ok_def demo_console_def demo_display_def demo_fb_def fb_ok_def)
  have "max 16 (digit_count 16 0xBEEF) = 16" by (simp add: digit_count.simps)
  then show ?thesis
    using conjunct1 [OF printf_number_roundtrip [OF ok, of 88 1 6 "\<lambda>_. 0" "0xBEEF"]]
    by (auto simp: number_base_def demo_console_def)
qed

end
