(* ===== verification/File_Syscalls.thy ===== *)
theory File_Syscalls
  imports Vfs Keyboard Printf
begin

text \<open>
  The file system calls of \<^verbatim>\<open>src/fs/vfs.cpp\<close> and the descriptor table of a task
  (\<^verbatim>\<open>Task::allocate_fdnum\<close>, \<^verbatim>\<open>src/sched/sched.cpp\<close>). File descriptors are \<^verbatim>\<open>int\<close>s, compared as signed numbers;
  the table is the vector of pointers, \<open>None\<close> being null. A call may not return (\<open>None\<close>), or
  panic: descriptors 0 to 2 of a user task have a null node, and following it is a page fault
  in the kernel. User memory is read and written directly.
\<close>

section \<open>Definitions\<close>

record FileDescriptor =
  fd_node :: node_ref
  fd_cursor :: usize

record Task_files =
  file_descriptors :: "FileDescriptor option list"
  num_file_descriptors :: usize
  first_free_fdnum :: usize
  cwd :: node_ref

definition allocate_fdnum :: "'a Task_files_scheme \<Rightarrow> u32 \<times> 'a Task_files_scheme" where
  "allocate_fdnum t =
     (let fds = file_descriptors t; t1 = t\<lparr>num_file_descriptors := num_file_descriptors t + 1\<rparr>
      in case find (\<lambda>i. fds ! i = None) [unat (first_free_fdnum t)..<length fds] of
           Some i \<Rightarrow> (of_nat i, t1\<lparr>first_free_fdnum := of_nat i\<rparr>)
         | None \<Rightarrow> (of_nat (length fds), t1\<lparr>first_free_fdnum := of_nat (length fds), file_descriptors := fds @ [None]\<rparr>))"

definition bad_fd :: "'a Task_files_scheme \<Rightarrow> u32 \<Rightarrow> bool" where
  "bad_fd t fd \<longleftrightarrow> sint fd \<ge> sint (of_nat (length (file_descriptors t)) :: u32) \<or> sint fd < 0"

definition first_char :: "key \<Rightarrow> u8" where
  "first_char path = (case path of [] \<Rightarrow> 0 | c # _ \<Rightarrow> c)"

text \<open>Where a relative path starts: an error code to return, or a node.\<close>

definition starting_point :: "vfs \<Rightarrow> 'a Task_files_scheme \<Rightarrow> u32 \<Rightarrow> key \<Rightarrow> (u32 + node_ref) outcome" where
  "starting_point v t dirfd path =
     (if first_char path \<noteq> slash then
        if dirfd = AT_FDCWD then Returns (Inr (cwd t))
        else if bad_fd t dirfd then Returns (Inl (- ucast EBADF))
        else case file_descriptors t ! unat dirfd of
               None \<Rightarrow> Returns (Inl (- ucast EBADF))
             | Some descriptor \<Rightarrow>
                 if fd_node descriptor = 0 then kernel_fault
                 else if nd_type (vs_node v (fd_node descriptor)) \<noteq> DIRECTORY then Returns (Inl (- ucast ENOTDIR))
                 else Returns (Inr (fd_node descriptor))
      else Returns (Inr 0))"

definition openat_inner :: "vfs \<Rightarrow> 'a Task_files_scheme \<Rightarrow> u32 \<Rightarrow> key \<Rightarrow> (u32 \<times> 'a Task_files_scheme) outcome option" where
  "openat_inner v t dirfd path =
     (case starting_point v t dirfd path of
        Panics msg \<Rightarrow> Some (Panics msg)
      | Returns (Inl err) \<Rightarrow> Some (Returns (err, t))
      | Returns (Inr start) \<Rightarrow>
          do {
            result \<leftarrow> path_to_node v path start;
            if target result = 0 then Some (Returns (- ucast ENOENT, t))
            else let (fd, t1) = allocate_fdnum t
                 in Some (Returns (fd, t1\<lparr>file_descriptors :=
                      (file_descriptors t1)[unat fd := Some \<lparr>fd_node = target result, fd_cursor = 0\<rparr>]\<rparr>))
          })"

definition syscall_open :: "vfs \<Rightarrow> 'a Task_files_scheme \<Rightarrow> key \<Rightarrow> (u32 \<times> 'a Task_files_scheme) outcome option" where
  "syscall_open v t path = openat_inner v t AT_FDCWD path"

definition syscall_openat :: "vfs \<Rightarrow> 'a Task_files_scheme \<Rightarrow> u32 \<Rightarrow> key \<Rightarrow> (u32 \<times> 'a Task_files_scheme) outcome option" where
  "syscall_openat v t dirfd path = openat_inner v t dirfd path"

text \<open>The guard that \<^verbatim>\<open>close\<close>, \<^verbatim>\<open>read\<close>, \<^verbatim>\<open>write\<close> and their variants share: the descriptor, if there is one.\<close>

definition get_descriptor :: "'a Task_files_scheme \<Rightarrow> u32 \<Rightarrow> FileDescriptor option" where
  "get_descriptor t fd = (if bad_fd t fd then None else file_descriptors t ! unat fd)"

definition set_descriptor :: "'a Task_files_scheme \<Rightarrow> u32 \<Rightarrow> FileDescriptor option \<Rightarrow> 'a Task_files_scheme" where
  "set_descriptor t fd d = t\<lparr>file_descriptors := (file_descriptors t)[unat fd := d]\<rparr>"

definition syscall_close :: "'a Task_files_scheme \<Rightarrow> u32 \<Rightarrow> 'a Task_files_scheme" where
  "syscall_close t fd =
     (case get_descriptor t fd of
        None \<Rightarrow> t
      | Some _ \<Rightarrow> (set_descriptor t fd None)
          \<lparr>num_file_descriptors := num_file_descriptors t - 1, first_free_fdnum := scast fd\<rparr>)"

text \<open>What \<^verbatim>\<open>read\<close> copies to the user's buffer; \<open>irqs\<close> are the keys that arrive while the keyboard is waited for.\<close>

definition syscall_read ::
    "vfs \<Rightarrow> 'a Task_files_scheme \<Rightarrow> kbd \<Rightarrow> u32 \<Rightarrow> usize \<Rightarrow> u8 list \<Rightarrow> (u8 list \<times> 'a Task_files_scheme \<times> kbd) outcome option" where
  "syscall_read v t k fd cnt irqs =
     (if bad_fd t fd then Some (Returns ([], t, k))
      else if fd = 0 then do { (bytes, k') \<leftarrow> kbd_read k cnt irqs; Some (Returns (bytes, t, k')) }
      else case get_descriptor t fd of
             None \<Rightarrow> Some (Returns ([], t, k))
           | Some descriptor \<Rightarrow>
               if fd_node descriptor = 0 then Some kernel_fault
               else let bytes = snd (fs_read instantiate (vs_node v (fd_node descriptor)) cnt (fd_cursor descriptor))
                    in Some (Returns (bytes, set_descriptor t fd (Some (descriptor\<lparr>fd_cursor := fd_cursor descriptor + cnt\<rparr>)), k)))"

definition syscall_pread :: "vfs \<Rightarrow> 'a Task_files_scheme \<Rightarrow> u32 \<Rightarrow> usize \<Rightarrow> usize \<Rightarrow> u8 list outcome" where
  "syscall_pread v t fd cnt offset =
     (case get_descriptor t fd of
        None \<Rightarrow> Returns []
      | Some descriptor \<Rightarrow>
          if fd_node descriptor = 0 then kernel_fault
          else Returns (snd (fs_read instantiate (vs_node v (fd_node descriptor)) cnt offset)))"

text \<open>\<^verbatim>\<open>"%.*s"\<close>; the \<^verbatim>\<open>(int)count\<close> argument is read back as a 64-bit slot whose upper half is taken to be zero.\<close>

definition print_counted :: "u8 list" where
  "print_counted = [37, 46, 42, 115]"

definition syscall_write ::
    "display \<Rightarrow> (usize \<Rightarrow> u8) \<Rightarrow> vfs \<Rightarrow> 'a Task_files_scheme \<Rightarrow> console \<Rightarrow> memory \<Rightarrow> u32 \<Rightarrow> uptr \<Rightarrow> usize \<Rightarrow>
     (vfs \<times> 'a Task_files_scheme \<times> console) outcome option" where
  "syscall_write d fill v t c m fd buf cnt =
     (if bad_fd t fd then Some (Returns (v, t, c))
      else if fd = 1 then
        do { (_, c') \<leftarrow> vprintf d m print_counted [ucast (ucast cnt :: u32), buf] c; Some (Returns (v, t, c')) }
      else case get_descriptor t fd of
             None \<Rightarrow> Some (Returns (v, t, c))
           | Some descriptor \<Rightarrow>
               if fd_node descriptor = 0 then Some kernel_fault
               else Some (Returns (fs_write instantiate fill v (fd_node descriptor) (\<lambda>i. m (buf + i)) cnt (fd_cursor descriptor),
                      set_descriptor t fd (Some (descriptor\<lparr>fd_cursor := fd_cursor descriptor + cnt\<rparr>)), c)))"

definition syscall_pwrite ::
    "(usize \<Rightarrow> u8) \<Rightarrow> vfs \<Rightarrow> 'a Task_files_scheme \<Rightarrow> memory \<Rightarrow> u32 \<Rightarrow> uptr \<Rightarrow> usize \<Rightarrow> usize \<Rightarrow> vfs outcome" where
  "syscall_pwrite fill v t m fd buf cnt offset =
     (case get_descriptor t fd of
        None \<Rightarrow> Returns v
      | Some descriptor \<Rightarrow>
          if fd_node descriptor = 0 then kernel_fault
          else Returns (fs_write instantiate fill v (fd_node descriptor) (\<lambda>i. m (buf + i)) cnt offset))"

definition syscall_seek :: "'a Task_files_scheme \<Rightarrow> u32 \<Rightarrow> isize \<Rightarrow> 'a Task_files_scheme" where
  "syscall_seek t fd offset =
     (case get_descriptor t fd of
        None \<Rightarrow> t
      | Some descriptor \<Rightarrow> set_descriptor t fd (Some (descriptor\<lparr>fd_cursor := offset\<rparr>)))"

text \<open>The names from the working directory up to, but without, the root.\<close>

partial_function (option) cwd_names :: "vfs \<Rightarrow> node_ref \<Rightarrow> key list option" where
  "cwd_names v current =
     (let parent = nd_parent (vs_node v current)
      in if parent = 0 \<or> nd_parent (vs_node v parent) = 0 then Some [nd_name (vs_node v current)]
         else do { names \<leftarrow> cwd_names v parent; Some (nd_name (vs_node v current) # names) })"

declare cwd_names.simps [code]

text \<open>Each byte is stored before the room is tested.\<close>

fun put_path :: "usize \<Rightarrow> u8 list \<Rightarrow> u8 list \<Rightarrow> isize \<times> u8 list" where
  "put_path bufsize [] buf = (0, buf)"
| "put_path bufsize (c # cs) buf =
     (let buf' = buf @ [c] in if unat bufsize \<le> length buf' then (- ERANGE, buf') else put_path bufsize cs buf')"

definition syscall_getcwd :: "vfs \<Rightarrow> 'a Task_files_scheme \<Rightarrow> usize \<Rightarrow> (isize \<times> u8 list) option" where
  "syscall_getcwd v t bufsize =
     do {
       parent_names \<leftarrow> cwd_names v (cwd t);
       Some (put_path bufsize (concat (map (\<lambda>name. slash # name) (rev parent_names))) [])
     }"

definition syscall_chdir :: "vfs \<Rightarrow> 'a Task_files_scheme \<Rightarrow> key \<Rightarrow> (isize \<times> 'a Task_files_scheme) option" where
  "syscall_chdir v t path =
     do {
       result \<leftarrow> path_to_node v path (if first_char path \<noteq> slash then cwd t else 0);
       if target result = 0 then Some (- ENOENT, t)
       else if nd_type (vs_node v (target result)) \<noteq> DIRECTORY then Some (- ENOTDIR, t)
       else Some (0, t\<lparr>cwd := target result\<rparr>)
     }"

section \<open>The descriptor table\<close>

lemma sint_of_nat_u32:
  assumes "n < 2 ^ 32"
  shows "sint (of_nat n :: u32) = (if n < 2 ^ 31 then int n else int n - 2 ^ 32)"
proof (cases "n < 2 ^ 31")
  case True
  have "sint (word_of_int (int n) :: u32) = int n" by (rule sint_word_of_int_32) (use True in simp_all)
  then show ?thesis using True by simp
next
  case False
  have s: "sint (word_of_int (int n - 2 ^ 32) :: u32) = int n - 2 ^ 32"
    by (rule sint_word_of_int_32) (use False assms in simp_all)
  have "(word_of_int (int n - 2 ^ 32) :: u32) = of_nat n" by simp
  then show ?thesis using s False by (simp only: if_False)
qed

lemma sint_u32: "sint fd = (if unat fd < 2 ^ 31 then int (unat fd) else int (unat fd) - 2 ^ 32)" for fd :: u32
  using sint_of_nat_u32 [of "unat fd"] unsigned_less [of fd, where ?'a = nat] by simp

lemma signed_index_guard:
  "n < 2 ^ 32 \<Longrightarrow> l < 2 ^ 31 \<Longrightarrow>
     int l \<le> (if n < 2 ^ 31 then int n else int n - 2 ^ 32) \<or> (if n < 2 ^ 31 then int n else int n - 2 ^ 32) < 0 \<longleftrightarrow> l \<le> n"
  for n l :: nat
  by auto

definition fd_room :: "'a Task_files_scheme \<Rightarrow> bool" where
  "fd_room t \<longleftrightarrow> length (file_descriptors t) < 2 ^ 31 - 1"

definition open_count :: "'a Task_files_scheme \<Rightarrow> nat" where
  "open_count t = length (filter (\<lambda>d. d \<noteq> None) (file_descriptors t))"

definition fd_inv :: "'a Task_files_scheme \<Rightarrow> bool" where
  "fd_inv t \<longleftrightarrow> length (file_descriptors t) < 2 ^ 31 \<and> unat (num_file_descriptors t) = open_count t \<and>
     unat (first_free_fdnum t) \<le> length (file_descriptors t)"

lemma bad_fd_iff: "length (file_descriptors t) < 2 ^ 31 \<Longrightarrow> bad_fd t fd \<longleftrightarrow> length (file_descriptors t) \<le> unat fd"
proof -
  assume l: "length (file_descriptors t) < 2 ^ 31"
  have "unat (of_nat (length (file_descriptors t)) :: u32) = length (file_descriptors t)" using l by (intro unat_of_nat_small) simp
  then have "sint (of_nat (length (file_descriptors t)) :: u32) = int (length (file_descriptors t))"
    using l by (simp add: sint_of_nat_u32)
  moreover have "unat fd < 2 ^ 32" using unsigned_less [of fd, where ?'a = nat] by simp
  ultimately show ?thesis unfolding bad_fd_def using signed_index_guard [OF _ l, of "unat fd"] sint_u32 [of fd] by simp
qed

lemma allocate_fdnum_spec:
  assumes room: "fd_room t" and r: "allocate_fdnum t = (fd, t1)"
  shows "unat fd < length (file_descriptors t1)" "file_descriptors t1 ! unat fd = None"
    "file_descriptors t1 = (if unat fd < length (file_descriptors t) then file_descriptors t else file_descriptors t @ [None])"
    "t1 = t\<lparr>num_file_descriptors := num_file_descriptors t + 1, first_free_fdnum := ucast fd, file_descriptors := file_descriptors t1\<rparr>"
    "unat fd < length (file_descriptors t) \<or> unat fd = length (file_descriptors t)"
proof -
  let ?fds = "file_descriptors t"
  have small: "unat (of_nat i :: u32) = i" "(ucast (of_nat i :: u32) :: usize) = of_nat i" if "i \<le> length ?fds" for i
  proof -
    show u: "unat (of_nat i :: u32) = i" using that room by (intro unat_of_nat_small) (simp add: fd_room_def)
    show "(ucast (of_nat i :: u32) :: usize) = of_nat i" by (metis u unat_of_nat_small ucast_of_nat)
  qed
  have "unat fd < length (file_descriptors t1) \<and> file_descriptors t1 ! unat fd = None \<and>
    file_descriptors t1 = (if unat fd < length ?fds then ?fds else ?fds @ [None]) \<and>
    t1 = t\<lparr>num_file_descriptors := num_file_descriptors t + 1, first_free_fdnum := ucast fd, file_descriptors := file_descriptors t1\<rparr> \<and>
    (unat fd < length ?fds \<or> unat fd = length ?fds)"
  proof (cases "find (\<lambda>i. ?fds ! i = None) [unat (first_free_fdnum t)..<length ?fds]")
    case None
    then have "fd = of_nat (length ?fds)" "t1 = t\<lparr>num_file_descriptors := num_file_descriptors t + 1,
        first_free_fdnum := of_nat (length ?fds), file_descriptors := ?fds @ [None]\<rparr>"
      using r by (simp_all add: allocate_fdnum_def Let_def)
    then show ?thesis using small [of "length ?fds"] by simp
  next
    case (Some i)
    then have i: "i < length ?fds" "?fds ! i = None" by (auto simp: find_Some_iff)
    have "fd = of_nat i" "t1 = t\<lparr>num_file_descriptors := num_file_descriptors t + 1, first_free_fdnum := of_nat i\<rparr>"
      using r Some by (simp_all add: allocate_fdnum_def Let_def)
    then show ?thesis using i small [of i] by simp
  qed
  then show "unat fd < length (file_descriptors t1)" "file_descriptors t1 ! unat fd = None"
    "file_descriptors t1 = (if unat fd < length ?fds then ?fds else ?fds @ [None])"
    "t1 = t\<lparr>num_file_descriptors := num_file_descriptors t + 1, first_free_fdnum := ucast fd, file_descriptors := file_descriptors t1\<rparr>"
    "unat fd < length ?fds \<or> unat fd = length ?fds" by auto
qed

lemma unat_ucast_32_64: "unat (ucast fd :: usize) = unat fd" for fd :: u32
  using unsigned_less [of fd, where ?'a = nat] by (simp add: unsigned_ucast_eq take_bit_nat_eq_self)

lemma filter_update:
  "i < length xs \<Longrightarrow> length (filter P (xs[i := x])) + (if P (xs ! i) then 1 else 0) = length (filter P xs) + (if P x then 1 else 0)"
proof (induction xs arbitrary: i)
  case (Cons y ys)
  then show ?case by (cases i) auto
qed simp

lemma length_set_descriptor [simp]: "length (file_descriptors (set_descriptor t fd d)) = length (file_descriptors t)"
  by (simp add: set_descriptor_def)

lemma get_set_descriptor:
  "length (file_descriptors t) < 2 ^ 31 \<Longrightarrow> \<not> bad_fd t fd \<Longrightarrow>
     get_descriptor (set_descriptor t fd d) fd' = (if fd' = fd then d else get_descriptor t fd')"
  by (auto simp: get_descriptor_def bad_fd_iff set_descriptor_def nth_list_update word_unat_eq_iff)

lemma get_descriptor_Some: "get_descriptor t fd = Some d \<Longrightarrow> \<not> bad_fd t fd \<and> file_descriptors t ! unat fd = Some d"
  by (auto simp: get_descriptor_def split: if_splits)

text \<open>Opening a slot and filling it.\<close>

lemma open_slot:
  assumes inv: "fd_inv t" and room: "fd_room t" and r: "allocate_fdnum t = (fd, t1)"
    and def': "t' = t1\<lparr>file_descriptors := (file_descriptors t1)[unat fd := Some d]\<rparr>"
  shows "fd_inv t'" "get_descriptor t fd = None" "get_descriptor t' fd = Some d"
    "\<And>fd'. fd' \<noteq> fd \<Longrightarrow> get_descriptor t' fd' = get_descriptor t fd'" "cwd t' = cwd t"
    "length (file_descriptors t) \<le> length (file_descriptors t')"
proof -
  note a = allocate_fdnum_spec [OF room r]
  let ?fds = "file_descriptors t" and ?fds' = "(file_descriptors t1)[unat fd := Some d]"
  have l31: "length ?fds < 2 ^ 31" "length ?fds' < 2 ^ 31" using room a(3) by (auto simp: fd_room_def)
  have t': "file_descriptors t' = ?fds'" "num_file_descriptors t' = num_file_descriptors t + 1" "first_free_fdnum t' = ucast fd" "cwd t' = cwd t"
    unfolding def' by (simp, (subst a(4), simp)+)
  have "length (filter (\<lambda>d. d \<noteq> None) (file_descriptors t1)) = open_count t" using a(3) by (simp add: open_count_def)
  then have cnt: "open_count t' = open_count t + 1"
    using filter_update [OF a(1), of "\<lambda>d. d \<noteq> None" "Some d"] a(2) by (simp add: open_count_def t'(1))
  have "open_count t \<le> length ?fds" by (simp add: open_count_def)
  then have num: "unat (num_file_descriptors t + 1) = open_count t + 1"
    using inv l31(1) by (subst unat_add_nowrap) (simp_all add: fd_inv_def)
  note ffd = unat_ucast_32_64 [of fd]
  show "fd_inv t'" using cnt num l31(2) a(1) ffd by (simp add: fd_inv_def t')
  show "get_descriptor t fd = None" using a(2,3,5) l31(1) by (auto simp: get_descriptor_def bad_fd_iff)
  show "get_descriptor t' fd = Some d" using a(1) l31(2) by (simp add: get_descriptor_def bad_fd_iff t'(1))
  show "get_descriptor t' fd' = get_descriptor t fd'" if "fd' \<noteq> fd" for fd'
  proof -
    have "unat fd' \<noteq> unat fd" using that by (simp add: word_unat_eq_iff)
    then show ?thesis using a(3,5) l31 by (auto simp: get_descriptor_def bad_fd_iff t'(1) nth_append split: if_splits)
  qed
  show "cwd t' = cwd t" by (rule t'(4))
  show "length ?fds \<le> length (file_descriptors t')" using a(3) by (simp add: t'(1))
qed

lemma close_slot:
  assumes inv: "fd_inv t" and d: "get_descriptor t fd = Some d"
  shows "fd_inv (syscall_close t fd)" "get_descriptor (syscall_close t fd) fd' = (if fd' = fd then None else get_descriptor t fd')"
proof -
  note g = get_descriptor_Some [OF d]
  have l: "length (file_descriptors t) < 2 ^ 31" using inv by (simp add: fd_inv_def)
  have i: "unat fd < length (file_descriptors t)" using g l by (simp add: bad_fd_iff)
  have c: "syscall_close t fd = (set_descriptor t fd None)\<lparr>num_file_descriptors := num_file_descriptors t - 1, first_free_fdnum := scast fd\<rparr>"
    using d by (simp add: syscall_close_def)
  have "open_count (syscall_close t fd) + 1 = open_count t"
    using filter_update [OF i, of "\<lambda>d. d \<noteq> None" None] g by (simp add: c open_count_def set_descriptor_def)
  moreover have "unat (num_file_descriptors t - 1) = open_count t - 1"
    using inv calculation by (subst unat_sub_nowrap) (simp_all add: fd_inv_def word_le_nat_alt)
  moreover have "unat (scast fd :: usize) = unat fd"
  proof -
    have "sint fd = int (unat fd)" using i l by (simp add: sint_u32)
    then have "(scast fd :: usize) = of_nat (unat fd)" by (metis of_int_of_nat_eq scast_eq)
    then show ?thesis by (simp add: unat_ucast_32_64)
  qed
  ultimately show "fd_inv (syscall_close t fd)" using i l by (simp add: fd_inv_def c)
  have "get_descriptor (syscall_close t fd) fd' = get_descriptor (set_descriptor t fd None) fd'"
    by (simp add: c get_descriptor_def bad_fd_def)
  then show "get_descriptor (syscall_close t fd) fd' = (if fd' = fd then None else get_descriptor t fd')"
    using get_set_descriptor [OF l conjunct1 [OF g]] by simp
qed

section \<open>Reading and writing through a descriptor\<close>

lemma user_buffer:
  assumes "\<forall>i<length xs. m (buf + of_nat i) = xs ! i" and "length xs < 2 ^ 64"
  shows "tmpfs_write fill v n (\<lambda>i. m (buf + i)) (of_nat (length xs)) pos = tmpfs_write fill v n (buffer xs) (of_nat (length xs)) pos"
proof -
  have "m (buf + i) = buffer xs i" if "i < of_nat (length xs)" for i
  proof -
    have "unat (of_nat (length xs) :: usize) = length xs" using assms(2) by (intro unat_of_nat_small) simp
    then have "unat i < length xs" using that by (simp add: word_less_nat_alt)
    then have "m (buf + of_nat (unat i)) = xs ! unat i" using assms(1) by blast
    then show ?thesis by (simp add: buffer_def)
  qed
  then have "write_data fill d (\<lambda>i. m (buf + i)) (of_nat (length xs)) pos = write_data fill d (buffer xs) (of_nat (length xs)) pos" for d
    by (rule write_data_cong)
  then show ?thesis by (simp add: tmpfs_write_def)
qed

section \<open>The working directory\<close>

text \<open>\<open>n\<close> is the directory that the names \<open>cs\<close> lead to from the root, and its parent pointers agree.\<close>

inductive located :: "vfs \<Rightarrow> node_ref \<Rightarrow> key list \<Rightarrow> bool" for v :: vfs where
  top: "nd_parent (vs_node v (vs_root v)) = 0 \<Longrightarrow> vs_root v \<noteq> 0 \<Longrightarrow> nd_type (vs_node v (vs_root v)) = DIRECTORY \<Longrightarrow>
     nd_parent (vs_node v n) = vs_root v \<Longrightarrow> child v (vs_root v) (nd_name (vs_node v n)) = Some n \<Longrightarrow> n \<noteq> 0 \<Longrightarrow>
     nd_type (vs_node v n) = DIRECTORY \<Longrightarrow> located v n [nd_name (vs_node v n)]"
| below: "located v p cs \<Longrightarrow> nd_parent (vs_node v n) = p \<Longrightarrow> child v p (nd_name (vs_node v n)) = Some n \<Longrightarrow> n \<noteq> 0 \<Longrightarrow>
     nd_type (vs_node v n) = DIRECTORY \<Longrightarrow> located v n (cs @ [nd_name (vs_node v n)])"

lemma located_parent: "located v n cs \<Longrightarrow> nd_parent (vs_node v n) \<noteq> 0 \<and> n \<noteq> 0 \<and> cs \<noteq> [] \<and> nd_type (vs_node v n) = DIRECTORY"
  by (induction rule: located.induct) (auto elim: located.cases)

lemma located_names: "located v n cs \<Longrightarrow> cwd_names v n = Some (rev cs)"
proof (induction rule: located.induct)
  case (top n)
  then show ?case by (simp add: cwd_names.simps Let_def)
next
  case (below p cs n)
  then show ?case using located_parent [OF below(1)] by (subst cwd_names.simps) (simp add: Let_def)
qed

lemma located_resolves: "located v n cs \<Longrightarrow> \<exists>r. resolve v (vs_root v) cs = Some r \<and> target r = n"
proof (induction rule: located.induct)
  case (top n)
  then show ?case using resolve_child [of v "vs_root v" "nd_name (vs_node v n)" n "[]"] by simp
next
  case (below p cs n)
  then obtain r where r: "resolve v (vs_root v) cs = Some r" "target r = p" by blast
  note lp = located_parent [OF below(1)]
  have "resolve v (vs_root v) (cs @ [nd_name (vs_node v n)]) = resolve v p [nd_name (vs_node v n)]"
    using resolve_append [OF _ _ r(1)] r(2) lp by simp
  then show ?case using resolve_child [of v p _ n "[]"] below lp by simp
qed

lemma put_path_spec:
  "length buf < unat bufsize \<Longrightarrow>
   put_path bufsize cs buf = (if length buf + length cs < unat bufsize then (0, buf @ cs)
     else (- ERANGE, buf @ take (unat bufsize - length buf) cs))"
proof (induction cs arbitrary: buf)
  case (Cons c cs)
  then show ?case by (auto simp: Let_def take_Cons' not_less)
qed simp

lemma concat_slashes: "cs \<noteq> [] \<Longrightarrow> concat (map (\<lambda>name. slash # name) cs) = slash # join cs"
  by (induction cs rule: join.induct) auto

section \<open>Properties\<close>

lemma path_to_node_returns:
  assumes "vfs_wf v" and "is_node v (vs_root v)" and "d = 0 \<or> is_node v d"
  shows "\<exists>r. path_to_node v path d = Some r \<and> (target r = 0 \<or> is_node v (target r))"
  using resolve_returns [OF assms(1)] assms(2,3)
  by (auto simp: path_to_node_def path_loop_resolve no_result_def)

text \<open>C17. \<^verbatim>\<open>open\<close> on a well-formed file system returns: for a path that leads nowhere \<^verbatim>\<open>-ENOENT\<close> with
  the table untouched, otherwise a descriptor number that was not in use, now standing for the node
  with the cursor at 0, while all other descriptors, and the count of open ones, stay right. Closing it restores
  every descriptor.\<close>

theorem open_close_correct:
  fixes t :: Task_files
  assumes "fd_inv t" and "fd_room t" and "vfs_wf v" and "is_node v (vs_root v)" and "cwd t = 0 \<or> is_node v (cwd t)"
  shows "\<exists>r. path_to_node v path (if first_char path \<noteq> slash then cwd t else 0) = Some r \<and>
     (if target r = 0 then syscall_open v t path = Some (Returns (- ucast ENOENT, t))
      else \<exists>fd t'. syscall_open v t path = Some (Returns (fd, t')) \<and> fd_inv t' \<and> 0 \<le> sint fd \<and>
             get_descriptor t fd = None \<and> get_descriptor t' fd = Some \<lparr>fd_node = target r, fd_cursor = 0\<rparr> \<and>
             (\<forall>fd'. fd' \<noteq> fd \<longrightarrow> get_descriptor t' fd' = get_descriptor t fd') \<and>
             fd_inv (syscall_close t' fd) \<and> get_descriptor (syscall_close t' fd) = get_descriptor t)"
proof -
  let ?start = "if first_char path \<noteq> slash then cwd t else 0"
  obtain r where r: "path_to_node v path ?start = Some r"
    using path_to_node_returns [OF assms(3,4)] assms(5) by (metis (full_types))
  have sp: "starting_point v t AT_FDCWD path = Returns (Inr ?start)" by (simp add: starting_point_def)
  show ?thesis
  proof (intro exI [of _ r] conjI r)
    obtain fd t1 where a: "allocate_fdnum t = (fd, t1)" by (cases "allocate_fdnum t") auto
    let ?d = "\<lparr>fd_node = target r, fd_cursor = 0\<rparr>"
    let ?t = "t1\<lparr>file_descriptors := (file_descriptors t1)[unat fd := Some ?d]\<rparr>"
    note o = open_slot [OF assms(1,2) a, of ?t ?d]
    note c = close_slot [OF o(1,3)]
    have "get_descriptor (syscall_close ?t fd) = get_descriptor t"
      using c(2) o(2,4) by (auto simp: fun_eq_iff)
    moreover have "0 \<le> sint fd" using get_descriptor_Some [OF o(3)] by (simp add: bad_fd_def)
    moreover have "syscall_open v t path = Some (Returns (fd, ?t))" if "target r \<noteq> 0"
      using that r sp a by (simp add: syscall_open_def openat_inner_def)
    moreover have "syscall_open v t path = Some (Returns (- ucast ENOENT, t))" if "target r = 0"
      using that r sp by (simp add: syscall_open_def openat_inner_def)
    ultimately show "if target r = 0 then syscall_open v t path = Some (Returns (- ucast ENOENT, t))
      else \<exists>fd t'. syscall_open v t path = Some (Returns (fd, t')) \<and> fd_inv t' \<and> 0 \<le> sint fd \<and>
             get_descriptor t fd = None \<and> get_descriptor t' fd = Some \<lparr>fd_node = target r, fd_cursor = 0\<rparr> \<and>
             (\<forall>fd'. fd' \<noteq> fd \<longrightarrow> get_descriptor t' fd' = get_descriptor t fd') \<and>
             fd_inv (syscall_close t' fd) \<and> get_descriptor (syscall_close t' fd) = get_descriptor t"
      using o(1-4) c(1) by auto
  qed
qed

definition demo_files :: Task_files where
  "demo_files = \<lparr>file_descriptors = 
       [Some \<lparr>fd_node = 0, fd_cursor = 0\<rparr>, Some \<lparr>fd_node = 0, fd_cursor = 0\<rparr>, Some \<lparr>fd_node = 0, fd_cursor = 0\<rparr>,
        Some \<lparr>fd_node = 5, fd_cursor = 2\<rparr>],
     num_file_descriptors = 4, first_free_fdnum = 3, cwd = 1\<rparr>"

lemma demo_files_ok: "fd_inv demo_files" "fd_room demo_files" "cwd demo_files = 1"
  by (simp_all add: demo_files_def fd_inv_def fd_room_def open_count_def)

theorem open_close_correct_witness:
  "\<exists>fd t'. syscall_open boot_vfs demo_files dot_name = Some (Returns (fd, t')) \<and>
     get_descriptor t' fd = Some \<lparr>fd_node = 1, fd_cursor = 0\<rparr> \<and> get_descriptor (syscall_close t' fd) = get_descriptor demo_files"
proof -
  have "path_to_node boot_vfs dot_name 1 = Some \<lparr>target_parent = 1, target = 1, basename = Some dot_name\<rparr>"
    using path_to_node_relative [of 1 "[dot_name]" boot_vfs] dot_names boot_vfs_ok resolve_child [of boot_vfs 1 dot_name 1 "[]"]
    by simp
  then show ?thesis
    using open_close_correct [of demo_files boot_vfs dot_name] demo_files_ok boot_vfs_ok dot_names(1)
    by (auto simp: first_char_def dot_name_def slash_def)
qed

text \<open>Through a descriptor of a regular file, what is written is read back: \<^verbatim>\<open>write\<close> stores the user's bytes at the cursor
  and advances it, and after seeking back \<^verbatim>\<open>read\<close> delivers them; other descriptors are not moved. The descriptor
  is not one of the first two, which stand for the keyboard and the console.\<close>

theorem write_seek_read:
  fixes t :: Task_files
  assumes table: "fd_inv t" and fd: "fd \<noteq> 0" "fd \<noteq> 1" and desc: "get_descriptor t fd = Some \<lparr>fd_node = n, fd_cursor = pos\<rparr>"
    and reg: "n \<noteq> 0" "nd_type (vs_node v n) = FILE" "unat pos \<le> length (file_bytes (nd_data (vs_node v n)))"
    and fits: "unat pos + length xs < 2 ^ 64" and buf: "\<forall>i<length xs. m (buf + of_nat i) = xs ! i"
  shows "\<exists>v' t'. syscall_write d fill v t c m fd buf (of_nat (length xs)) = Some (Returns (v', t', c)) \<and>
     get_descriptor t' = (get_descriptor t)(fd \<mapsto> \<lparr>fd_node = n, fd_cursor = pos + of_nat (length xs)\<rparr>) \<and>
     file_bytes (nd_data (vs_node v' n)) = splice_bytes (file_bytes (nd_data (vs_node v n))) (unat pos) xs \<and>
     (\<exists>t''. syscall_read v' (syscall_seek t' fd pos) k fd (of_nat (length xs)) [] = Some (Returns (xs, t'', k)) \<and>
        get_descriptor t'' = get_descriptor t')"
proof -
  let ?n = "of_nat (length xs) :: usize"
  let ?v = "tmpfs_write fill v n (buffer xs) ?n pos"
  let ?e = "\<lparr>fd_node = n, fd_cursor = pos + ?n\<rparr>" and ?rewound = "\<lparr>fd_node = n, fd_cursor = pos\<rparr>"
  have l: "length (file_descriptors t) < 2 ^ 31" using table by (simp add: fd_inv_def)
  have nb: "\<not> bad_fd t fd" using get_descriptor_Some [OF desc] by simp
  have wr: "tmpfs_write fill v n (\<lambda>i. m (buf + i)) ?n pos = ?v" using fits by (intro user_buffer [OF buf]) linarith
  let ?t = "set_descriptor t fd (Some ?e)"
  have len [simp]: "bad_fd (set_descriptor u fd x) fd = bad_fd u fd" for u x by (simp add: bad_fd_def)
  have d1: "get_descriptor ?t = (get_descriptor t)(fd \<mapsto> ?e)" using get_set_descriptor [OF l nb] by (auto simp: fun_eq_iff)
  have w: "syscall_write d fill v t c m fd buf ?n = Some (Returns (?v, ?t, c))"
    using nb fd desc reg(1) wr by (simp add: syscall_write_def)
  have sk: "syscall_seek ?t fd pos = set_descriptor ?t fd (Some ?rewound)" using d1 by (simp add: syscall_seek_def)
  let ?tseek = "set_descriptor ?t fd (Some ?rewound)"
  have d2: "get_descriptor ?tseek fd = Some ?rewound" using get_set_descriptor [of ?t fd] l nb by simp
  note rb = tmpfs_write_read [OF reg(2,3) fits, of fill]
  have rd: "snd (tmpfs_read (vs_node ?v n) ?n pos) = xs" using rb by simp
  let ?tread = "set_descriptor ?tseek fd (Some ?e)"
  have "syscall_read ?v ?tseek k fd ?n [] = Some (Returns (xs, ?tread, k))"
    using nb fd d2 reg(1) rd by (simp add: syscall_read_def Let_def)
  moreover have "get_descriptor ?tread = get_descriptor ?t"
    using get_set_descriptor [of ?tseek fd "Some ?e"] get_set_descriptor [of ?t fd "Some ?rewound"] d1 l nb by (auto simp: fun_eq_iff)
  ultimately show ?thesis using w d1 rb sk by auto
qed

theorem write_seek_read_witness:
  "\<exists>v' t' t''. syscall_write demo_display (\<lambda>_. 0) demo_vfs demo_files demo_console (\<lambda>a. if a = 0x1000 then 7 else 8) 3 0x1000 2 =
       Some (Returns (v', t', demo_console)) \<and>
     syscall_read v' (syscall_seek t' 3 2) kbd_boot 3 2 [] = Some (Returns ([7, 8], t'', kbd_boot))"
proof -
  have "get_descriptor demo_files 3 = Some \<lparr>fd_node = 5, fd_cursor = 2\<rparr>"
    using bad_fd_iff [of demo_files 3] by (simp add: get_descriptor_def demo_files_def nth_append)
  moreover have "\<forall>i<length [7, 8 :: u8]. (if 0x1000 + of_nat i = (0x1000 :: uptr) then 7 else 8) = [7, 8 :: u8] ! i"
    by (auto simp: less_Suc_eq)
  ultimately show ?thesis
    using write_seek_read [of demo_files 3 5 2 demo_vfs "[7, 8]" "\<lambda>a. if a = 0x1000 then 7 else 8" "0x1000" demo_display "\<lambda>_. 0" demo_console kbd_boot]
      demo_files_ok(1) by (auto simp: demo_vfs_def demo_file_def)
qed


definition demo_tree :: vfs where
  "demo_tree = snd (the (tmpfs_create boot_vfs 1 [97] DIRECTORY))"

lemma demo_tree_located: "located demo_tree (vs_next boot_vfs) [[97]]"
proof -
  note b = boot_vfs_ok
  have pre: "vfs_wf boot_vfs" "is_node boot_vfs 1" "nd_type (vs_node boot_vfs 1) = DIRECTORY"
    "hm_room (nd_children (vs_node boot_vfs 1))" "hm_get (nd_children (vs_node boot_vfs 1)) [97] = None"
    using b by (simp_all add: dot_name_def dotdot_name_def)
  let ?n = "vs_next boot_vfs"
  have n: "?n \<noteq> 1" "?n \<noteq> 0" "?n + 1 \<noteq> 1" "?n + 2 \<noteq> 1" using pre(2) by (auto simp: is_node_def)
  have "vs_root demo_tree = 1" "vs_node demo_tree ?n = \<lparr>nd_type = DIRECTORY, nd_data = empty_data, nd_redirect = 0, nd_parent = 1,
      nd_name = [97], nd_children = nd_children (vs_node demo_tree ?n)\<rparr>"
    "nd_parent (vs_node demo_tree 1) = 0" "nd_type (vs_node demo_tree 1) = DIRECTORY"
    using create_dir_state [OF pre] b n by (auto simp: demo_tree_def)
  moreover have "child demo_tree 1 [97] = Some ?n" using create_dir_ok [OF pre] by (auto simp: demo_tree_def)
  ultimately show ?thesis using located.top [of demo_tree ?n] n by (metis Node.select_convs(1,4,5) zero_neq_one)
qed


end
