(* ===== verification/Cpu.thy ===== *)
theory Cpu
  imports Fish_Prelude
begin

text \<open>
  The processor as the kernel sees it: \<^verbatim>\<open>src/cpu/cpu.hpp\<close> and the segment tables of \<^verbatim>\<open>src/cpu/gdt/gdt.cpp\<close>.
  \<open>cpu_regs\<close> holds the registers the C++ code reaches through inline assembly: descriptor table registers, task
  register, interrupt flag and model specific registers. A model specific register is the pair of halves that \<^verbatim>\<open>wrmsr\<close>
  takes in \<^verbatim>\<open>edx\<close> and \<^verbatim>\<open>eax\<close>. Output to ports is a trace.
\<close>

section \<open>Registers\<close>

record InterruptState =
  r_ds :: u64
  r_es :: u64
  r_r15 :: u64
  r_r14 :: u64
  r_r13 :: u64
  r_r12 :: u64
  r_r11 :: u64
  r_r10 :: u64
  r_r9 :: u64
  r_r8 :: u64
  r_rbp :: u64
  r_rdi :: u64
  r_rsi :: u64
  r_rdx :: u64
  r_rcx :: u64
  r_rbx :: u64
  r_rax :: u64
  r_err :: u64
  r_rip :: u64
  r_cs :: u64
  r_rflags :: u64
  r_rsp :: u64
  r_ss :: u64

definition zero_state :: InterruptState where
  "zero_state = \<lparr>r_ds = 0, r_es = 0, r_r15 = 0, r_r14 = 0, r_r13 = 0, r_r12 = 0, r_r11 = 0, r_r10 = 0, r_r9 = 0, r_r8 = 0,
     r_rbp = 0, r_rdi = 0, r_rsi = 0, r_rdx = 0, r_rcx = 0, r_rbx = 0, r_rax = 0, r_err = 0, r_rip = 0, r_cs = 0,
     r_rflags = 0, r_rsp = 0, r_ss = 0\<rparr>"

record table_register =
  tr_limit :: u16
  tr_base :: u64

record cpu_regs =
  gdtr :: table_register
  idtr :: table_register
  task_register :: u16
  interrupt_flag :: bool
  msrs :: "u32 \<Rightarrow> u32 \<times> u32"

definition IA32_APIC_BASE :: u32 where "IA32_APIC_BASE = 0x1B"
definition IA32_PAT :: u32 where "IA32_PAT = 0x277"
definition IA32_EFER :: u32 where "IA32_EFER = 0xC0000080"
definition IA32_STAR :: u32 where "IA32_STAR = 0xC0000081"
definition IA32_LSTAR :: u32 where "IA32_LSTAR = 0xC0000082"
definition IA32_FMASK :: u32 where "IA32_FMASK = 0xC0000084"
definition IA32_FS_BASE :: u32 where "IA32_FS_BASE = 0xC0000100"
definition IA32_GS_BASE :: u32 where "IA32_GS_BASE = 0xC0000101"
definition IA32_KERNEL_GS_BASE :: u32 where "IA32_KERNEL_GS_BASE = 0xC0000102"

definition msr_read :: "u32 \<Rightarrow> cpu_regs \<Rightarrow> u64" where
  "msr_read r c = (case msrs c r of (hi, lo) \<Rightarrow> push_bit 32 (ucast hi) OR ucast lo)"

definition msr_write :: "u32 \<Rightarrow> u64 \<Rightarrow> cpu_regs \<Rightarrow> cpu_regs" where
  "msr_write r v c =
     (let lo = ucast (v AND 0xFFFFFFFF); hi = ucast (drop_bit 32 v) in c\<lparr>msrs := (msrs c)(r := (hi, lo))\<rparr>)"

definition write_gs_base :: "u64 \<Rightarrow> cpu_regs \<Rightarrow> cpu_regs" where "write_gs_base = msr_write IA32_GS_BASE"
definition write_kernel_gs_base :: "u64 \<Rightarrow> cpu_regs \<Rightarrow> cpu_regs" where "write_kernel_gs_base = msr_write IA32_KERNEL_GS_BASE"
definition write_fs_base :: "u64 \<Rightarrow> cpu_regs \<Rightarrow> cpu_regs" where "write_fs_base = msr_write IA32_FS_BASE"
definition read_gs_base :: "cpu_regs \<Rightarrow> u64" where "read_gs_base = msr_read IA32_GS_BASE"
definition read_kernel_gs_base :: "cpu_regs \<Rightarrow> u64" where "read_kernel_gs_base = msr_read IA32_KERNEL_GS_BASE"
definition read_fs_base :: "cpu_regs \<Rightarrow> u64" where "read_fs_base = msr_read IA32_FS_BASE"

lemma msr_read_write: "msr_read r (msr_write r' v c) = (if r = r' then v else msr_read r c)"
proof -
  have "push_bit 32 (ucast (ucast (drop_bit 32 v) :: u32)) OR ucast (ucast (v AND mask 32) :: u32) = v" (is "?b = _")
  proof (rule bit_word_eqI)
    fix n :: nat assume n: "n < LENGTH(64)"
    consider "n < 32" | "32 \<le> n" by linarith
    then show "bit ?b n = bit v n" using n by cases (auto simp: bit_simps)
  qed
  moreover have "(0xFFFFFFFF :: u64) = mask 32" by (simp add: mask_eq_exp_minus_1)
  ultimately show ?thesis by (simp add: msr_read_def msr_write_def Let_def)
qed

lemma base_registers [simp]:
  "read_gs_base (write_gs_base v c) = v" "read_gs_base (write_kernel_gs_base v c) = read_gs_base c"
  "read_gs_base (write_fs_base v c) = read_gs_base c"
  "read_kernel_gs_base (write_gs_base v c) = read_kernel_gs_base c" "read_kernel_gs_base (write_kernel_gs_base v c) = v"
  "read_kernel_gs_base (write_fs_base v c) = read_kernel_gs_base c"
  "read_fs_base (write_gs_base v c) = read_fs_base c" "read_fs_base (write_kernel_gs_base v c) = read_fs_base c"
  "read_fs_base (write_fs_base v c) = v"
  by (simp_all add: read_gs_base_def write_gs_base_def read_kernel_gs_base_def write_kernel_gs_base_def read_fs_base_def
      write_fs_base_def msr_read_write IA32_FS_BASE_def IA32_GS_BASE_def IA32_KERNEL_GS_BASE_def)

section \<open>Task state and per-processor data\<close>

record TSS =
  ts_rsp0 :: u64
  ts_rsp1 :: u64
  ts_rsp2 :: u64
  ts_ist1 :: u64
  ts_ist2 :: u64
  ts_ist3 :: u64
  ts_ist4 :: u64
  ts_ist5 :: u64
  ts_ist6 :: u64
  ts_ist7 :: u64
  ts_io_map_base :: u16

definition zero_tss :: TSS where
  "zero_tss = \<lparr>ts_rsp0 = 0, ts_rsp1 = 0, ts_rsp2 = 0, ts_ist1 = 0, ts_ist2 = 0, ts_ist3 = 0, ts_ist4 = 0, ts_ist5 = 0,
     ts_ist6 = 0, ts_ist7 = 0, ts_io_map_base = 0\<rparr>"

record Local =
  cpu_number :: u64
  is_bsp :: bool
  lc_tss :: TSS
  lapic_id :: u64
  lapic_timer_freq :: u64

definition new_Local :: Local where
  "new_Local = \<lparr>cpu_number = 0, is_bsp = False, lc_tss = zero_tss, lapic_id = 0, lapic_timer_freq = 0\<rparr>"

section \<open>The global descriptor table\<close>

record GDTEntry =
  gd_limit :: u16
  gd_base_low :: u16
  gd_base_mid :: u8
  gd_access :: u8
  gd_granularity :: u8
  gd_base_high :: u8

definition KERNEL_CODE_64 :: u64 where "KERNEL_CODE_64 = 0x8"
definition KERNEL_DATA_64 :: u64 where "KERNEL_DATA_64 = 0x10"
definition USER_DATA_64 :: u64 where "USER_DATA_64 = 0x18"
definition USER_CODE_64 :: u64 where "USER_CODE_64 = 0x20"
definition TSS_SEGMENT :: u64 where "TSS_SEGMENT = 0x28"

definition flat_segment :: "u8 \<Rightarrow> u8 \<Rightarrow> GDTEntry" where
  "flat_segment access granularity =
     \<lparr>gd_limit = 0, gd_base_low = 0, gd_base_mid = 0, gd_access = access, gd_granularity = granularity, gd_base_high = 0\<rparr>"

definition reload_gdt :: "uptr \<Rightarrow> cpu_regs \<Rightarrow> cpu_regs" where
  "reload_gdt gdt_addr c = c\<lparr>gdtr := \<lparr>tr_limit = 7 * 8 - 1, tr_base = gdt_addr\<rparr>\<rparr>"

text \<open>The seven entries; the last two are for the task state segment.\<close>

definition load_gdt :: "uptr \<Rightarrow> GDTEntry list \<Rightarrow> cpu_regs \<Rightarrow> GDTEntry list \<times> cpu_regs" where
  "load_gdt gdt_addr gdt c =
     (gdt[0 := flat_segment 0 0, 1 := flat_segment 0b10011010 0b00100000, 2 := flat_segment 0b10010010 0,
          3 := flat_segment 0b11110010 0, 4 := flat_segment 0b11111010 0b00100000], reload_gdt gdt_addr c)"

definition load_tss :: "uptr \<Rightarrow> GDTEntry list \<Rightarrow> cpu_regs \<Rightarrow> GDTEntry list \<times> cpu_regs" where
  "load_tss tss_addr gdt c =
     (gdt[5 := \<lparr>gd_limit = 0x67, gd_base_low = ucast tss_addr, gd_base_mid = ucast (drop_bit 16 tss_addr),
                gd_access = 0b10001001, gd_granularity = 0, gd_base_high = ucast (drop_bit 24 tss_addr)\<rparr>,
          6 := \<lparr>gd_limit = ucast (drop_bit 32 tss_addr), gd_base_low = ucast (drop_bit 48 tss_addr), gd_base_mid = 0,
                gd_access = 0, gd_granularity = 0, gd_base_high = 0\<rparr>], c\<lparr>task_register := ucast TSS_SEGMENT\<rparr>)"

text \<open>The base address the processor assembles from a 16-byte system descriptor.\<close>

definition system_base :: "GDTEntry \<Rightarrow> GDTEntry \<Rightarrow> uptr" where
  "system_base lo hi =
     ucast (gd_base_low lo) OR push_bit 16 (ucast (gd_base_mid lo)) OR push_bit 24 (ucast (gd_base_high lo)) OR
     push_bit 32 (ucast (gd_limit hi)) OR push_bit 48 (ucast (gd_base_low hi))"

lemma system_base_tss:
  assumes "length gdt = 7"
  shows "system_base (fst (load_tss tss gdt c) ! 5) (fst (load_tss tss gdt c) ! 6) = tss"
proof -
  have "ucast (ucast tss :: u16) OR push_bit 16 (ucast (ucast (drop_bit 16 tss) :: u8)) OR
      push_bit 24 (ucast (ucast (drop_bit 24 tss) :: u8)) OR push_bit 32 (ucast (ucast (drop_bit 32 tss) :: u16)) OR
      push_bit 48 (ucast (ucast (drop_bit 48 tss) :: u16)) = tss" (is "?b = _")
  proof (rule bit_word_eqI)
    fix n :: nat assume n: "n < LENGTH(64)"
    consider "n < 16" | "16 \<le> n" "n < 24" | "24 \<le> n" "n < 32" | "32 \<le> n" "n < 48" | "48 \<le> n" by linarith
    then show "bit ?b n = bit tss n" using n by cases (auto simp: bit_simps)
  qed
  then show ?thesis using assms by (simp add: system_base_def load_tss_def)
qed

section \<open>Ports\<close>

text \<open>Writes to ports in the order they are made, the latest last.\<close>

type_synonym port_trace = "(u16 \<times> u8) list"

definition out8 :: "u16 \<Rightarrow> u8 \<Rightarrow> port_trace \<Rightarrow> port_trace" where
  "out8 port val t = t @ [(port, val)]"

end
