(* ===== verification/Interrupts.thy ===== *)
theory Interrupts
  imports Vmm Cpu
begin

text \<open>
  Interrupt descriptors and routing: \<^verbatim>\<open>src/cpu/interrupts/idt.cpp\<close>, \<^verbatim>\<open>apic.cpp\<close>, \<^verbatim>\<open>interrupts.cpp\<close> and the legacy controller
  of \<^verbatim>\<open>pic.cpp\<close>. A handler is named by a constructor, or by its address when a driver
  registers it; the registers of the interrupt controllers are functions of the register number. What the
  processor reads out of a gate is defined beside the code that packs it. What an exception prints is left out.
\<close>

section \<open>The interrupt descriptor table\<close>

datatype IDTType = INTERRUPT | TRAP

fun type_code :: "IDTType \<Rightarrow> u16" where
  "type_code INTERRUPT = 0b1110"
| "type_code TRAP = 0b1111"

record IDTEntry =
  offset1 :: u16
  selector :: u16
  attributes :: u16
  offset2 :: u16
  offset3 :: u32
  idt_reserved :: u32

datatype idt_handler = No_Handler | Exception_Handler | Page_Fault_Handler | Spurious | Scheduler_Isr | Handler uptr

record idt_state =
  idt :: "u8 \<Rightarrow> IDTEntry"
  idt_handlers :: "u8 \<Rightarrow> idt_handler"
  idt_bits :: memory
  idt_bitmap :: Bitmap

definition idt_entry :: "uptr \<Rightarrow> IDTType \<Rightarrow> IDTEntry" where
  "idt_entry wrapper type =
     \<lparr>offset1 = ucast (wrapper AND 0xFFFF), selector = ucast KERNEL_CODE_64,
      attributes = push_bit 15 1 OR push_bit 8 (type_code type),
      offset2 = ucast (drop_bit 16 (wrapper AND 0xFFFF0000)),
      offset3 = ucast (drop_bit 32 (wrapper AND 0xFFFFFFFF00000000)), idt_reserved = 0\<rparr>"

definition load_idt_entry :: "u8 \<Rightarrow> uptr \<Rightarrow> IDTType \<Rightarrow> idt_state \<Rightarrow> idt_state" where
  "load_idt_entry index wrapper type s = s\<lparr>idt := (idt s)(index := idt_entry wrapper type)\<rparr>"

definition load_idt_handler :: "u8 \<Rightarrow> idt_handler \<Rightarrow> idt_state \<Rightarrow> idt_state" where
  "load_idt_handler index handler s = s\<lparr>idt_handlers := (idt_handlers s)(index := handler)\<rparr>"

text \<open>Where the processor jumps for a gate.\<close>

definition gate_target :: "IDTEntry \<Rightarrow> uptr" where
  "gate_target e = ucast (offset1 e) OR push_bit 16 (ucast (offset2 e)) OR push_bit 32 (ucast (offset3 e))"

text \<open>\<^verbatim>\<open>for (u8 i = 32; i; i++)\<close>: the loop ends when the counter wraps to 0.\<close>

function allocate_vector_loop :: "u8 \<Rightarrow> idt_state \<Rightarrow> (u8 \<times> idt_state) outcome" where
  "allocate_vector_loop i s =
     (if i = 0 then Panics ''Failed to allocate interrupt''
      else if \<not> bitmap_get (idt_bits s) (idt_bitmap s) (ucast i)
      then Returns (i, s\<lparr>idt_bits := bitmap_set (idt_bits s) (idt_bitmap s) (ucast i) True\<rparr>)
      else allocate_vector_loop (i + 1) s)"
  by pat_completeness auto
termination
proof (relation "measure (\<lambda>(i, s). if i = 0 then 0 else 256 - unat i)", goal_cases)
  case (2 i s)
  have "unat i < 256" using unsigned_less [of i, where ?'a = nat] by simp
  moreover have "i + 1 \<noteq> 0 \<Longrightarrow> unat (i + 1) = unat i + 1" by (metis Suc_eq_plus1 unatSuc add.commute)
  ultimately show ?case using 2(1) by auto
qed simp

declare allocate_vector_loop.simps [simp del]

definition allocate_vector :: "idt_state \<Rightarrow> (u8 \<times> idt_state) outcome" where
  "allocate_vector s = allocate_vector_loop 32 s"

definition load_idt :: "(u8 \<Rightarrow> uptr) \<Rightarrow> uptr \<Rightarrow> uptr \<Rightarrow> cpu_regs \<Rightarrow> idt_state \<Rightarrow> cpu_regs \<times> idt_state" where
  "load_idt idt_wrappers idt_raw_bitmap idt_addr c s =
     (let s1 = s\<lparr>idt_bitmap := \<lparr>m_buffer = idt_raw_bitmap, m_size = 256\<rparr>\<rparr>;
          s2 = fold (\<lambda>i. load_idt_entry (of_nat i) (idt_wrappers (of_nat i)) INTERRUPT) [0..<256] s1;
          s3 = fold (\<lambda>i s. let s' = load_idt_handler (of_nat i) (if i = 0xE then Page_Fault_Handler else Exception_Handler) s
                          in s'\<lparr>idt_bits := bitmap_set (idt_bits s') (idt_bitmap s') (of_nat i) True\<rparr>) [0..<32] s2
      in (c\<lparr>idtr := \<lparr>tr_limit = 256 * 16 - 1, tr_base = idt_addr\<rparr>, interrupt_flag := True\<rparr>, s3))"

definition exception_strings :: "string list" where
  "exception_strings =
     [''Division by 0'', ''Debug'', ''NMI'', ''Breakpoint'', ''Overflow'', ''Bound range exceeded'', ''Invalid opcode'',
      ''Device not available'', ''Double fault'', ''???'', ''Invalid TSS'', ''Segment not present'', ''Stack-segment fault'',
      ''General protection fault'', ''Page fault'', ''???'', ''x87 exception'', ''Alignment check'', ''Machine check'',
      ''SIMD exception'', ''Virtualisation'', ''???'', ''???'', ''???'', ''???'', ''???'', ''???'', ''???'', ''???'', ''???'',
      ''Security'']"

definition err_name :: "u64 \<Rightarrow> string" where
  "err_name vec = (if vec < 19 then exception_strings ! unat vec else ''Reserved'')"

text \<open>What an exception leads to: the end of the current user task, or of the kernel.\<close>

datatype verdict = Resume | Kill_Task string | Kernel_Panic string

definition exception_handler :: "u64 \<Rightarrow> InterruptState \<Rightarrow> verdict" where
  "exception_handler vec state =
     (if r_cs state AND 3 = 3 then Kill_Task (err_name vec)
      else Kernel_Panic ''Cannot recover from CPU exception that happened in the kernel'')"

definition page_fault_handler ::
    "Pagemap \<Rightarrow> Pagemap \<Rightarrow> u64 \<Rightarrow> InterruptState \<Rightarrow> uptr \<Rightarrow> vmm \<Rightarrow> (verdict \<times> vmm) outcome option" where
  "page_fault_handler task_pagemap kernel_pagemap vec state cr2 s =
     (case handle_page_fault (if r_cs state AND 3 = 3 then task_pagemap else kernel_pagemap) cr2 s of
        None \<Rightarrow> None
      | Some (Panics msg) \<Rightarrow> Some (Panics msg)
      | Some (Returns (unhandled, s')) \<Rightarrow> Some (Returns (if unhandled then exception_handler vec state else Resume, s')))"

section \<open>Interrupt controllers\<close>

definition bool_bit :: "bool \<Rightarrow> u32" where
  "bool_bit b = (if b then 1 else 0)"

type_synonym lapic = "u32 \<Rightarrow> u32"

definition LAPIC_ID :: u32 where "LAPIC_ID = 0x20"
definition LAPIC_EOI :: u32 where "LAPIC_EOI = 0xB0"
definition LAPIC_SPURIOUS :: u32 where "LAPIC_SPURIOUS = 0xF0"
definition LVT_CMCI :: u32 where "LVT_CMCI = 0x2F0"
definition LVT_TIMER :: u32 where "LVT_TIMER = 0x320"
definition LVT_THERMAL :: u32 where "LVT_THERMAL = 0x330"
definition LVT_PERF :: u32 where "LVT_PERF = 0x340"
definition LVT_LINT0 :: u32 where "LVT_LINT0 = 0x350"
definition LVT_LINT1 :: u32 where "LVT_LINT1 = 0x360"
definition LVT_ERROR :: u32 where "LVT_ERROR = 0x370"
definition TIMER_INITIAL :: u32 where "TIMER_INITIAL = 0x380"
definition TIMER_CURRENT :: u32 where "TIMER_CURRENT = 0x390"
definition TIMER_DIVIDE :: u32 where "TIMER_DIVIDE = 0x3E0"

record LAPIC =
  la_id :: u8
  la_acpi_id :: u8

text \<open>The page of registers lies where the base register says, behind the direct map.\<close>

definition lapic_prepare :: "Pagemap \<Rightarrow> cpu_regs \<Rightarrow> vmm \<Rightarrow> (uptr \<times> vmm) outcome" where
  "lapic_prepare kernel_pagemap c v =
     (let phy_base = msr_read IA32_APIC_BASE c AND NOT 0xFFF; reg_base = phy_base + v_hhdm v
      in obind (map_page kernel_pagemap phy_base reg_base (PAGE_PRESENT OR PAGE_WRITABLE OR PAGE_NO_EXECUTE OR PAGE_CACHE_DISABLE) v)
           (\<lambda>v'. Returns (reg_base, v')))"

definition lapic_set_vector :: "u32 \<Rightarrow> u8 \<Rightarrow> bool \<Rightarrow> bool \<Rightarrow> bool \<Rightarrow> bool \<Rightarrow> lapic \<Rightarrow> lapic" where
  "lapic_set_vector reg vector nmi active_low level_trigger masked l =
     l(reg := ucast vector OR push_bit 10 (bool_bit nmi) OR push_bit 13 (bool_bit active_low) OR
              push_bit 15 (bool_bit level_trigger) OR push_bit 16 (bool_bit masked))"

definition lapic_mask_vector :: "u32 \<Rightarrow> lapic \<Rightarrow> lapic" where
  "lapic_mask_vector reg l = l(reg := l reg OR push_bit 16 1)"

definition lapic_unmask_vector :: "u32 \<Rightarrow> lapic \<Rightarrow> lapic" where
  "lapic_unmask_vector reg l = l(reg := l reg AND NOT (push_bit 16 1))"

definition lapic_eoi :: "lapic \<Rightarrow> lapic" where
  "lapic_eoi l = l(LAPIC_EOI := 0)"

definition lapic_enable :: "cpu_regs \<Rightarrow> idt_state \<Rightarrow> lapic \<Rightarrow> (cpu_regs \<times> idt_state \<times> lapic) outcome" where
  "lapic_enable c s l =
     (let c1 = msr_write IA32_APIC_BASE (msr_read IA32_APIC_BASE c OR push_bit 11 1) c
      in obind (allocate_vector s) (\<lambda>(spurious_vector, s1).
           Returns (c1, load_idt_handler spurious_vector Spurious s1, l(LAPIC_SPURIOUS := ucast spurious_vector OR push_bit 8 1))))"

text \<open>An interrupt controller has a register that selects and a window onto the selected register.\<close>

record IOAPIC =
  io_id :: u8
  gsi_base :: u32
  max_entries :: u32
  ioregsel :: u32
  io_regs :: "u32 \<Rightarrow> u32"

definition ioapic_write_reg :: "usize \<Rightarrow> u32 \<Rightarrow> IOAPIC \<Rightarrow> IOAPIC" where
  "ioapic_write_reg reg val io =
     (let io1 = io\<lparr>ioregsel := ucast reg\<rparr> in io1\<lparr>io_regs := (io_regs io1)(ioregsel io1 := val)\<rparr>)"

definition ioapic_read_reg :: "usize \<Rightarrow> IOAPIC \<Rightarrow> u32 \<times> IOAPIC" where
  "ioapic_read_reg reg io = (let io1 = io\<lparr>ioregsel := ucast reg\<rparr> in (io_regs io1 (ioregsel io1), io1))"

definition new_IOAPIC :: "usize \<Rightarrow> (u32 \<Rightarrow> u32) \<Rightarrow> usize \<Rightarrow> IOAPIC" where
  "new_IOAPIC ident regs base =
     (case ioapic_read_reg 1 \<lparr>io_id = ucast ident, gsi_base = ucast base, max_entries = 0, ioregsel = 0, io_regs = regs\<rparr> of
        (val, io) \<Rightarrow> io\<lparr>max_entries := drop_bit 16 val + 1\<rparr>)"

definition set_redir_entry :: "usize \<Rightarrow> u8 \<Rightarrow> u8 \<Rightarrow> bool \<Rightarrow> bool \<Rightarrow> bool \<Rightarrow> bool \<Rightarrow> u8 \<Rightarrow> IOAPIC \<Rightarrow> IOAPIC" where
  "set_redir_entry n vector delivery_mode logic_dest active_low level_trigger masked dest io =
     ioapic_write_reg (n * 2 + 0x11) (push_bit 24 (ucast dest))
       (ioapic_write_reg (n * 2 + 0x10) (ucast vector OR push_bit 8 (ucast delivery_mode) OR push_bit 11 (bool_bit logic_dest) OR
          push_bit 13 (bool_bit active_low) OR push_bit 15 (bool_bit level_trigger) OR push_bit 16 (bool_bit masked)) io)"

record irq_state =
  ir_idt :: idt_state
  ir_lapic :: lapic
  ir_ioapics :: "IOAPIC list"
  irq_to_gsi :: "u32 list"
  irq_flags :: "u16 list"

definition override_irq_source :: "u8 \<Rightarrow> u32 \<Rightarrow> u16 \<Rightarrow> irq_state \<Rightarrow> irq_state" where
  "override_irq_source irq gsi flags s =
     s\<lparr>irq_to_gsi := (irq_to_gsi s)[unat irq := gsi], irq_flags := (irq_flags s)[unat irq := flags]\<rparr>"

text \<open>The first controller whose range holds the interrupt gets the redirection entry.\<close>

fun route_gsi :: "u32 \<Rightarrow> (IOAPIC \<Rightarrow> IOAPIC) \<Rightarrow> IOAPIC list \<Rightarrow> IOAPIC list" where
  "route_gsi gsi f [] = []"
| "route_gsi gsi f (io # ios) =
     (if gsi \<ge> gsi_base io \<and> gsi < gsi_base io + max_entries io then f io # ios else io # route_gsi gsi f ios)"

definition register_gsi :: "u32 \<Rightarrow> bool \<Rightarrow> bool \<Rightarrow> idt_handler \<Rightarrow> irq_state \<Rightarrow> irq_state outcome" where
  "register_gsi gsi active_low level_trigger handler s =
     obind (allocate_vector (ir_idt s)) (\<lambda>(vector, i1).
       Returns (s\<lparr>ir_idt := load_idt_handler vector handler i1,
         ir_ioapics := route_gsi gsi
           (set_redir_entry (ucast gsi) vector 0 False active_low level_trigger False (ucast (ir_lapic s LAPIC_ID))) (ir_ioapics s)\<rparr>))"

definition register_irq :: "u8 \<Rightarrow> idt_handler \<Rightarrow> irq_state \<Rightarrow> irq_state outcome" where
  "register_irq irq handler s =
     (let gsi = irq_to_gsi s ! unat irq; flags = irq_flags s ! unat irq
      in register_gsi gsi (flags AND 0b11 = 0b11) (flags AND 0b1100 = 0b1100) handler s)"

section \<open>The legacy controller\<close>

definition PIC1_COMMAND :: u16 where "PIC1_COMMAND = 0x20"
definition PIC1_DATA :: u16 where "PIC1_DATA = 0x21"
definition PIC2_COMMAND :: u16 where "PIC2_COMMAND = 0xA0"
definition PIC2_DATA :: u16 where "PIC2_DATA = 0xA1"
definition PIC_EOI :: u8 where "PIC_EOI = 0x20"
definition ICW1_ICW4 :: u8 where "ICW1_ICW4 = 1"
definition ICW1_INIT :: u8 where "ICW1_INIT = 0x10"
definition ICW4_8086 :: u8 where "ICW4_8086 = 1"

text \<open>\<open>m1\<close> and \<open>m2\<close> are what the two data ports read before.\<close>

definition pic_remap :: "u8 \<Rightarrow> u8 \<Rightarrow> u8 \<Rightarrow> u8 \<Rightarrow> port_trace \<Rightarrow> port_trace" where
  "pic_remap m1 m2 first second t =
     fold (\<lambda>(port, val). out8 port val)
       [(PIC1_COMMAND, ICW1_INIT OR ICW1_ICW4), (0x80, 0), (PIC2_COMMAND, ICW1_INIT OR ICW1_ICW4), (0x80, 0),
        (PIC1_DATA, first), (0x80, 0), (PIC2_DATA, second), (0x80, 0),
        (PIC1_DATA, 4), (0x80, 0), (PIC2_DATA, 2), (0x80, 0),
        (PIC1_DATA, ICW4_8086), (0x80, 0), (PIC2_DATA, ICW4_8086), (0x80, 0),
        (PIC1_DATA, m1), (PIC2_DATA, m2)] t"

definition pic_send_eoi :: "u8 \<Rightarrow> port_trace \<Rightarrow> port_trace" where
  "pic_send_eoi irq t =
     out8 PIC1_COMMAND PIC_EOI (if irq \<ge> 8 then out8 PIC2_COMMAND PIC_EOI t else t)"

definition pic_set_mask :: "(u16 \<Rightarrow> u8) \<Rightarrow> u8 \<Rightarrow> port_trace \<Rightarrow> port_trace" where
  "pic_set_mask inp irq t =
     (let port = (if irq < 8 then PIC1_DATA else PIC2_DATA) in out8 port (inp port OR push_bit (unat (irq AND 7)) 1) t)"

definition pic_clear_mask :: "(u16 \<Rightarrow> u8) \<Rightarrow> u8 \<Rightarrow> port_trace \<Rightarrow> port_trace" where
  "pic_clear_mask inp irq t =
     (let port = (if irq < 8 then PIC1_DATA else PIC2_DATA) in out8 port (inp port AND NOT (push_bit (unat (irq AND 7)) 1)) t)"

section \<open>Vectors\<close>

definition vector_used :: "idt_state \<Rightarrow> u8 \<Rightarrow> bool" where
  "vector_used s i \<longleftrightarrow> bitmap_get (idt_bits s) (idt_bitmap s) (ucast i)"

definition set_vector_used :: "idt_state \<Rightarrow> u8 \<Rightarrow> bool \<Rightarrow> idt_state" where
  "set_vector_used s i b = s\<lparr>idt_bits := bitmap_set (idt_bits s) (idt_bitmap s) (ucast i) b\<rparr>"

lemma ucast_8_64_eq: "(ucast i :: usize) = ucast j \<longleftrightarrow> i = j" for i j :: u8
proof
  have u: "unat (ucast k :: usize) = unat k" for k :: u8
    using unsigned_less [of k, where ?'a = nat] by (simp add: unsigned_ucast_eq take_bit_nat_eq_self)
  assume "(ucast i :: usize) = ucast j"
  then show "i = j" using u [of i] u [of j] by (simp add: word_unat_eq_iff)
qed simp

interpretation vectors: bit_store vector_used set_vector_used
  by unfold_locales (simp add: vector_used_def set_vector_used_def bitmap_get_set ucast_8_64_eq)

lemma allocate_vector_loop_spec:
  "i \<noteq> 0 \<Longrightarrow>
   (case allocate_vector_loop i s of
      Panics msg \<Rightarrow> \<forall>j\<ge>i. vector_used s j
    | Returns (v, s') \<Rightarrow> i \<le> v \<and> \<not> vector_used s v \<and> (\<forall>j. i \<le> j \<and> j < v \<longrightarrow> vector_used s j) \<and> s' = set_vector_used s v True)"
proof (induction i s rule: allocate_vector_loop.induct)
  case (1 i s)
  show ?case
  proof (cases "vector_used s i")
    case False
    then show ?thesis using 1(2) by (subst allocate_vector_loop.simps) (auto simp: vector_used_def set_vector_used_def)
  next
    case True
    then have step: "allocate_vector_loop i s = allocate_vector_loop (i + 1) s"
      using 1(2) by (subst allocate_vector_loop.simps) (simp add: vector_used_def)
    show ?thesis
    proof (cases "i + 1 = 0")
      case True
      then have "i = - 1" by (rule eq_neg_iff_add_eq_0 [THEN iffD2])
      then have "j \<ge> i \<Longrightarrow> j = i" for j using word_order.extremum_unique by blast
      then show ?thesis using step True \<open>vector_used s i\<close> by (auto simp: allocate_vector_loop.simps [of 0])
    next
      case False
      then have "unat (i + 1) = unat i + 1" by (metis Suc_eq_plus1 unatSuc add.commute)
      then have ge: "j \<ge> i \<longleftrightarrow> j = i \<or> j \<ge> i + 1" for j by (auto simp: word_le_nat_alt word_unat_eq_iff)
      then show ?thesis using 1(1) [OF 1(2) _ False] True step
        by (auto simp: vector_used_def split: outcome.splits)
    qed
  qed
qed

section \<open>Properties\<close>

lemma offset_masks:
  "(0xFFFF :: u64) = mask 16" "(0xFFFF0000 :: u64) = push_bit 16 (mask 16)" "(0xFFFFFFFF00000000 :: u64) = push_bit 32 (mask 32)"
  by (simp_all add: mask_eq_exp_minus_1)

lemma gate_target_entry: "gate_target (idt_entry wrapper type) = wrapper"
proof -
  have "ucast (ucast (wrapper AND mask 16) :: u16) OR push_bit 16 (ucast (ucast (drop_bit 16 (wrapper AND push_bit 16 (mask 16))) :: u16))
      OR push_bit 32 (ucast (ucast (drop_bit 32 (wrapper AND push_bit 32 (mask 32))) :: u32)) = wrapper" (is "?b = _")
  proof (rule bit_word_eqI)
    fix n :: nat assume n: "n < LENGTH(64)"
    consider "n < 16" | "16 \<le> n" "n < 32" | "32 \<le> n" by linarith
    then show "bit ?b n = bit wrapper n" using n by cases (auto simp: bit_simps)
  qed
  then show ?thesis unfolding gate_target_def idt_entry_def IDTEntry.simps offset_masks .
qed

text \<open>The addresses that the tables split into fields are the ones the processor puts together again: a gate leads to its
  wrapper with a present interrupt gate in the kernel's code segment, and the task state segment descriptor to the
  segment, leaving the flat segments as they were.\<close>

theorem descriptors_roundtrip:
  assumes "length gdt = 7"
  shows "gate_target (idt (load_idt_entry index wrapper INTERRUPT s) index) = wrapper \<and>
         attributes (idt (load_idt_entry index wrapper INTERRUPT s) index) = 0x8E00 \<and>
         system_base (fst (load_tss tss gdt c) ! 5) (fst (load_tss tss gdt c) ! 6) = tss \<and>
         take 5 (fst (load_tss tss gdt c)) = take 5 gdt"
  using assms gate_target_entry [of wrapper INTERRUPT] system_base_tss [OF assms, of tss c]
  by (simp add: load_idt_entry_def idt_entry_def load_tss_def)

definition demo_idt :: idt_state where
  "demo_idt = \<lparr>idt = (\<lambda>_. idt_entry 0 INTERRUPT), idt_handlers = (\<lambda>_. No_Handler), idt_bits = (\<lambda>_. 0),
     idt_bitmap = \<lparr>m_buffer = 0x100, m_size = 256\<rparr>\<rparr>"

definition demo_cpu :: cpu_regs where
  "demo_cpu = \<lparr>gdtr = \<lparr>tr_limit = 0, tr_base = 0\<rparr>, idtr = \<lparr>tr_limit = 0, tr_base = 0\<rparr>, task_register = 0, interrupt_flag = False,
     msrs = (\<lambda>_. (0, 0))\<rparr>"

definition demo_gdt :: "GDTEntry list" where
  "demo_gdt = fst (load_gdt 0x1000 (replicate 7 (flat_segment 0 0)) demo_cpu)"

theorem descriptors_roundtrip_witness:
  "system_base (fst (load_tss 0xFFFF800012345678 demo_gdt demo_cpu) ! 5) (fst (load_tss 0xFFFF800012345678 demo_gdt demo_cpu) ! 6) =
   0xFFFF800012345678"
  using descriptors_roundtrip [of demo_gdt 0 0 demo_idt "0xFFFF800012345678" demo_cpu] by (simp add: demo_gdt_def load_gdt_def)

text \<open>\<^verbatim>\<open>allocate_vector\<close> returns: the lowest interrupt vector from 32 on that is not in use, which is then the only newly
  used one, or a panic exactly when all of them are taken; registering a global interrupt installs the handler
  there.\<close>

theorem allocate_vector_lowest:
  "(case allocate_vector s of
      Panics msg \<Rightarrow> \<forall>j\<ge>32. vector_used s j
    | Returns (v, s') \<Rightarrow> 32 \<le> v \<and> \<not> vector_used s v \<and> (\<forall>j. 32 \<le> j \<and> j < v \<longrightarrow> vector_used s j) \<and>
        (\<forall>j. vector_used s' j \<longleftrightarrow> vector_used s j \<or> j = v) \<and>
        (\<forall>q. ir_idt q = s \<longrightarrow> (\<exists>q'. register_gsi gsi low lev handler q = Returns q' \<and>
           idt_handlers (ir_idt q') = (idt_handlers s)(v := handler))))"
proof (cases "allocate_vector s")
  case (Returns r)
  obtain v s' where r: "r = (v, s')" by (cases r)
  have a: "32 \<le> v \<and> \<not> vector_used s v \<and> (\<forall>j. 32 \<le> j \<and> j < v \<longrightarrow> vector_used s j) \<and> s' = set_vector_used s v True"
    using allocate_vector_loop_spec [of 32 s] Returns r by (simp add: allocate_vector_def)
  moreover have "idt_handlers (set_vector_used s v True) = idt_handlers s" by (simp add: set_vector_used_def)
  ultimately show ?thesis using Returns r
    by (auto simp: vectors.get_set register_gsi_def load_idt_handler_def)
next
  case (Panics msg)
  then show ?thesis using allocate_vector_loop_spec [of 32 s] by (simp add: allocate_vector_def)
qed

theorem allocate_vector_lowest_witness: "\<exists>v s'. allocate_vector demo_idt = Returns (v, s') \<and> vector_used s' v"
proof -
  have "allocate_vector demo_idt = Returns (32, set_vector_used demo_idt 32 True)"
    by (simp add: allocate_vector_def allocate_vector_loop.simps demo_idt_def bitmap_get_def set_vector_used_def)
  then show ?thesis using allocate_vector_lowest [where s = demo_idt] by auto
qed

end
