(* ===== verification/Timers.thy ===== *)
theory Timers
  imports Interrupts
begin

text \<open>
  The timers of \<^verbatim>\<open>src/sched/timer\<close>: the high precision event timer, the programmable interval timer and the local APIC
  timer that drives the scheduler. Registers that a device changes by itself (the main counter, the current count) are read from
  a list of the values they have in turn; a wait that the list does not satisfy is \<open>None\<close>. What the device does with its settings is
  stated beside them.
\<close>

section \<open>Generic addresses and the high precision event timer\<close>

record GenericAddr =
  ga_space :: u8
  ga_bit_width :: u8
  ga_bit_offset :: u8
  ga_access_size :: u8
  ga_addr :: u64

definition SYSTEM_MEM :: u8 where "SYSTEM_MEM = 0"
definition SYSTEM_IO :: u8 where "SYSTEM_IO = 1"

text \<open>The instances at \<^verbatim>\<open>u64\<close>: ports have no 64-bit access.\<close>

definition generic_write :: "uptr \<Rightarrow> GenericAddr \<Rightarrow> u64 \<Rightarrow> u64 \<Rightarrow> memory \<Rightarrow> memory outcome" where
  "generic_write hhdm this offset val m =
     (if ga_space this = SYSTEM_MEM then Returns (write64 m (ga_addr this + offset + hhdm) val)
      else if ga_space this = SYSTEM_IO then Panics ''cpu::out must be used with u8, u16, or u32''
      else Panics ''Unsupported GenericAddr address space'')"

definition generic_read :: "uptr \<Rightarrow> GenericAddr \<Rightarrow> u64 \<Rightarrow> memory \<Rightarrow> u64 outcome" where
  "generic_read hhdm this offset m =
     (if ga_space this = SYSTEM_MEM then Returns (read64 m (ga_addr this + offset + hhdm))
      else if ga_space this = SYSTEM_IO then Panics ''cpu::in must be used with u8, u16, or u32''
      else Panics ''Unsupported GenericAddr address space'')"

definition GENERAL_INFO :: u64 where "GENERAL_INFO = 0"
definition GENERAL_CONFIG :: u64 where "GENERAL_CONFIG = 0x10"
definition MAIN_COUNTER :: u64 where "MAIN_COUNTER = 0xF0"

record hpet =
  hp_initialized :: bool
  hp_period :: u64
  hp_freq :: u64
  hp_regs :: GenericAddr

text \<open>A period of zero makes the division fault.\<close>

definition hpet_init :: "uptr \<Rightarrow> GenericAddr \<Rightarrow> memory \<Rightarrow> (hpet \<times> memory) outcome" where
  "hpet_init hhdm regs m =
     obind (generic_read hhdm regs GENERAL_INFO m) (\<lambda>info.
       let period = drop_bit 32 info
       in if period = 0 then Panics ''Cannot recover from CPU exception that happened in the kernel''
          else obind (generic_write hhdm regs GENERAL_CONFIG 0 m) (\<lambda>m1.
               obind (generic_write hhdm regs MAIN_COUNTER 0 m1) (\<lambda>m2.
               obind (generic_write hhdm regs GENERAL_CONFIG 1 m2) (\<lambda>m3.
                 Returns (\<lparr>hp_initialized = True, hp_period = period, hp_freq = 1000000000000000 div period, hp_regs = regs\<rparr>, m3)))))"

text \<open>The loop reads the counter until it has reached the target; the rest of the readings is left.\<close>

fun hpet_wait :: "u64 \<Rightarrow> u64 list \<Rightarrow> u64 list option" where
  "hpet_wait goal [] = None"
| "hpet_wait goal (r # rs) = (if r < goal then hpet_wait goal rs else Some rs)"

definition hpet_stall_ns :: "hpet \<Rightarrow> usize \<Rightarrow> u64 list \<Rightarrow> u64 list outcome option" where
  "hpet_stall_ns h ns readings =
     (if \<not> hp_initialized h then Some (Panics ''Assertion failed: initialized'')
      else case readings of
             [] \<Rightarrow> None
           | r # rs \<Rightarrow> map_option Returns (hpet_wait (r + ns * 1000000 div hp_period h) rs))"

definition hpet_stall_us :: "hpet \<Rightarrow> usize \<Rightarrow> u64 list \<Rightarrow> u64 list outcome option" where
  "hpet_stall_us h us = hpet_stall_ns h (us * 1000)"

definition hpet_stall_ms :: "hpet \<Rightarrow> usize \<Rightarrow> u64 list \<Rightarrow> u64 list outcome option" where
  "hpet_stall_ms h ms = hpet_stall_ns h (ms * 1000000)"

section \<open>The programmable interval timer\<close>

record pit =
  sleeping :: bool
  sleep_ticks :: usize

definition pit_irq :: "pit \<Rightarrow> lapic \<Rightarrow> pit \<times> lapic" where
  "pit_irq p l = ((if sleeping p then p\<lparr>sleep_ticks := sleep_ticks p - 1\<rparr> else p), lapic_eoi l)"

definition pit_set_reload :: "u16 \<Rightarrow> port_trace \<Rightarrow> port_trace" where
  "pit_set_reload n t = out8 0x40 (ucast (drop_bit 8 n)) (out8 0x40 (ucast (n AND 0xFF)) (out8 0x43 0x34 t))"

definition pit_set_divide :: "u16 \<Rightarrow> port_trace \<Rightarrow> port_trace" where
  "pit_set_divide n t = out8 0x40 (ucast (drop_bit 8 n)) (out8 0x40 (ucast (n AND 0xFF)) (out8 0x43 0x36 t))"

definition pit_get_current_count :: "u8 \<Rightarrow> u8 \<Rightarrow> port_trace \<Rightarrow> u16 \<times> port_trace" where
  "pit_get_current_count lo hi t = (push_bit 8 (ucast hi) OR ucast lo, out8 0x43 0 t)"

definition pit_prepare_sleep :: "usize \<Rightarrow> pit \<Rightarrow> port_trace \<Rightarrow> pit \<times> port_trace" where
  "pit_prepare_sleep ms p t = (p\<lparr>sleep_ticks := ms * 14565 div 100000\<rparr>, pit_set_divide 8192 t)"

text \<open>The wait, with the interrupts that arrive during it.\<close>

fun pit_wait :: "nat \<Rightarrow> pit \<Rightarrow> lapic \<Rightarrow> (pit \<times> lapic) option" where
  "pit_wait n p l =
     (if sleep_ticks p = 0 then Some (p, l)
      else case n of 0 \<Rightarrow> None | Suc k \<Rightarrow> (case pit_irq p l of (p', l') \<Rightarrow> pit_wait k p' l'))"

definition pit_perform_sleep :: "nat \<Rightarrow> pit \<Rightarrow> lapic \<Rightarrow> (pit \<times> lapic) option" where
  "pit_perform_sleep irqs p l =
     map_option (\<lambda>(p', l'). (p'\<lparr>sleeping := False\<rparr>, l')) (pit_wait irqs (p\<lparr>sleeping := True\<rparr>) l)"

definition pit_init :: "uptr \<Rightarrow> irq_state \<Rightarrow> irq_state outcome" where
  "pit_init irq s = register_irq 0 (Handler irq) s"

section \<open>The local APIC timer\<close>

record apic_timer =
  at_freq :: usize
  at_vector :: u8

definition apic_stop :: "lapic \<Rightarrow> lapic" where
  "apic_stop l = lapic_mask_vector LVT_TIMER (l(TIMER_INITIAL := 0))"

definition apic_oneshot :: "apic_timer \<Rightarrow> usize \<Rightarrow> lapic \<Rightarrow> lapic" where
  "apic_oneshot t us l =
     (let l1 = apic_stop l;
          ticks = ucast (us * (at_freq t div 1000000));
          l2 = lapic_set_vector LVT_TIMER (at_vector t) False False False False l1
      in l2(TIMER_DIVIDE := 0, TIMER_INITIAL := ticks))"

text \<open>\<open>current\<close> is the count left after the 100 ms of calibration, for which either timer serves.\<close>

definition apic_calibrated :: "u32 \<Rightarrow> usize" where
  "apic_calibrated current = ucast ((0xFFFFFFFF - current) * 10 * 16)"

definition apic_timer_init ::
    "hpet \<Rightarrow> u64 list \<Rightarrow> nat \<Rightarrow> u32 \<Rightarrow> pit \<Rightarrow> port_trace \<Rightarrow> idt_state \<Rightarrow> lapic \<Rightarrow>
     (apic_timer \<times> pit \<times> port_trace \<times> idt_state \<times> lapic) outcome option" where
  "apic_timer_init h readings irqs current p tr s l =
     (case allocate_vector s of
        Panics msg \<Rightarrow> Some (Panics msg)
      | Returns (vector, s1) \<Rightarrow>
          let s2 = load_idt_handler vector Scheduler_Isr s1;
              l1 = (lapic_set_vector LVT_TIMER vector False False False True (apic_stop l))(TIMER_DIVIDE := 3);
              final = (\<lambda>(p', t', l'). Returns (\<lparr>at_freq = apic_calibrated current, at_vector = vector\<rparr>, p', t', s2,
                         apic_stop (l'(TIMER_CURRENT := current))))
          in if hp_initialized h then
               (case hpet_stall_ms h 100 readings of
                  None \<Rightarrow> None
                | Some (Panics msg) \<Rightarrow> Some (Panics msg)
                | Some (Returns _) \<Rightarrow> Some (final (p, tr, l1(TIMER_INITIAL := 0xFFFFFFFF))))
             else (case pit_prepare_sleep 100 p tr of (p1, tr1) \<Rightarrow>
               map_option (\<lambda>(p2, l2). final (p2, tr1, l2)) (pit_perform_sleep irqs p1 (l1(TIMER_INITIAL := 0xFFFFFFFF)))))"

text \<open>The divisors that the low values of the divide register stand for, and how many bus cycles the armed timer waits.\<close>

definition divisor :: "u32 \<Rightarrow> nat" where
  "divisor d = (if d = 0 then 2 else if d = 1 then 4 else if d = 2 then 8 else if d = 3 then 16 else 0)"

definition armed_cycles :: "lapic \<Rightarrow> nat" where
  "armed_cycles l = unat (l TIMER_INITIAL) * divisor (l TIMER_DIVIDE)"

section \<open>Waiting\<close>

text \<open>The interval timer's wait ends after exactly as many interrupts as were asked for.\<close>

lemma pit_wait_returns:
  "sleeping p \<Longrightarrow> unat (sleep_ticks p) \<le> n \<Longrightarrow> \<exists>l'. pit_wait n p l = Some (p\<lparr>sleep_ticks := 0\<rparr>, l')"
proof (induction n arbitrary: p l)
  case (Suc n)
  show ?case
  proof (cases "sleep_ticks p = 0")
    case False
    then have "unat (sleep_ticks p - 1) = unat (sleep_ticks p) - 1" by (simp add: unat_minus_one)
    then have "\<exists>l'. pit_wait n (p\<lparr>sleep_ticks := sleep_ticks p - 1\<rparr>) (lapic_eoi l) = Some (p\<lparr>sleep_ticks := 0\<rparr>, l')"
      using Suc.IH [of "p\<lparr>sleep_ticks := sleep_ticks p - 1\<rparr>"] Suc.prems by simp
    then show ?thesis using False Suc.prems(1) by (simp add: pit_irq_def)
  qed simp
qed (simp add: unat_eq_0)

lemma pit_wait_short: "sleeping p \<Longrightarrow> n < unat (sleep_ticks p) \<Longrightarrow> pit_wait n p l = None"
proof (induction n arbitrary: p l)
  case (Suc n)
  then have "sleep_ticks p \<noteq> 0" by auto
  moreover from this have "unat (sleep_ticks p - 1) = unat (sleep_ticks p) - 1" by (simp add: unat_minus_one)
  ultimately show ?case using Suc.IH [of "p\<lparr>sleep_ticks := sleep_ticks p - 1\<rparr>"] Suc.prems by (simp add: pit_irq_def)
qed auto

section \<open>Properties\<close>

text \<open>The scheduler's time slice is twice as long as asked for: \<^verbatim>\<open>freq\<close> is the bus frequency, measured with the divisor 16 and
  scaled back, but \<^verbatim>\<open>oneshot\<close> arms the timer with the divisor 2 without dividing the count, so that \<open>us\<close> microseconds
  take \<open>2 * us\<close> times the bus cycles of a microsecond.\<close>

theorem oneshot_twice_as_long:
  assumes "unat us * (unat (at_freq t) div 1000000) < 2 ^ 32"
  shows "armed_cycles (apic_oneshot t us l) = 2 * (unat us * (unat (at_freq t) div 1000000)) \<and>
         \<not> bit (apic_oneshot t us l LVT_TIMER) 16 \<and> ucast (apic_oneshot t us l LVT_TIMER) = at_vector t"
proof -
  have "unat (us * (at_freq t div 1000000)) = unat us * (unat (at_freq t) div 1000000)"
    using assms by (subst unat_mult_nowrap) (simp_all add: unat_div)
  then have "unat (ucast (us * (at_freq t div 1000000)) :: u32) = unat us * (unat (at_freq t) div 1000000)"
    using assms by (simp add: unsigned_ucast_eq take_bit_nat_eq_self)
  moreover have "\<not> bit (at_vector t) 16" using bit_imp_le_length [of "at_vector t" 16] by auto
  moreover have "ucast (ucast (at_vector t) :: u32) = at_vector t" by (rule bit_word_eqI) (auto simp: bit_simps)
  ultimately show ?thesis
    by (auto simp: armed_cycles_def apic_oneshot_def divisor_def lapic_set_vector_def bool_bit_def Let_def LVT_TIMER_def
        TIMER_DIVIDE_def TIMER_INITIAL_def bit_simps)
qed

theorem oneshot_twice_as_long_witness:
  "armed_cycles (apic_oneshot \<lparr>at_freq = 1000000000, at_vector = 32\<rparr> 3333 (\<lambda>_. 0)) = 6666000"
  using oneshot_twice_as_long [where t = "\<lparr>at_freq = 1000000000, at_vector = 32\<rparr>" and us = 3333 and l = "\<lambda>_. 0"] by simp

end
