(* ===== verification/Sched.thy ===== *)
theory Sched
  imports User_Space File_Syscalls Timers
begin

text \<open>
  Tasks and the scheduler of \<^verbatim>\<open>src/sched/sched.cpp\<close>. Tasks live in a store by their address; the run queue threads through their
  \<^verbatim>\<open>sched_list\<close> members in the store of list nodes. A new object is the address and the raw contents
  that the heap hands out. \<open>scheduler_isr\<close> is one tick: it takes the interrupted registers and returns those to load; whoever
  runs next is named by the GS base, as in the code. The locale \<open>preemptive\<close> is the contract of
  a tick on a queue, from which fairness follows.
\<close>

section \<open>Tasks\<close>

definition stack_size :: usize where "stack_size = 64 * 1024"

record Task = Task_files +
  running_on :: usize
  kernel_stack :: uptr
  user_stack :: uptr
  tid :: u16
  pagemap :: Pagemap
  gpr_state :: InterruptState
  gs_base :: u64
  fs_base :: u64
  stack :: uptr
  blocked :: bool
  mmap_anon_base :: uptr

text \<open>The member's offset and \<^verbatim>\<open>LIST_ENTRY(node, Task, sched_list)\<close>.\<close>

definition sched_list :: "uptr \<Rightarrow> uptr" where "sched_list task = task + 32"
definition list_entry :: "uptr \<Rightarrow> uptr" where "list_entry node = node - 32"

record sched =
  sc_vmm :: vmm
  sc_mem :: memory
  sc_task :: "uptr \<Rightarrow> Task"
  sched_list_head :: uptr
  last_tid :: u16
  sc_kernel_pagemap :: Pagemap
  sc_cpu :: cpu_regs
  sc_lapic :: lapic
  sc_timer :: apic_timer

definition new_Task :: "Task \<Rightarrow> sched \<Rightarrow> Task \<times> sched" where
  "new_Task raw s =
     (raw\<lparr>file_descriptors := [], tid := last_tid s, gpr_state := zero_state, blocked := False, num_file_descriptors := 0,
          first_free_fdnum := 0\<rparr>,
      s\<lparr>last_tid := last_tid s + 1\<rparr>)"

definition add_task :: "uptr \<Rightarrow> Task \<Rightarrow> bool \<Rightarrow> sched \<Rightarrow> sched" where
  "add_task addr task enqueue s =
     (let s1 = s\<lparr>sc_task := (sc_task s)(addr := task)\<rparr>
      in if enqueue
         then s1\<lparr>sc_vmm := (sc_vmm s1)\<lparr>v_list := list_add_before (v_list (sc_vmm s1)) (sched_list_head s1) (sched_list addr)\<rparr>\<rparr>
         else s1)"

definition new_kernel_task :: "uptr \<Rightarrow> Task \<Rightarrow> uptr \<Rightarrow> bool \<Rightarrow> sched \<Rightarrow> (uptr \<times> sched) outcome" where
  "new_kernel_task addr raw ip enqueue s =
     (case new_Task raw s of (task, s1) \<Rightarrow>
        obind (alloc_pages (stack_size div 0x1000) (v_pmm (sc_vmm s1))) (\<lambda>(stack_phy, p).
          let s2 = s1\<lparr>sc_vmm := (sc_vmm s1)\<lparr>v_pmm := p\<rparr>\<rparr>;
              sp = stack_phy + stack_size + v_hhdm (sc_vmm s2);
              task1 = task\<lparr>stack := sp, running_on := 0, pagemap := sc_kernel_pagemap s2,
                gpr_state := (gpr_state task)\<lparr>r_cs := KERNEL_CODE_64, r_ds := KERNEL_DATA_64, r_es := KERNEL_DATA_64,
                  r_ss := KERNEL_DATA_64, r_rflags := 0x202, r_rip := ip, r_rsp := sp\<rparr>\<rparr>
          in Returns (addr, add_task addr task1 enqueue s2)))"

definition user_registers :: "uptr \<Rightarrow> uptr \<Rightarrow> InterruptState \<Rightarrow> InterruptState" where
  "user_registers ip sp g =
     g\<lparr>r_cs := USER_CODE_64 OR 3, r_ds := USER_DATA_64 OR 3, r_es := USER_DATA_64 OR 3, r_ss := USER_DATA_64 OR 3,
       r_rflags := 0x202, r_rip := ip, r_rsp := sp\<rparr>"

definition new_user_task :: "uptr \<Rightarrow> Task \<Rightarrow> uptr \<Rightarrow> Node \<Rightarrow> node_ref \<Rightarrow> bool \<Rightarrow> sched \<Rightarrow> (uptr \<times> sched) outcome" where
  "new_user_task addr raw head elf_file root_dir enqueue s =
     (case new_Task raw s of (task, s1) \<Rightarrow>
        obind (new_pagemap (sc_kernel_pagemap s1) head (sc_vmm s1)) (\<lambda>(pm, v1).
        obind (alloc_pages (stack_size div 0x1000) (v_pmm v1)) (\<lambda>(kernel_stack_phy, p).
        obind (elf_load pm elf_file (v1\<lparr>v_pmm := p\<rparr>) (sc_mem s1)) (\<lambda>(ip, l).
        obind (map_stack 16 pm (first_free_virt l) (ld_vmm l) (ld_mem l)) (\<lambda>(base, v2, m).
          let task1 = task\<lparr>pagemap := pm, kernel_stack := kernel_stack_phy + stack_size + v_hhdm v1, stack := first_free_virt l,
                mmap_anon_base := base, running_on := 0, gpr_state := user_registers ip (first_free_virt l) (gpr_state task),
                gs_base := 0, fs_base := 0,
                file_descriptors := replicate 3 (Some \<lparr>fd_node = 0, fd_cursor = 0\<rparr>),
                num_file_descriptors := 3, first_free_fdnum := 3, cwd := root_dir\<rparr>
          in Returns (addr, add_task addr task1 enqueue (s1\<lparr>sc_vmm := v2, sc_mem := m\<rparr>)))))))"

section \<open>The scheduler\<close>

text \<open>\<open>addr1\<close> and \<open>addr2\<close> are the new tasks, \<open>ip1\<close> and \<open>ip2\<close> the two test tasks.\<close>

definition sched_init :: "uptr \<Rightarrow> Task \<Rightarrow> uptr \<Rightarrow> uptr \<Rightarrow> Task \<Rightarrow> uptr \<Rightarrow> sched \<Rightarrow> sched outcome" where
  "sched_init addr1 raw1 ip1 addr2 raw2 ip2 s =
     (let s1 = s\<lparr>sc_vmm := (sc_vmm s)\<lparr>v_list := list_init (v_list (sc_vmm s)) (sched_list_head s)\<rparr>\<rparr>
      in obind (new_kernel_task addr1 raw1 ip1 True s1) (\<lambda>(_, s2).
         obind (new_kernel_task addr2 raw2 ip2 True s2) (\<lambda>(_, s3). Returns s3)))"

definition sched_start :: "sched \<Rightarrow> sched" where
  "sched_start s = s\<lparr>sc_lapic := apic_oneshot (sc_timer s) 1000 (sc_lapic s)\<rparr>"

text \<open>The processor then waits, with interrupts on, for a tick that does not come back.\<close>

definition dequeue_and_die :: "sched \<Rightarrow> sched" where
  "dequeue_and_die s =
     s\<lparr>sc_vmm := (sc_vmm s)\<lparr>v_list := list_remove (v_list (sc_vmm s)) (sched_list (read_gs_base (sc_cpu s)))\<rparr>,
       sc_cpu := (sc_cpu s)\<lparr>interrupt_flag := True\<rparr>\<rparr>"

definition syscall_exit :: "u32 \<Rightarrow> sched \<Rightarrow> sched" where
  "syscall_exit status s = dequeue_and_die s"

definition save_task :: "InterruptState \<Rightarrow> sched \<Rightarrow> sched" where
  "save_task regs s =
     (let c = read_gs_base (sc_cpu s)
      in if c \<noteq> 0 then s\<lparr>sc_task := (sc_task s)(c := (sc_task s c)\<lparr>gpr_state := regs, gs_base := read_kernel_gs_base (sc_cpu s),
                              fs_base := read_fs_base (sc_cpu s)\<rparr>)\<rparr>
         else s)"

definition pick_next :: "sched \<Rightarrow> uptr outcome" where
  "pick_next s =
     (let h = v_list (sc_vmm s); c = read_gs_base (sc_cpu s); head = sched_list_head s
      in if c \<noteq> 0 \<and> lh_next (h (sched_list c)) \<noteq> 0 \<and> lh_next (h (sched_list c)) \<noteq> head
         then Returns (list_entry (lh_next (h (sched_list c))))
         else if \<not> list_empty h head then Returns (list_entry (lh_next (h head)))
         else Panics ''No tasks in scheduler list'')"

definition load_task :: "uptr \<Rightarrow> sched \<Rightarrow> InterruptState \<times> sched" where
  "load_task t s =
     (let task = sc_task s t;
          c1 = write_kernel_gs_base (if r_cs (gpr_state task) AND 3 = 3 then gs_base task else t) (sc_cpu s);
          c2 = write_fs_base (fs_base task) (write_gs_base t c1)
      in (gpr_state task, s\<lparr>sc_cpu := c2, sc_vmm := activate (pagemap task) (sc_vmm s),
            sc_lapic := apic_oneshot (sc_timer s) (1000000 div 300) (lapic_eoi (sc_lapic s))\<rparr>))"

definition scheduler_isr :: "InterruptState \<Rightarrow> sched \<Rightarrow> (InterruptState \<times> sched) outcome" where
  "scheduler_isr regs s =
     (let s1 = save_task regs (s\<lparr>sc_lapic := apic_stop (sc_lapic s)\<rparr>)
      in obind (pick_next s1) (\<lambda>t. Returns (load_task t s1)))"

text \<open>A sequence of ticks with the registers each one interrupts; for each tick, who runs next and with what registers.\<close>

fun ticks :: "('f \<Rightarrow> 's \<Rightarrow> ('f \<times> 's) outcome) \<Rightarrow> ('s \<Rightarrow> 'a) \<Rightarrow> 'f list \<Rightarrow> 's \<Rightarrow> (('a \<times> 'f) list \<times> 's) outcome" where
  "ticks tick who [] s = Returns ([], s)"
| "ticks tick who (f # fs) s =
     obind (tick f s) (\<lambda>(g, s1). obind (ticks tick who fs s1) (\<lambda>(outs, s2). Returns ((who s1, g) # outs, s2)))"

definition running :: "sched \<Rightarrow> uptr" where
  "running s = read_gs_base (sc_cpu s)"

definition run_ticks :: "InterruptState list \<Rightarrow> sched \<Rightarrow> ((uptr \<times> InterruptState) list \<times> sched) outcome" where
  "run_ticks = ticks scheduler_isr running"

section \<open>The contract of a tick\<close>

locale preemptive =
  fixes tick :: "'f \<Rightarrow> 's \<Rightarrow> ('f \<times> 's) outcome"
    and ok :: "'s \<Rightarrow> bool"
    and place :: "'s \<Rightarrow> nat"
    and saved :: "'s \<Rightarrow> nat \<Rightarrow> 'f"
    and n :: nat
    and who :: "'s \<Rightarrow> 'a"
    and member :: "nat \<Rightarrow> 'a"
  assumes place_less: "ok s \<Longrightarrow> place s < n"
    and who_member: "ok s \<Longrightarrow> who s = member (place s)"
    and tick_next: "ok s \<Longrightarrow> \<exists>s'. tick f s = Returns (saved s' (place s'), s') \<and> ok s' \<and> place s' = (place s + 1) mod n \<and>
      (\<forall>j<n. saved s' j = (if j = place s then f else saved s j))"
begin

text \<open>What the \<open>k\<close>-th of a sequence of ticks yields: members in turn, each with the registers it was last interrupted with.\<close>

definition turn :: "'s \<Rightarrow> 'f list \<Rightarrow> nat \<Rightarrow> 'a \<times> 'f" where
  "turn s fs k = (member ((place s + k + 1) mod n), if k + 1 < n then saved s ((place s + k + 1) mod n) else fs ! (k + 1 - n))"

lemma turn_Suc:
  assumes "ok s" and s': "place s' = (place s + 1) mod n" "\<forall>j<n. saved s' j = (if j = place s then f else saved s j)"
  shows "turn s (f # fs) (Suc k) = turn s' fs k"
proof -
  have p: "place s < n" using assms(1) by (rule place_less)
  have idx: "(place s' + k + 1) mod n = (place s + Suc k + 1) mod n" using mod_add_left_eq [of "place s + 1" n "k + 1"] by (simp add: s'(1))
  have lt: "(place s + Suc k + 1) mod n < n" using p by simp
  consider "Suc k + 1 < n" | "Suc k + 1 = n" | "n < Suc k + 1" by linarith
  then show ?thesis
  proof cases
    case 1
    then have "(place s + Suc k + 1) mod n \<noteq> place s" using p
      by (cases "place s + Suc k + 1 < n") (auto simp: mod_if)
    then show ?thesis using 1 s'(2) lt idx by (simp add: turn_def)
  next
    case 2
    then have "place s + Suc k + 1 = place s + n" by simp
    then have "(place s + Suc k + 1) mod n = place s" using p by (simp only: mod_add_self2 mod_less)
    then show ?thesis using 2 s'(2) lt idx p by (simp add: turn_def)
  next
    case 3
    then have "(f # fs) ! (Suc k + 1 - n) = fs ! (k + 1 - n)" by (simp add: Suc_diff_le)
    then show ?thesis using 3 idx by (simp add: turn_def)
  qed
qed

lemma ticks_turns:
  "ok s \<Longrightarrow> \<exists>s'. ticks tick who fs s = Returns (map (turn s fs) [0..<length fs], s') \<and> ok s'"
proof (induction fs arbitrary: s)
  case (Cons f fs)
  obtain s1 where s1: "tick f s = Returns (saved s1 (place s1), s1)" "ok s1" "place s1 = (place s + 1) mod n"
    "\<forall>j<n. saved s1 j = (if j = place s then f else saved s j)" using tick_next [OF Cons.prems] by blast
  obtain s' where s': "ticks tick who fs s1 = Returns (map (turn s1 fs) [0..<length fs], s')" "ok s'"
    using Cons.IH [OF s1(2)] by blast
  have "turn s (f # fs) 0 = (who s1, saved s1 (place s1))"
  proof (cases "n = 1")
    case True
    then show ?thesis unfolding turn_def using s1 who_member [OF s1(2)] place_less [OF Cons.prems] by simp
  next
    case False
    then have "1 < n" using place_less [OF Cons.prems] by simp
    moreover have "(place s + 1) mod n \<noteq> place s" using False place_less [OF Cons.prems]
      by (cases "place s + 1 < n") (auto simp: mod_if)
    ultimately show ?thesis using s1 who_member [OF s1(2)] place_less [OF s1(2)] by (simp add: turn_def)
  qed
  moreover have "map (turn s (f # fs)) [1..<Suc (length fs)] = map (turn s1 fs) [0..<length fs]"
    using turn_Suc [OF Cons.prems s1(3,4)] by (simp add: map_Suc_upt [symmetric] del: upt_Suc)
  ultimately have "map (turn s (f # fs)) [0..<length (f # fs)] = (who s1, saved s1 (place s1)) # map (turn s1 fs) [0..<length fs]"
    by (simp add: upt_conv_Cons del: upt_Suc)
  then show ?case using s1(1) s' by simp
qed simp

end

section \<open>The run queue keeps the contract\<close>

definition index_of :: "'a list \<Rightarrow> 'a \<Rightarrow> nat" where
  "index_of xs x = length (takeWhile (\<lambda>y. y \<noteq> x) xs)"

lemma index_of_nth: "x \<in> set xs \<Longrightarrow> index_of xs x < length xs \<and> xs ! index_of xs x = x"
  by (induction xs) (auto simp: index_of_def)

lemma nth_index_of: "distinct xs \<Longrightarrow> i < length xs \<Longrightarrow> index_of xs (xs ! i) = i"
  using index_of_nth [of "xs ! i" xs] by (auto simp: nth_eq_iff_index_eq)

text \<open>The tasks of the queue in order; the running one is among them.\<close>

definition queue :: "uptr list \<Rightarrow> sched \<Rightarrow> bool" where
  "queue ts s \<longleftrightarrow> ring (v_list (sc_vmm s)) (sched_list_head s) (map sched_list ts) \<and> 0 \<notin> set ts"

definition queue_ok :: "uptr list \<Rightarrow> sched \<Rightarrow> bool" where
  "queue_ok ts s \<longleftrightarrow> queue ts s \<and> running s \<in> set ts"

lemma queue_distinct: "queue ts s \<Longrightarrow> distinct ts"
  by (auto simp: queue_def ring_def distinct_map)

lemma list_entry_sched_list [simp]: "list_entry (sched_list t) = t"
  by (simp add: list_entry_def sched_list_def)

lemma pick_first:
  assumes "queue ts s" and "running s = 0 \<or> lh_next (v_list (sc_vmm s) (sched_list (running s))) \<in> {0, sched_list_head s}"
  shows "pick_next s = (case ts of [] \<Rightarrow> Panics ''No tasks in scheduler list'' | t # _ \<Rightarrow> Returns t)"
  using assms ring_next_head [of "v_list (sc_vmm s)" "sched_list_head s" "map sched_list ts"]
    ring_empty [of "v_list (sc_vmm s)" "sched_list_head s" "map sched_list ts"]
  by (cases ts) (auto simp: pick_next_def queue_def running_def Let_def)

lemma pick_member:
  assumes "queue_ok ts s"
  shows "pick_next s = Returns (ts ! ((index_of ts (running s) + 1) mod length ts))"
proof -
  let ?i = "index_of ts (running s)" and ?h = "v_list (sc_vmm s)"
  have i: "?i < length ts" "ts ! ?i = running s" using assms index_of_nth [of "running s" ts] by (auto simp: queue_ok_def)
  have q: "queue ts s" "running s \<noteq> 0" using assms by (auto simp: queue_ok_def queue_def)
  have r: "ring ?h (sched_list_head s) (map sched_list ts)" using q by (simp add: queue_def)
  have nx: "lh_next (?h (sched_list (running s))) = (if Suc ?i < length ts then sched_list (ts ! Suc ?i) else sched_list_head s)"
    using ring_next_nth [OF r, of ?i] i by simp
  show ?thesis
  proof (cases "Suc ?i < length ts")
    case True
    then have "sched_list (ts ! Suc ?i) \<in> set (map sched_list ts)" by simp
    then have "sched_list (ts ! Suc ?i) \<noteq> 0" "sched_list (ts ! Suc ?i) \<noteq> sched_list_head s" using r by (auto simp: ring_def)
    then show ?thesis using True nx q(2) by (simp add: pick_next_def running_def Let_def)
  next
    case False
    then have "?i + 1 = length ts" using i(1) by simp
    then have e: "(?i + 1) mod length ts = 0" by simp
    have "pick_next s = Returns (hd ts)" using pick_first [OF q(1)] False nx i(1) by (cases ts) auto
    moreover have "hd ts = ts ! 0" using i(1) by (intro hd_conv_nth) auto
    ultimately show ?thesis using e by simp
  qed
qed


lemma save_task_simps [simp]:
  "sc_vmm (save_task regs s) = sc_vmm s" "sc_cpu (save_task regs s) = sc_cpu s" "sched_list_head (save_task regs s) = sched_list_head s"
  "running (save_task regs s) = running s" "queue ts (save_task regs s) = queue ts s"
  "sc_timer (save_task regs s) = sc_timer s" "sc_lapic (save_task regs s) = sc_lapic s"
  by (simp_all add: save_task_def running_def queue_def Let_def)

lemma running_lapic [simp]: "running (s\<lparr>sc_lapic := l\<rparr>) = running s" "queue ts (s\<lparr>sc_lapic := l\<rparr>) = queue ts s"
  by (simp_all add: running_def queue_def)

lemma load_task_simps [simp]:
  "running (snd (load_task t s)) = t" "queue ts (snd (load_task t s)) = queue ts s" "sc_task (snd (load_task t s)) = sc_task s"
  "fst (load_task t s) = gpr_state (sc_task s t)"
  by (simp_all add: load_task_def running_def queue_def activate_def Let_def)

text \<open>One tick, given who is picked.\<close>

lemma scheduler_isr_picks:
  assumes "pick_next (save_task regs (s\<lparr>sc_lapic := apic_stop (sc_lapic s)\<rparr>)) = Returns t"
  obtains s' where "scheduler_isr regs s = Returns (gpr_state (sc_task s' t), s')" and "running s' = t"
    and "\<And>ts. queue ts s' = queue ts s" and "sc_task s' = sc_task (save_task regs s)"
    and "v_cr3 (sc_vmm s') = pml4 (pagemap (sc_task s' t)) - v_hhdm (sc_vmm s)" and "read_fs_base (sc_cpu s') = fs_base (sc_task s' t)"
    and "r_cs (gpr_state (sc_task s' t)) AND 3 = 3 \<Longrightarrow> read_kernel_gs_base (sc_cpu s') = gs_base (sc_task s' t)"
    and "sc_lapic s' = apic_oneshot (sc_timer s) (1000000 div 300) (lapic_eoi (apic_stop (sc_lapic s)))"
proof
  let ?s = "save_task regs (s\<lparr>sc_lapic := apic_stop (sc_lapic s)\<rparr>)" and ?s' = "snd (load_task t (save_task regs (s\<lparr>sc_lapic := apic_stop (sc_lapic s)\<rparr>)))"
  have st: "sc_task ?s = sc_task (save_task regs s)" by (simp add: save_task_def Let_def)
  then show "scheduler_isr regs s = Returns (gpr_state (sc_task ?s' t), ?s')"
    using assms by (simp add: scheduler_isr_def Let_def) (metis load_task_simps(4) prod.collapse)
  show "sc_task ?s' = sc_task (save_task regs s)" using st by simp
  show "v_cr3 (sc_vmm ?s') = pml4 (pagemap (sc_task ?s' t)) - v_hhdm (sc_vmm s)"
    "read_fs_base (sc_cpu ?s') = fs_base (sc_task ?s' t)"
    "r_cs (gpr_state (sc_task ?s' t)) AND 3 = 3 \<Longrightarrow> read_kernel_gs_base (sc_cpu ?s') = gs_base (sc_task ?s' t)"
    by (simp_all add: load_task_def activate_def Let_def)
  show "sc_lapic ?s' = apic_oneshot (sc_timer s) (1000000 div 300) (lapic_eoi (apic_stop (sc_lapic s)))"
    by (simp add: load_task_def Let_def)
qed simp_all


lemma save_task_saved: "running s \<noteq> 0 \<Longrightarrow> gpr_state (sc_task (save_task regs s) t) = (if t = running s then regs else gpr_state (sc_task s t))"
  by (simp add: save_task_def running_def Let_def)

interpretation round_robin: preemptive scheduler_isr "queue_ok ts" "\<lambda>s. index_of ts (running s)"
  "\<lambda>s j. gpr_state (sc_task s (ts ! j))" "length ts" running "\<lambda>j. ts ! j" for ts
proof
  fix s assume ok: "queue_ok ts s"
  then have q: "queue ts s" "running s \<in> set ts" "running s \<noteq> 0" by (auto simp: queue_ok_def queue_def)
  have i: "index_of ts (running s) < length ts" "ts ! index_of ts (running s) = running s" using index_of_nth [OF q(2)] by auto
  show "index_of ts (running s) < length ts" "running s = ts ! index_of ts (running s)" using i by simp_all
  fix regs
  let ?t = "ts ! ((index_of ts (running s) + 1) mod length ts)"
  have t: "(index_of ts (running s) + 1) mod length ts < length ts" using i(1) by (intro mod_less_divisor) auto
  have "queue_ok ts (save_task regs (s\<lparr>sc_lapic := apic_stop (sc_lapic s)\<rparr>))" using ok by (simp add: queue_ok_def)
  from pick_member [OF this] have pk: "pick_next (save_task regs (s\<lparr>sc_lapic := apic_stop (sc_lapic s)\<rparr>)) = Returns ?t" by simp
  obtain s' where s': "scheduler_isr regs s = Returns (gpr_state (sc_task s' ?t), s')" "running s' = ?t"
    "queue ts s' = queue ts s" "sc_task s' = sc_task (save_task regs s)"
    by (rule scheduler_isr_picks [OF pk]) (rule that; assumption)
  have "queue_ok ts s'" using s' q(1) t by (simp add: queue_ok_def)
  moreover have "index_of ts (running s') = (index_of ts (running s) + 1) mod length ts"
    using nth_index_of [OF queue_distinct [OF q(1)] t] s'(2) by simp
  moreover have "\<forall>j<length ts. gpr_state (sc_task s' (ts ! j)) =
      (if j = index_of ts (running s) then regs else gpr_state (sc_task s (ts ! j)))"
    using s'(4) save_task_saved [OF q(3)] i queue_distinct [OF q(1)] by (auto simp: nth_eq_iff_index_eq) (metis nth_index_of)
  ultimately show "\<exists>s'. scheduler_isr regs s = Returns (gpr_state (sc_task s' (ts ! index_of ts (running s'))), s') \<and> queue_ok ts s' \<and>
      index_of ts (running s') = (index_of ts (running s) + 1) mod length ts \<and>
      (\<forall>j<length ts. gpr_state (sc_task s' (ts ! j)) = (if j = index_of ts (running s) then regs else gpr_state (sc_task s (ts ! j))))"
    using s'(1,2) by auto
qed


text \<open>After its exit a task is off the queue, and the next tick starts over from the front.\<close>

lemma dequeue_queue:
  assumes "queue_ok ts s"
  shows "queue (remove1 (running s) ts) (dequeue_and_die s)" and "running (dequeue_and_die s) = running s"
    and "lh_next (v_list (sc_vmm (dequeue_and_die s)) (sched_list (running s))) = 0"
proof -
  let ?c = "running s"
  have q: "ring (v_list (sc_vmm s)) (sched_list_head s) (map sched_list ts)" "?c \<in> set ts" "0 \<notin> set ts"
    using assms by (auto simp: queue_ok_def queue_def)
  have inj: "inj sched_list" by (simp add: inj_def sched_list_def)
  have "ring (list_remove (v_list (sc_vmm s)) (sched_list ?c)) (sched_list_head s) (remove1 (sched_list ?c) (map sched_list ts))"
    using q by (intro klist.rep_unlink) auto
  moreover have "remove1 (sched_list ?c) (map sched_list ts) = map sched_list (remove1 ?c ts)"
    using inj by (induction ts) (auto simp: inj_eq)
  moreover have "0 \<notin> set (remove1 ?c ts)" using q(3) notin_set_remove1 by fast
  ultimately show "queue (remove1 ?c ts) (dequeue_and_die s)" by (simp add: queue_def dequeue_and_die_def running_def)
  show "running (dequeue_and_die s) = ?c"
    by (simp add: running_def dequeue_and_die_def read_gs_base_def msr_read_def)
  show "lh_next (v_list (sc_vmm (dequeue_and_die s)) (sched_list ?c)) = 0" by (simp add: dequeue_and_die_def running_def)
qed

section \<open>Properties\<close>


text \<open>One tick: the interrupted registers and segment bases go to the running task and no other task changes; the queue
  successor takes over, or the first task when the running one is the last, has exited or is none; its registers,
  address space and segment bases are loaded, and the timer is armed again. It panics exactly when no task is left.\<close>

theorem scheduler_isr_switch:
  assumes q: "queue ts s"
    and c: "running s \<in> set ts \<or> running s = 0 \<or> lh_next (v_list (sc_vmm s) (sched_list (running s))) = 0"
  shows "case scheduler_isr regs s of
      Panics msg \<Rightarrow> ts = [] \<and> msg = ''No tasks in scheduler list''
    | Returns (g, s') \<Rightarrow> queue_ok ts s' \<and>
        running s' = ts ! (if running s \<in> set ts then (index_of ts (running s) + 1) mod length ts else 0) \<and>
        sc_task s' = (if running s = 0 then sc_task s else (sc_task s)(running s := (sc_task s (running s))
          \<lparr>gpr_state := regs, gs_base := read_kernel_gs_base (sc_cpu s), fs_base := read_fs_base (sc_cpu s)\<rparr>)) \<and>
        g = gpr_state (sc_task s' (running s')) \<and> v_cr3 (sc_vmm s') = pml4 (pagemap (sc_task s' (running s'))) - v_hhdm (sc_vmm s) \<and>
        read_fs_base (sc_cpu s') = fs_base (sc_task s' (running s')) \<and>
        (r_cs g AND 3 = 3 \<longrightarrow> read_kernel_gs_base (sc_cpu s') = gs_base (sc_task s' (running s'))) \<and>
        sc_lapic s' = apic_oneshot (sc_timer s) 3333 (lapic_eoi (apic_stop (sc_lapic s)))"
proof -
  let ?s = "save_task regs (s\<lparr>sc_lapic := apic_stop (sc_lapic s)\<rparr>)"
  let ?j = "if running s \<in> set ts then (index_of ts (running s) + 1) mod length ts else 0"
  have q1: "queue ts ?s" "running ?s = running s" "sc_vmm ?s = sc_vmm s" using q by simp_all
  show ?thesis
  proof (cases "ts = []")
    case True
    then have "pick_next ?s = Panics ''No tasks in scheduler list''" using pick_first [OF q1(1)] c q1 by auto
    then show ?thesis using True by (simp add: scheduler_isr_def Let_def)
  next
    case False
    have "pick_next ?s = Returns (ts ! ?j)"
    proof (cases "running s \<in> set ts")
      case True
      then show ?thesis using pick_member [of ts ?s] q1 by (simp add: queue_ok_def)
    next
      case False
      then show ?thesis using pick_first [OF q1(1)] c q1 \<open>ts \<noteq> []\<close> by (auto split: list.splits)
    qed
    then obtain s' where s': "scheduler_isr regs s = Returns (gpr_state (sc_task s' (ts ! ?j)), s')" "running s' = ts ! ?j"
      "queue ts s' = queue ts s" "sc_task s' = sc_task (save_task regs s)"
      "v_cr3 (sc_vmm s') = pml4 (pagemap (sc_task s' (ts ! ?j))) - v_hhdm (sc_vmm s)" "read_fs_base (sc_cpu s') = fs_base (sc_task s' (ts ! ?j))"
      "r_cs (gpr_state (sc_task s' (ts ! ?j))) AND 3 = 3 \<longrightarrow> read_kernel_gs_base (sc_cpu s') = gs_base (sc_task s' (ts ! ?j))"
      "sc_lapic s' = apic_oneshot (sc_timer s) (1000000 div 300) (lapic_eoi (apic_stop (sc_lapic s)))"
      by (rule scheduler_isr_picks) (rule that; blast)
    have "?j < length ts" using False by simp
    then have "queue_ok ts s'" using s'(2,3) q by (simp only: queue_ok_def nth_mem simp_thms)
    moreover have "sc_task (save_task regs s) = (if running s = 0 then sc_task s else (sc_task s)(running s := (sc_task s (running s))
          \<lparr>gpr_state := regs, gs_base := read_kernel_gs_base (sc_cpu s), fs_base := read_fs_base (sc_cpu s)\<rparr>))"
      by (simp add: save_task_def running_def Let_def)
    moreover have "(1000000 div 300 :: usize) = 3333" by simp
    ultimately show ?thesis using s' by (simp only: outcome.case prod.case simp_thms)
  qed
qed

text \<open>C21. A task that exits never runs again: whatever ticks follow, each switches to another task of the queue, and the
  kernel panics only when the task was the last one.\<close>

theorem exited_task_never_runs:
  assumes ok: "queue_ok ts s"
  shows "case run_ticks rs (syscall_exit status s) of
      Panics msg \<Rightarrow> ts = [running s] \<and> msg = ''No tasks in scheduler list''
    | Returns (outs, s') \<Rightarrow> \<forall>t \<in> set (map fst outs). t \<in> set ts \<and> t \<noteq> running s"
proof (cases rs)
  case (Cons r rs')
  let ?d = "dequeue_and_die s" and ?ts = "remove1 (running s) ts"
  have c: "running s \<in> set ts" "distinct ts" using ok queue_distinct by (auto simp: queue_ok_def)
  let ?s = "save_task r (?d\<lparr>sc_lapic := apic_stop (sc_lapic ?d)\<rparr>)"
  have pick: "pick_next ?s = (case ?ts of [] \<Rightarrow> Panics ''No tasks in scheduler list'' | t # _ \<Rightarrow> Returns t)"
    using dequeue_queue [OF ok] by (intro pick_first) simp_all
  show ?thesis
  proof (cases ?ts)
    case Nil
    then have "ts = [running s]" using c(1) by (cases ts) (auto split: if_splits)
    then show ?thesis using Cons Nil pick by (simp add: run_ticks_def syscall_exit_def scheduler_isr_def Let_def)
  next
    case ts: (Cons t us)
    then have "pick_next ?s = Returns t" using pick by simp
    then obtain s1 where s1: "scheduler_isr r ?d = Returns (gpr_state (sc_task s1 t), s1)" "running s1 = t" "queue ?ts s1 = queue ?ts ?d"
      by (rule scheduler_isr_picks) (rule that; assumption)
    have "queue_ok ?ts s1" using s1 ts dequeue_queue(1) [OF ok] by (simp add: queue_ok_def)
    then obtain s2 where s2: "ticks scheduler_isr running rs' s1 = Returns (map (round_robin.turn ?ts s1 rs') [0..<length rs'], s2)"
      using round_robin.ticks_turns by blast
    have "?ts \<noteq> []" using ts by simp
    then have mem: "fst (round_robin.turn ?ts s1 rs' k) \<in> set ?ts" for k by (simp add: round_robin.turn_def)
    let ?outs = "(t, gpr_state (sc_task s1 t)) # map (round_robin.turn ?ts s1 rs') [0..<length rs']"
    have run: "run_ticks rs (syscall_exit status s) = Returns (?outs, s2)"
      using Cons s1(1,2) s2 by (simp add: run_ticks_def syscall_exit_def)
    have "set (map fst ?outs) \<subseteq> set ?ts" using ts mem by (auto simp del: set_remove1_eq)
    also have "\<dots> = set ts - {running s}" using c(2) by simp
    finally have "\<forall>x \<in> set (map fst ?outs). x \<in> set ts \<and> x \<noteq> running s" by blast
    then show ?thesis unfolding run by simp
  qed
qed (simp add: run_ticks_def)

text \<open>A queue of two kernel tasks, the first one running.\<close>

definition demo_task :: "u64 \<Rightarrow> Task" where
  "demo_task ip = \<lparr>file_descriptors = [], num_file_descriptors = 0, first_free_fdnum = 0, cwd = 1, running_on = 0, kernel_stack = 0,
     user_stack = 0, tid = 0, pagemap = demo_pagemap, gpr_state = zero_state\<lparr>r_rip := ip\<rparr>, gs_base = 0, fs_base = 0,
     stack = 0, blocked = False, mmap_anon_base = 0\<rparr>"

definition demo_sched :: sched where
  "demo_sched = \<lparr>sc_vmm = demo_vmm\<lparr>v_list := list_add_before (list_add_before (list_init (v_list demo_vmm) 8) 8 (sched_list 0x1000)) 8
       (sched_list 0x2000)\<rparr>, sc_mem = (\<lambda>_. 0), sc_task = (\<lambda>a. demo_task a), sched_list_head = 8, last_tid = 0,
     sc_kernel_pagemap = demo_pagemap, sc_cpu = write_gs_base 0x1000 demo_cpu, sc_lapic = (\<lambda>_. 0),
     sc_timer = \<lparr>at_freq = 1000000000, at_vector = 32\<rparr>\<rparr>"

lemma demo_queue: "queue_ok [0x1000, 0x2000] demo_sched"
proof -
  have "ring (list_add_before (list_init (v_list demo_vmm) 8) 8 (sched_list 0x1000)) 8 ([] @ [sched_list 0x1000])"
    by (intro ring_add_before ring_init) (simp_all add: sched_list_def)
  then have "ring (list_add_before (list_add_before (list_init (v_list demo_vmm) 8) 8 (sched_list 0x1000)) 8 (sched_list 0x2000)) 8
      (([] @ [sched_list 0x1000]) @ [sched_list 0x2000])" by (rule ring_add_before) (simp_all add: sched_list_def)
  then show ?thesis by (simp add: queue_ok_def queue_def running_def demo_sched_def)
qed

lemma demo_running: "running demo_sched = 0x1000" "sc_task demo_sched = demo_task"
  by (simp_all add: running_def demo_sched_def)


theorem scheduler_isr_switch_witness:
  "case scheduler_isr zero_state demo_sched of
     Panics _ \<Rightarrow> False | Returns (g, s') \<Rightarrow> running s' = 0x2000 \<and> r_rip g = 0x2000 \<and> gpr_state (sc_task s' 0x1000) = zero_state"
proof -
  have "queue [0x1000, 0x2000] demo_sched" using demo_queue by (simp add: queue_ok_def)
  from scheduler_isr_switch [OF this, of zero_state] show ?thesis
    by (cases "scheduler_isr zero_state demo_sched") (auto simp: demo_running index_of_def demo_task_def split: prod.splits)
qed

theorem exited_task_never_runs_witness:
  "case run_ticks [zero_state, zero_state] (syscall_exit 0 demo_sched) of
     Panics _ \<Rightarrow> False | Returns (outs, s') \<Rightarrow> \<forall>t \<in> set (map fst outs). t = 0x2000"
  using exited_task_never_runs [OF demo_queue, of "[zero_state, zero_state]" 0]
  by (cases "run_ticks [zero_state, zero_state] (syscall_exit 0 demo_sched)") (auto simp: demo_running split: prod.splits)

section \<open>A new user task\<close>

lemma align_up_page: "unat (align_up 0x1000 i) mod 4096 = 0" for i :: usize
proof (cases "i mod 0x1000 = 0")
  case True
  moreover have "unat (i mod 0x1000) = unat i mod 4096" by (simp add: unat_mod)
  ultimately show ?thesis by (simp add: align_up_def)
next
  case False
  then have "align_up 0x1000 i = (i div 0x1000 + 1) * 0x1000" unfolding align_up_def by (rule if_P)
  moreover have "unat (y * 0x1000) mod 4096 = 0" for y :: usize
    using mod_mod_cancel [of 4096 18446744073709551616 "unat y * 4096"] by (simp add: unat_word_ariths)
  ultimately show ?thesis by (simp only:)
qed

lemma elf_load_entry:
  "elf_load pm elf v m = Returns (ip, l) \<Longrightarrow> ip = entry_addr (parse_header (snd (tmpfs_read elf 64 0)))"
  "elf_load pm elf v m = Returns (ip, l) \<Longrightarrow> unat (first_free_virt l) mod 4096 = 0"
  using align_up_page by (auto simp: elf_load_def obind_Returns Let_def split: if_splits)

text \<open>C22. A new user task starts at the entry point of its program in user mode, in an address space of its own, with
  sixteen writable, non-executable user pages for its stack and three descriptors. But its stack pointer is the lowest address
  of that stack, so that the first push goes to the page below, which is not part of it.\<close>

theorem new_user_task_stack:
  assumes "tables_ok (sc_kernel_pagemap s) (sc_vmm s)"
    and r: "new_user_task addr raw head elf root enqueue s = Returns (t, s')" and task: "task = sc_task s' t"
  shows "t = addr \<and> tid task = last_tid s \<and> tables_ok (pagemap task) (sc_vmm s') \<and>
     r_cs (gpr_state task) = 0x23 \<and> r_rip (gpr_state task) = entry_addr (parse_header (snd (tmpfs_read elf 64 0))) \<and>
     (\<forall>k<16. \<exists>b. \<forall>x. same_page x (stack task + of_nat k * 0x1000) \<longrightarrow> walk (sc_vmm s') (pml4 (pagemap task)) x = b * 0x1000 OR stack_flags) \<and>
     mmap_anon_base task = stack task + stack_size \<and> length (file_descriptors task) = 3 \<and>
     r_rsp (gpr_state task) = stack task \<and> (\<forall>k<16. \<not> same_page (r_rsp (gpr_state task) - 8) (stack task + of_nat k * 0x1000))"
proof -
  let ?s = "s\<lparr>last_tid := last_tid s + 1\<rparr>"
  obtain pm v1 where np: "new_pagemap (sc_kernel_pagemap s) head (sc_vmm s) = Returns (pm, v1)"
    using r by (auto simp: new_user_task_def new_Task_def obind_Returns)
  obtain ks p where al: "alloc_pages (stack_size div 0x1000) (v_pmm v1) = Returns (ks, p)"
    using r np by (auto simp: new_user_task_def new_Task_def obind_Returns)
  obtain ip l where el: "elf_load pm elf (v1\<lparr>v_pmm := p\<rparr>) (sc_mem s) = Returns (ip, l)"
    using r np al by (auto simp: new_user_task_def new_Task_def obind_Returns)
  obtain base v2 m where ms: "map_stack 16 pm (first_free_virt l) (ld_vmm l) (ld_mem l) = Returns (base, v2, m)"
    using r np al el by (auto simp: new_user_task_def new_Task_def obind_Returns)
  obtain lv where lv: "pt_inv (sc_vmm s) (pml4 (sc_kernel_pagemap s)) lv" using assms(1) by (auto simp: tables_ok_def)
  then obtain lv1 where lv1: "pt_inv v1 (pml4 pm) lv1" using new_pagemap_inv(1) [OF lv np] by blast
  then have "pmm_wf (v_pmm v1)" "unat (Bitmap.m_size (page_bitmap (v_pmm v1))) \<le> 2 ^ 40" using pt_frames by (auto simp: frames_ok_def)
  with alloc_pages_Returns [OF this(1) al] have "frames_ok p" "\<And>j. page_used (v_pmm v1) j \<Longrightarrow> page_used p j"
    by (auto simp: frames_ok_def)
  then have "tables_ok pm (v1\<lparr>v_pmm := p\<rparr>)" using lv1 by (intro tables_ok_alloc) (auto simp: tables_ok_def)
  note e = elf_load_ok [OF this el] and f = elf_load_entry [OF el]
  note ms' = map_stack_pages [OF e(1) ms, simplified]
  have tk: "t = addr" "task = (raw\<lparr>file_descriptors := replicate 3 (Some \<lparr>fd_node = 0, fd_cursor = 0\<rparr>), tid := last_tid s,
      gpr_state := user_registers ip (first_free_virt l) zero_state, blocked := False, num_file_descriptors := 3, first_free_fdnum := 3,
      pagemap := pm, kernel_stack := ks + stack_size + v_hhdm v1, stack := first_free_virt l, mmap_anon_base := base, running_on := 0,
      gs_base := 0, fs_base := 0, cwd := root\<rparr>)" and "v_cell (sc_vmm s') = v_cell v2" "v_hhdm (sc_vmm s') = v_hhdm v2" "v_pmm (sc_vmm s') = v_pmm v2"
    using r np al el ms task by (auto simp: new_user_task_def new_Task_def add_task_def Let_def)
  then have w: "walk (sc_vmm s') root x = walk v2 root x" "tables_ok pm (sc_vmm s') = tables_ok pm v2" for x root
    by (auto simp: walk_def tables_ok_def pt_inv_def)
  have below: "\<forall>k<16. \<not> same_page (first_free_virt l - 8) (first_free_virt l + of_nat k * 0x1000)"
    using below_apart [OF f(2)] by simp
  show ?thesis using ms' tk f(1) w below
    by (simp add: user_registers_def USER_CODE_64_def stack_size_def)
qed

text \<open>An ELF file without segments, and memory for a task.\<close>

definition demo_elf :: Node where
  "demo_elf = data_node \<lparr>td_size = 64, td_storage = buffer ([127, 69, 76, 70, 2, 1, 1, 0] @ replicate 8 0 @ [2, 0, 62, 0, 1, 0, 0, 0] @
     [0, 0, 64, 0, 0, 0, 0, 0] @ replicate 32 0)\<rparr>"

definition large_vmm :: vmm where
  "large_vmm = demo_vmm\<lparr>v_pmm := (v_pmm demo_vmm)\<lparr>page_bitmap := \<lparr>m_buffer = 0, m_size = 128\<rparr>\<rparr>\<rparr>"

lemma demo_elf_header:
  "take 4 (eh_ident (parse_header (snd (tmpfs_read demo_elf 64 0)))) = elf_magic"
  "eh_ident (parse_header (snd (tmpfs_read demo_elf 64 0))) ! 4 = 2" "eh_ident (parse_header (snd (tmpfs_read demo_elf 64 0))) ! 5 = 1"
  "eh_ident (parse_header (snd (tmpfs_read demo_elf 64 0))) ! 7 = 0" "arch (parse_header (snd (tmpfs_read demo_elf 64 0))) = 62"
  "ph_count (parse_header (snd (tmpfs_read demo_elf 64 0))) = 0"
  by code_simp+

lemma demo_elf_loads: "elf_load pm demo_elf v m =
    Returns (entry_addr (parse_header (snd (tmpfs_read demo_elf 64 0))), \<lparr>ld_vmm = v, ld_mem = m, first_free_virt = 0\<rparr>)"
  by (simp add: elf_load_def demo_elf_header align_up_def)

lemma large_frames: "page_used (v_pmm large_vmm) j \<Longrightarrow> j < 8" "frames_ok (v_pmm large_vmm)"
proof -
  have "drop_bit 3 j = 0 \<Longrightarrow> j < 8"
    using drop_bit_eq_div [of 3 j] by (simp add: word_less_nat_alt word_unat_eq_iff unat_div div_eq_0_iff)
  then show "page_used (v_pmm large_vmm) j \<Longrightarrow> j < 8"
    by (auto simp: large_vmm_def demo_vmm_def demo_pmm_def page_used_def bitmap_get_def drop_bit_eq_div split: if_splits)
  show "frames_ok (v_pmm large_vmm)"
    by (simp add: frames_ok_def large_vmm_def demo_vmm_def demo_pmm_def pmm_wf_def page_used_def bitmap_get_def)
qed

lemma large_room: "room 120 (v_pmm large_vmm)"
proof -
  have u: "unat (of_nat i :: usize) = i" if "i < 128" for i using that by (intro unat_of_nat_small) simp
  have "(of_nat :: nat \<Rightarrow> usize) ` {8..<128} \<subseteq> free_frames (v_pmm large_vmm)"
  proof (rule image_subsetI)
    fix i :: nat assume i: "i \<in> {8..<128}"
    then have "\<not> (of_nat i :: usize) < 8" "(of_nat i :: usize) < 128" using u [of i] by (simp_all add: word_less_nat_alt)
    then show "of_nat i \<in> free_frames (v_pmm large_vmm)" using large_frames(1) by (auto simp: free_frames_def large_vmm_def)
  qed
  then have "card ((of_nat :: nat \<Rightarrow> usize) ` {8..<128}) \<le> card (free_frames (v_pmm large_vmm))" by (intro card_mono) simp_all
  moreover have "inj_on (of_nat :: nat \<Rightarrow> usize) {8..<128}" using u by (metis (no_types, lifting) atLeastLessThan_iff inj_onI)
  ultimately show ?thesis using large_frames(2) by (simp add: room_def card_image)
qed

lemma large_tables: "tables_ok demo_pagemap large_vmm"
proof -
  have "\<exists>b. 0xFFFF800000001000 = page_at (v_hhdm large_vmm) b \<and> unat b < 2 ^ 40 \<and> page_used (v_pmm large_vmm) b"
    by (rule exI [of _ 1]) (simp add: page_at_def large_vmm_def demo_vmm_def demo_pmm_def page_used_def bitmap_get_def)
  then have "pt_inv large_vmm (pml4 demo_pagemap) demo_levels" using large_frames(2)
    unfolding pt_inv_def by (auto simp: demo_levels_def demo_pagemap_def large_vmm_def demo_vmm_def present_def split: if_splits)
  then show ?thesis by (auto simp: tables_ok_def)
qed

lemma large_first: "alloc_pages 1 (v_pmm large_vmm) = Returns (0x2000, marked 2 1 (v_pmm large_vmm))"
  by (simp add: alloc_pages_def inner_alloc_def large_vmm_def demo_vmm_def demo_pmm_def inner_alloc_loop.simps bitmap_get_def marked_def)

lemma large_stack: "\<exists>f q. alloc_pages (stack_size div 0x1000) (marked 2 1 (v_pmm large_vmm)) = Returns (f, q)"
proof (rule alloc_run_returns)
  let ?p = "marked 2 1 (v_pmm large_vmm)"
  have size: "Bitmap.m_size (page_bitmap (v_pmm large_vmm)) = 128" by (simp add: large_vmm_def)
  show "pmm_wf ?p" using alloc_pages_Returns [OF _ large_first] large_frames(2) by (auto simp: frames_ok_def)
  show "stack_size div 0x1000 \<noteq> 0" by (simp add: stack_size_def)
  have "\<not> page_used ?p j" if "8 \<le> unat j" for j
    using that large_frames(1) [of j] by (auto simp: page_used_marked word_less_nat_alt)
  then show "free_run ?p (page_bitmap_index ?p) (Bitmap.m_size (page_bitmap ?p)) (stack_size div 0x1000) 8"
    by (simp add: free_run_def stack_size_def size)
qed

lemma demo_new_user_task:
  "\<exists>t s'. new_user_task 0x3000 (demo_task 0) 0x500 demo_elf 1 True (demo_sched\<lparr>sc_vmm := large_vmm\<rparr>) = Returns (t, s')"
proof -
  obtain f p where a: "alloc_pages 1 (v_pmm large_vmm) = Returns (f, p)" and "p = marked 2 1 (v_pmm large_vmm)" using large_first by blast
  then obtain ks q where b: "alloc_pages (stack_size div 0x1000) p = Returns (ks, q)" using large_stack by blast
  have "room (unat (1 :: usize) + 119) (v_pmm large_vmm)" using large_room by simp
  from alloc_room [OF this a] have "room (unat (stack_size div 0x1000) + 64) p" by (rule room_mono) (simp add: stack_size_def)
  from alloc_room [OF this b] have q: "room (4 * 16) q" by simp
  obtain pm v1 where np: "new_pagemap demo_pagemap 0x500 large_vmm = Returns (pm, v1)" using new_pagemap_returns [OF a] by blast
  then have "v_pmm v1 = p" using a by (auto simp: new_pagemap_def Let_def map_kernel_def)
  moreover obtain base v2 m where "map_stack 16 pm 0 (v1\<lparr>v_pmm := q\<rparr>) (sc_mem demo_sched) = Returns (base, v2, m)"
    using map_stack_room [of 16 "v1\<lparr>v_pmm := q\<rparr>"] q by fastforce
  moreover have "sc_kernel_pagemap demo_sched = demo_pagemap" by (simp add: demo_sched_def)
  ultimately show ?thesis using np b by (simp add: new_user_task_def new_Task_def demo_elf_loads)
qed

theorem new_user_task_stack_witness:
  "\<exists>s'. new_user_task 0x3000 (demo_task 0) 0x500 demo_elf 1 True (demo_sched\<lparr>sc_vmm := large_vmm\<rparr>) = Returns (0x3000, s') \<and>
     r_cs (gpr_state (sc_task s' 0x3000)) = 0x23 \<and> r_rsp (gpr_state (sc_task s' 0x3000)) = stack (sc_task s' 0x3000)"
proof -
  obtain t s' where r: "new_user_task 0x3000 (demo_task 0) 0x500 demo_elf 1 True (demo_sched\<lparr>sc_vmm := large_vmm\<rparr>) = Returns (t, s')"
    using demo_new_user_task by blast
  have "tables_ok (sc_kernel_pagemap (demo_sched\<lparr>sc_vmm := large_vmm\<rparr>)) (sc_vmm (demo_sched\<lparr>sc_vmm := large_vmm\<rparr>))"
    using large_tables by (simp add: demo_sched_def)
  note new_user_task_stack [OF this r refl]
  then show ?thesis using r by auto
qed

end
