(* ===== verification/Syscalls.thy ===== *)
theory Syscalls
  imports Sched
begin

text \<open>
  The system call path from the user's stub to the kernel function and home again: the stubs of
  \<^verbatim>\<open>userspace/test/src/syscall.hpp\<close> and the functions of \<^verbatim>\<open>userspace/test/src/api.cpp\<close>, the
  entry code of \<^verbatim>\<open>src/cpu/syscall/syscall_entry.asm\<close> and the table of
  \<^verbatim>\<open>src/cpu/syscall/syscall.cpp\<close>. A call comes back, ends the task (\<open>Gone\<close>), panics, or does not
  return (\<open>None\<close>). The bits of \<^verbatim>\<open>rax\<close> that the calling convention leaves open, the addresses and contents
  that the kernel heap hands out and the keys that arrive meanwhile are inputs of the model.
\<close>

section \<open>Definitions\<close>

record system =
  sy_sched :: sched
  sy_vfs :: vfs
  sy_console :: console
  sy_kbd :: kbd
  sy_mem :: memory

datatype 'a call = Back 'a | Gone system

type_synonym 'a run = "'a call outcome option"

definition rbind :: "'a run \<Rightarrow> ('a \<Rightarrow> 'b run) \<Rightarrow> 'b run" where
  "rbind r f = Option.bind r (\<lambda>x. case x of
     Panics msg \<Rightarrow> Some (Panics msg) | Returns (Gone s) \<Rightarrow> Some (Returns (Gone s)) | Returns (Back a) \<Rightarrow> f a)"

definition rret :: "'a \<Rightarrow> 'a run" where
  "rret a = Some (Returns (Back a))"

text \<open>Results of the file system's functions in a run.\<close>

definition lift_run :: "'a outcome option \<Rightarrow> 'a run" where
  "lift_run r = map_option (\<lambda>x. case x of Panics msg \<Rightarrow> Panics msg | Returns a \<Rightarrow> Returns (Back a)) r"

record call_env =
  ce_display :: display
  ce_fill :: "usize \<Rightarrow> u8"
  ce_range :: uptr
  ce_irqs :: "u8 list"
  ce_rax :: u64

text \<open>What a function leaves in \<^verbatim>\<open>rax\<close>: nothing, an \<^verbatim>\<open>int\<close> in the low half, or all 64 bits.\<close>

datatype ret = Ret_void | Ret_int u32 | Ret_long u64

definition ret_rax :: "u64 \<Rightarrow> ret \<Rightarrow> u64" where
  "ret_rax junk r = (case r of Ret_void \<Rightarrow> junk | Ret_int w \<Rightarrow> push_bit 32 (drop_bit 32 junk) OR ucast w | Ret_long w \<Rightarrow> w)"

definition current :: "system \<Rightarrow> Task" where
  "current s = sc_task (sy_sched s) (running (sy_sched s))"

definition set_current :: "Task \<Rightarrow> system \<Rightarrow> system" where
  "set_current t s = s\<lparr>sy_sched := (sy_sched s)\<lparr>sc_task := (sc_task (sy_sched s))(running (sy_sched s) := t)\<rparr>\<rparr>"

text \<open>The kernel functions that the table points to, called with the six argument registers.\<close>

datatype syscall_fn = F_exit | F_open | F_openat | F_close | F_read | F_pread | F_write | F_pwrite | F_seek | F_getcwd | F_chdir | F_mmap

type_synonym arg_regs = "u64 \<times> u64 \<times> u64 \<times> u64 \<times> u64 \<times> u64"

fun call_fn :: "call_env \<Rightarrow> syscall_fn \<Rightarrow> arg_regs \<Rightarrow> system \<Rightarrow> (ret \<times> system) run" where
  "call_fn env F_exit (a, b, c, d, e, f) s = Some (Returns (Gone (s\<lparr>sy_sched := syscall_exit (ucast a) (sy_sched s)\<rparr>)))"
| "call_fn env F_open (a, b, c, d, e, f) s =
     do { path \<leftarrow> c_string (sy_mem s) a;
          rbind (lift_run (syscall_open (sy_vfs s) (current s) path)) (\<lambda>(fd, t). rret (Ret_int fd, set_current t s)) }"
| "call_fn env F_openat (a, b, c, d, e, f) s =
     do { path \<leftarrow> c_string (sy_mem s) b;
          rbind (lift_run (syscall_openat (sy_vfs s) (current s) (ucast a) path)) (\<lambda>(fd, t). rret (Ret_int fd, set_current t s)) }"
| "call_fn env F_close (a, b, c, d, e, f) s = rret (Ret_void, set_current (syscall_close (current s) (ucast a)) s)"
| "call_fn env F_read (a, b, c, d, e, f) s =
     rbind (lift_run (syscall_read (sy_vfs s) (current s) (sy_kbd s) (ucast a) c (ce_irqs env))) (\<lambda>(bytes, t, k).
       rret (Ret_void, (set_current t s)\<lparr>sy_kbd := k, sy_mem := store_bytes (sy_mem s) b bytes\<rparr>))"
| "call_fn env F_pread (a, b, c, d, e, f) s =
     rbind (lift_run (Some (syscall_pread (sy_vfs s) (current s) (ucast a) c d))) (\<lambda>bytes.
       rret (Ret_void, s\<lparr>sy_mem := store_bytes (sy_mem s) b bytes\<rparr>))"
| "call_fn env F_write (a, b, c, d, e, f) s =
     rbind (lift_run (syscall_write (ce_display env) (ce_fill env) (sy_vfs s) (current s) (sy_console s) (sy_mem s) (ucast a) b c))
       (\<lambda>(v, t, con). rret (Ret_void, (set_current t s)\<lparr>sy_vfs := v, sy_console := con\<rparr>))"
| "call_fn env F_pwrite (a, b, c, d, e, f) s =
     rbind (lift_run (Some (syscall_pwrite (ce_fill env) (sy_vfs s) (current s) (sy_mem s) (ucast a) b c d)))
       (\<lambda>v. rret (Ret_void, s\<lparr>sy_vfs := v\<rparr>))"
| "call_fn env F_seek (a, b, c, d, e, f) s = rret (Ret_void, set_current (syscall_seek (current s) (ucast a) b) s)"
| "call_fn env F_getcwd (a, b, c, d, e, f) s =
     do { (r, bytes) \<leftarrow> syscall_getcwd (sy_vfs s) (current s) b;
          rret (Ret_long r, s\<lparr>sy_mem := store_bytes (sy_mem s) a bytes\<rparr>) }"
| "call_fn env F_chdir (a, b, c, d, e, f) s =
     do { path \<leftarrow> c_string (sy_mem s) a;
          (r, t) \<leftarrow> syscall_chdir (sy_vfs s) (current s) path;
          rret (Ret_long r, set_current t s) }"
| "call_fn env F_mmap (a, b, c, d, e, f) s =
     (case syscall_mmap (ce_range env) (pagemap (current s)) (mmap_anon_base (current s)) b (ucast c) (ucast d) (sc_vmm (sy_sched s)) of
        (r, base, v) \<Rightarrow>
          rret (Ret_long r, let s1 = set_current ((current s)\<lparr>mmap_anon_base := base\<rparr>) s
                        in s1\<lparr>sy_sched := (sy_sched s1)\<lparr>sc_vmm := v\<rparr>\<rparr>))"

type_synonym syscall_table = "nat \<Rightarrow> syscall_fn option"

definition init_syscall_table :: "syscall_table \<Rightarrow> syscall_table" where
  "init_syscall_table tab =
     tab(0 \<mapsto> F_exit, 1 \<mapsto> F_open, 2 \<mapsto> F_openat, 3 \<mapsto> F_close, 4 \<mapsto> F_read, 5 \<mapsto> F_pread, 6 \<mapsto> F_write, 7 \<mapsto> F_pwrite,
         8 \<mapsto> F_seek, 9 \<mapsto> F_getcwd, 10 \<mapsto> F_chdir, 11 \<mapsto> F_mmap)"

subsection \<open>The entry code\<close>

definition swapgs :: "cpu_regs \<Rightarrow> cpu_regs" where
  "swapgs c = write_gs_base (read_kernel_gs_base c) (write_kernel_gs_base (read_gs_base c) c)"

definition sys_swapgs :: "system \<Rightarrow> system" where
  "sys_swapgs s = s\<lparr>sy_sched := (sy_sched s)\<lparr>sc_cpu := swapgs (sc_cpu (sy_sched s))\<rparr>\<rparr>"

text \<open>The words pushed on the kernel stack, the last one first.\<close>

definition push_frame :: "InterruptState \<Rightarrow> u64 list" where
  "push_frame g = rev [r_rax g, r_rbx g, r_rcx g, r_rdx g, r_rsi g, r_rdi g, r_rbp g, r_r8 g, r_r9 g, r_r10 g, r_r11 g, r_r12 g,
     r_r13 g, r_r14 g, r_r15 g, r_es g, r_ds g]"

definition pop_frame :: "u64 list \<Rightarrow> InterruptState \<Rightarrow> InterruptState" where
  "pop_frame f g = g\<lparr>r_ds := f ! 0, r_es := f ! 1, r_r15 := f ! 2, r_r14 := f ! 3, r_r13 := f ! 4, r_r12 := f ! 5, r_r11 := f ! 6,
     r_r10 := f ! 7, r_r9 := f ! 8, r_r8 := f ! 9, r_rbp := f ! 10, r_rdi := f ! 11, r_rsi := f ! 12, r_rdx := f ! 13,
     r_rcx := f ! 14, r_rbx := f ! 15, r_rax := f ! 16\<rparr>"

text \<open>The whole entry routine. The called function may leave anything in the registers (\<open>clobber\<close>); \<open>r_err\<close> is not one.\<close>

definition syscall_entry :: "call_env \<Rightarrow> syscall_table \<Rightarrow> (InterruptState \<Rightarrow> InterruptState) \<Rightarrow> InterruptState \<times> system \<Rightarrow>
    (InterruptState \<times> system) run" where
  "syscall_entry env tab clobber = (\<lambda>(g, s).
     (let s1 = sys_swapgs s;
          s2 = set_current ((current s1)\<lparr>user_stack := r_rsp g\<rparr>) s1;
          frame = push_frame g;
          g1 = g\<lparr>r_rsp := kernel_stack (current s2) - 17 * 8, r_ds := 0x10, r_es := 0x10, r_rbp := 0, r_rcx := r_r10 g\<rparr>;
          nr = frame ! 16;
          leave = (\<lambda>rax s3. rret (let g2 = pop_frame (frame[16 := rax]) ((clobber g1)\<lparr>r_err := r_err g\<rparr>)
                                  in (g2\<lparr>r_rsp := user_stack (current s3)\<rparr>, sys_swapgs s3)))
      in if 12 \<le> nr then leave (- ENOSYS) s2
         else case tab (unat nr) of
                None \<Rightarrow> Some kernel_fault
              | Some fn \<Rightarrow> rbind (call_fn env fn (r_rdi g1, r_rsi g1, r_rdx g1, r_rcx g1, r_r8 g1, r_r9 g1) s2)
                  (\<lambda>(r, s3). leave (ret_rax (ce_rax env) r) s3)))"

text \<open>The \<^verbatim>\<open>syscall\<close> instruction of the processor, up to the matching \<^verbatim>\<open>sysret\<close>: both take their segments from
  \<^verbatim>\<open>IA32_STAR\<close>, which \<^verbatim>\<open>cpu::init\<close> sets to \<open>star_value\<close>.\<close>

definition star_value :: u64 where
  "star_value = 0 OR push_bit 32 KERNEL_CODE_64 OR push_bit 48 (USER_CODE_64 - 16)"

definition star :: "system \<Rightarrow> u64" where
  "star s = msr_read IA32_STAR (sc_cpu (sy_sched s))"

definition enter_kernel :: "InterruptState \<Rightarrow> system \<Rightarrow> InterruptState" where
  "enter_kernel g s =
     g\<lparr>r_rcx := r_rip g, r_r11 := r_rflags g, r_rflags := r_rflags g AND NOT (msr_read IA32_FMASK (sc_cpu (sy_sched s))),
       r_cs := drop_bit 32 (star s) AND 0xFFFC, r_ss := (drop_bit 32 (star s) AND 0xFFFF) + 8\<rparr>"

definition sysret :: "InterruptState \<Rightarrow> system \<Rightarrow> InterruptState" where
  "sysret g s = g\<lparr>r_rip := r_rcx g, r_rflags := r_r11 g, r_cs := (drop_bit 48 (star s) + 16) OR 3, r_ss := (drop_bit 48 (star s) + 8) OR 3\<rparr>"

definition syscall_instruction :: "call_env \<Rightarrow> syscall_table \<Rightarrow> (InterruptState \<Rightarrow> InterruptState) \<Rightarrow> InterruptState \<times> system \<Rightarrow>
    (InterruptState \<times> system) run" where
  "syscall_instruction env tab clobber = (\<lambda>(g, s).
     rbind (syscall_entry env tab clobber (enter_kernel g s, s)) (\<lambda>(g', s'). rret (sysret g' s', s')))"

subsection \<open>The stubs of the user library\<close>

definition stub_result :: "(InterruptState \<times> system) run \<Rightarrow> (u64 \<times> InterruptState \<times> system) run" where
  "stub_result r = rbind r (\<lambda>(g, s). rret (r_rax g, g, s))"

record machine_env =
  me_env :: call_env
  me_table :: syscall_table
  me_clobber :: "InterruptState \<Rightarrow> InterruptState"

definition trap :: "machine_env \<Rightarrow> InterruptState \<times> system \<Rightarrow> (u64 \<times> InterruptState \<times> system) run" where
  "trap M p = stub_result (syscall_instruction (me_env M) (me_table M) (me_clobber M) p)"

definition syscall0 :: "machine_env \<Rightarrow> u64 \<Rightarrow> InterruptState \<times> system \<Rightarrow> (u64 \<times> InterruptState \<times> system) run" where
  "syscall0 M sc = (\<lambda>(g, s). trap M (g\<lparr>r_rax := sc\<rparr>, s))"

definition syscall1 :: "machine_env \<Rightarrow> u64 \<Rightarrow> u64 \<Rightarrow> InterruptState \<times> system \<Rightarrow> (u64 \<times> InterruptState \<times> system) run" where
  "syscall1 M sc arg1 = (\<lambda>(g, s). trap M (g\<lparr>r_rax := sc, r_rdi := arg1\<rparr>, s))"

definition syscall2 :: "machine_env \<Rightarrow> u64 \<Rightarrow> u64 \<Rightarrow> u64 \<Rightarrow> InterruptState \<times> system \<Rightarrow> (u64 \<times> InterruptState \<times> system) run" where
  "syscall2 M sc arg1 arg2 = (\<lambda>(g, s). trap M (g\<lparr>r_rax := sc, r_rdi := arg1, r_rsi := arg2\<rparr>, s))"

definition syscall3 :: "machine_env \<Rightarrow> u64 \<Rightarrow> u64 \<Rightarrow> u64 \<Rightarrow> u64 \<Rightarrow> InterruptState \<times> system \<Rightarrow> (u64 \<times> InterruptState \<times> system) run" where
  "syscall3 M sc arg1 arg2 arg3 = (\<lambda>(g, s). trap M (g\<lparr>r_rax := sc, r_rdi := arg1, r_rsi := arg2, r_rdx := arg3\<rparr>, s))"

definition syscall4 :: "machine_env \<Rightarrow> u64 \<Rightarrow> u64 \<Rightarrow> u64 \<Rightarrow> u64 \<Rightarrow> u64 \<Rightarrow> InterruptState \<times> system \<Rightarrow> (u64 \<times> InterruptState \<times> system) run" where
  "syscall4 M sc arg1 arg2 arg3 arg4 =
     (\<lambda>(g, s). trap M (g\<lparr>r_rax := sc, r_rdi := arg1, r_rsi := arg2, r_rdx := arg3, r_r10 := arg4\<rparr>, s))"

definition syscall5 :: "machine_env \<Rightarrow> u64 \<Rightarrow> u64 \<Rightarrow> u64 \<Rightarrow> u64 \<Rightarrow> u64 \<Rightarrow> u64 \<Rightarrow> InterruptState \<times> system \<Rightarrow>
    (u64 \<times> InterruptState \<times> system) run" where
  "syscall5 M sc arg1 arg2 arg3 arg4 arg5 =
     (\<lambda>(g, s). trap M (g\<lparr>r_rax := sc, r_rdi := arg1, r_rsi := arg2, r_rdx := arg3, r_r10 := arg4, r_r8 := arg5\<rparr>, s))"

definition syscall6 :: "machine_env \<Rightarrow> u64 \<Rightarrow> u64 \<Rightarrow> u64 \<Rightarrow> u64 \<Rightarrow> u64 \<Rightarrow> u64 \<Rightarrow> u64 \<Rightarrow> InterruptState \<times> system \<Rightarrow>
    (u64 \<times> InterruptState \<times> system) run" where
  "syscall6 M sc arg1 arg2 arg3 arg4 arg5 arg6 =
     (\<lambda>(g, s). trap M (g\<lparr>r_rax := sc, r_rdi := arg1, r_rsi := arg2, r_rdx := arg3, r_r10 := arg4, r_r8 := arg5, r_r9 := arg6\<rparr>, s))"

definition SYS_exit :: u64 where "SYS_exit = 0"
definition SYS_open :: u64 where "SYS_open = 1"
definition SYS_openat :: u64 where "SYS_openat = 2"
definition SYS_close :: u64 where "SYS_close = 3"
definition SYS_read :: u64 where "SYS_read = 4"
definition SYS_pread :: u64 where "SYS_pread = 5"
definition SYS_write :: u64 where "SYS_write = 6"
definition SYS_pwrite :: u64 where "SYS_pwrite = 7"
definition SYS_seek :: u64 where "SYS_seek = 8"
definition SYS_getcwd :: u64 where "SYS_getcwd = 9"
definition SYS_chdir :: u64 where "SYS_chdir = 10"
definition SYS_mmap :: u64 where "SYS_mmap = 11"

subsection \<open>The functions of the user library\<close>

type_synonym user = "InterruptState \<times> system"

definition as_int :: "(u64 \<times> user) run \<Rightarrow> (u32 \<times> user) run" where
  "as_int r = rbind r (\<lambda>(v, p). rret (ucast v, p))"

definition as_void :: "(u64 \<times> user) run \<Rightarrow> user run" where
  "as_void r = rbind r (\<lambda>(v, p). rret p)"

text \<open>An \<^verbatim>\<open>int\<close> argument becomes a \<^verbatim>\<open>u64\<close> by sign extension.\<close>

definition api_open :: "machine_env \<Rightarrow> uptr \<Rightarrow> user \<Rightarrow> (u32 \<times> user) run" where
  "api_open M path p = as_int (syscall1 M SYS_open path p)"

definition api_openat :: "machine_env \<Rightarrow> u32 \<Rightarrow> uptr \<Rightarrow> user \<Rightarrow> (u32 \<times> user) run" where
  "api_openat M dirfd path p = as_int (syscall2 M SYS_openat (scast dirfd) path p)"

definition api_close :: "machine_env \<Rightarrow> u32 \<Rightarrow> user \<Rightarrow> user run" where
  "api_close M fd p = as_void (syscall1 M SYS_close (scast fd) p)"

definition api_read :: "machine_env \<Rightarrow> u32 \<Rightarrow> uptr \<Rightarrow> usize \<Rightarrow> user \<Rightarrow> user run" where
  "api_read M fd buf cnt p = as_void (syscall3 M SYS_read (scast fd) buf cnt p)"

definition api_pread :: "machine_env \<Rightarrow> u32 \<Rightarrow> uptr \<Rightarrow> usize \<Rightarrow> usize \<Rightarrow> user \<Rightarrow> user run" where
  "api_pread M fd buf cnt offset p = as_void (syscall4 M SYS_pread (scast fd) buf cnt offset p)"

definition api_write :: "machine_env \<Rightarrow> u32 \<Rightarrow> uptr \<Rightarrow> usize \<Rightarrow> user \<Rightarrow> user run" where
  "api_write M fd buf cnt p = as_void (syscall3 M SYS_write (scast fd) buf cnt p)"

definition api_pwrite :: "machine_env \<Rightarrow> u32 \<Rightarrow> uptr \<Rightarrow> usize \<Rightarrow> usize \<Rightarrow> user \<Rightarrow> user run" where
  "api_pwrite M fd buf cnt offset p = as_void (syscall4 M SYS_pwrite (scast fd) buf cnt offset p)"

definition api_seek :: "machine_env \<Rightarrow> u32 \<Rightarrow> isize \<Rightarrow> user \<Rightarrow> user run" where
  "api_seek M fd offset p = as_void (syscall2 M SYS_seek (scast fd) offset p)"

definition api_exit :: "machine_env \<Rightarrow> u32 \<Rightarrow> user \<Rightarrow> user run" where
  "api_exit M status p = as_void (syscall1 M SYS_exit (scast status) p)"

definition api_getcwd :: "machine_env \<Rightarrow> uptr \<Rightarrow> usize \<Rightarrow> user \<Rightarrow> (isize \<times> user) run" where
  "api_getcwd M buf bufsize p = syscall2 M SYS_getcwd buf bufsize p"

definition api_chdir :: "machine_env \<Rightarrow> uptr \<Rightarrow> user \<Rightarrow> (isize \<times> user) run" where
  "api_chdir M path p = syscall1 M SYS_chdir path p"

definition api_mmap :: "machine_env \<Rightarrow> uptr \<Rightarrow> usize \<Rightarrow> u32 \<Rightarrow> u32 \<Rightarrow> u32 \<Rightarrow> usize \<Rightarrow> user \<Rightarrow> (isize \<times> user) run" where
  "api_mmap M hint len prot flags fd offset p =
     syscall6 M SYS_mmap hint len (scast prot) (scast flags) (scast fd) offset p"

section \<open>Runs\<close>

lemma rbind_simps [simp]:
  "rbind None f = None" "rbind (Some (Panics msg)) f = Some (Panics msg)" "rbind (Some (Returns (Gone s))) f = Some (Returns (Gone s))"
  "rbind (Some (Returns (Back a))) f = f a" "rbind (rret a) f = f a"
  by (simp_all add: rbind_def rret_def)

lemma run_cases:
  fixes r :: "'a run"
  obtains "r = None" | msg where "r = Some (Panics msg)" | s where "r = Some (Returns (Gone s))" | a where "r = rret a"
  by (metis call.exhaust option.exhaust outcome.exhaust rret_def)

lemma rbind_assoc: "rbind (rbind r f) h = rbind r (\<lambda>a. rbind (f a) h)"
  by (cases r rule: run_cases) simp_all

lemma rbind_option: "rbind (Option.bind r f) h = Option.bind r (\<lambda>a. rbind (f a) h)"
  by (cases r) simp_all

lemma rbind_cong: "(\<And>a. r = rret a \<Longrightarrow> f a = h a) \<Longrightarrow> rbind r f = rbind r h"
  by (cases r rule: run_cases) simp_all

lemma rbind_eq_rret: "rbind r f = rret b \<longleftrightarrow> (\<exists>a. r = rret a \<and> f a = rret b)"
  by (cases r rule: run_cases) (auto simp: rret_def)

lemma rret_eq [simp]: "rret a = rret b \<longleftrightarrow> a = b" "Some (Returns (Gone s)) \<noteq> rret a" "rret a \<noteq> Some (Returns (Gone s))"
  "rret a \<noteq> Some (Panics msg)" "Some (Panics msg) \<noteq> rret a" "rret a \<noteq> None" "None \<noteq> rret a"
  by (simp_all add: rret_def)

lemma bind_eq_rret: "Option.bind x f = rret b \<longleftrightarrow> (\<exists>a. x = Some a \<and> f a = rret b)"
  by (simp add: rret_def bind_eq_Some_conv)

lemma lift_run_eq_rret: "lift_run r = rret a \<longleftrightarrow> r = Some (Returns a)"
  by (cases r) (auto simp: lift_run_def rret_def split: outcome.splits)

section \<open>What a kernel function leaves of the task\<close>

lemma task_more: "Task_files.more t = Task_files.more t' \<Longrightarrow> user_stack t = user_stack t' \<and> kernel_stack t = kernel_stack t'"
  for t t' :: Task
  by (cases t; cases t') simp

lemma allocate_fdnum_more: "allocate_fdnum t = (fd, t') \<Longrightarrow> Task_files.more t' = Task_files.more t"
  by (auto simp: allocate_fdnum_def Let_def split: option.splits)

lemma openat_inner_more: "openat_inner v t dirfd path = Some (Returns (fd, t')) \<Longrightarrow> Task_files.more t' = Task_files.more t"
  by (auto simp: openat_inner_def bind_eq_Some_conv split: outcome.splits sum.splits if_splits prod.splits dest: allocate_fdnum_more)

lemma set_descriptor_more [simp]: "Task_files.more (set_descriptor t fd d) = Task_files.more t"
  by (simp add: set_descriptor_def)

lemma syscall_files_more:
  "syscall_read v t k fd cnt irqs = Some (Returns (bytes, t', k')) \<Longrightarrow> Task_files.more t' = Task_files.more t"
  "syscall_write d fill v t c m fd buf cnt = Some (Returns (v', t', c')) \<Longrightarrow> Task_files.more t' = Task_files.more t"
  "Task_files.more (syscall_close t fd) = Task_files.more t" "Task_files.more (syscall_seek t fd off') = Task_files.more t"
  "syscall_chdir v t path = Some (r, t') \<Longrightarrow> Task_files.more t' = Task_files.more t"
  by (auto simp: syscall_read_def syscall_write_def syscall_close_def syscall_seek_def syscall_chdir_def kernel_fault_def
      bind_eq_Some_conv Let_def split: if_splits option.splits)

lemma current_set_current [simp]: "current (set_current t s) = t" "sc_cpu (sy_sched (set_current t s)) = sc_cpu (sy_sched s)"
  "running (sy_sched (set_current t s)) = running (sy_sched s)"
  by (simp_all add: current_def set_current_def running_def)

lemma current_update [simp]:
  "current (s\<lparr>sy_vfs := v\<rparr>) = current s" "current (s\<lparr>sy_console := c\<rparr>) = current s" "current (s\<lparr>sy_kbd := k\<rparr>) = current s"
  "current (s\<lparr>sy_mem := m\<rparr>) = current s" "current (s\<lparr>sy_sched := (sy_sched s)\<lparr>sc_vmm := x\<rparr>\<rparr>) = current s"
  by (simp_all add: current_def running_def)

text \<open>A function that comes home leaves the processor's registers and the stack pointers of the task alone.\<close>

lemma call_fn_frame:
  assumes "call_fn env fn args s = rret (r, s')"
  shows "sc_cpu (sy_sched s') = sc_cpu (sy_sched s) \<and> user_stack (current s') = user_stack (current s)"
proof -
  obtain a b c d e f where args: "args = (a, b, c, d, e, f)" by (cases args) auto
  have t: "user_stack t = user_stack (current s)" if "Task_files.more t = Task_files.more (current s)" for t :: Task
    using task_more [OF that] by simp
  show ?thesis
  proof (cases fn)
    case F_mmap
    then show ?thesis using assms unfolding args by (auto simp: Let_def split: prod.splits)
  qed (use assms in \<open>auto simp: args bind_eq_rret rbind_eq_rret lift_run_eq_rret syscall_open_def syscall_openat_def
         syscall_files_more(3,4) Let_def split: prod.splits dest!: openat_inner_more syscall_files_more(1,2,5) intro!: t\<close>)
qed

section \<open>The way in and out\<close>

definition syscall_names :: "syscall_fn list" where
  "syscall_names = [F_exit, F_open, F_openat, F_close, F_read, F_pread, F_write, F_pwrite, F_seek, F_getcwd, F_chdir, F_mmap]"

lemma init_syscall_table_nth: "n < 12 \<Longrightarrow> init_syscall_table tab n = Some (syscall_names ! n)"
proof -
  have "\<forall>n \<in> set [0..<12]. init_syscall_table tab n = Some (syscall_names ! n)"
    by (simp add: upt_rec init_syscall_table_def syscall_names_def)
  then show "n < 12 \<Longrightarrow> ?thesis" by simp
qed

lemma msr_write_msrs: "(msr_write r v c)\<lparr>msrs := x\<rparr> = c\<lparr>msrs := x\<rparr>"
  by (simp add: msr_write_def Let_def)

lemma msrs_eqI:
  assumes "\<And>r. msr_read r c = msr_read r c'" "msrs_update (\<lambda>_. x) c = msrs_update (\<lambda>_. x) c'"
  shows "c = c'"
proof -
  have "a = b" if eq: "push_bit 32 (ucast (fst a)) OR ucast (snd a) = (push_bit 32 (ucast (fst b)) OR ucast (snd b) :: u64)" for a b :: "u32 \<times> u32"
  proof -
    have hi: "ucast (drop_bit 32 (push_bit 32 (ucast x) OR ucast y :: u64)) = x" and lo: "ucast (push_bit 32 (ucast x) OR ucast y :: u64) = y"
      for x y :: u32
      by (rule bit_word_eqI, auto simp: bit_simps dest: bit_imp_le_length)+
    have "fst a = fst b" using hi [of "fst a" "snd a"] hi [of "fst b" "snd b"] unfolding eq by (rule trans [OF sym])
    moreover have "snd a = snd b" using lo [of "fst a" "snd a"] lo [of "fst b" "snd b"] unfolding eq by (rule trans [OF sym])
    ultimately show ?thesis by (rule prod_eqI)
  qed
  then have "msrs c r = msrs c' r" for r using assms(1) [of r] by (simp add: msr_read_def split: prod.splits) (metis fst_conv snd_conv)
  then have "msrs c = msrs c'" by blast
  then show ?thesis using assms(2) by (cases c; cases c') simp
qed

lemma swapgs_twice [simp]: "swapgs (swapgs c) = c"
  by (rule msrs_eqI [where x = "\<lambda>_. (0, 0)"])
     (auto simp: swapgs_def write_gs_base_def write_kernel_gs_base_def read_gs_base_def read_kernel_gs_base_def msr_read_write
       msr_write_msrs)

lemma swapgs_reads [simp]:
  "read_gs_base (swapgs c) = read_kernel_gs_base c" "read_kernel_gs_base (swapgs c) = read_gs_base c"
  "msr_read IA32_STAR (swapgs c) = msr_read IA32_STAR c" "msr_read IA32_FMASK (swapgs c) = msr_read IA32_FMASK c"
  by (simp add: swapgs_def, simp add: swapgs_def)
     (simp_all add: swapgs_def write_gs_base_def write_kernel_gs_base_def msr_read_write IA32_STAR_def IA32_FMASK_def
      IA32_GS_BASE_def IA32_KERNEL_GS_BASE_def)

lemma frame_roundtrip: "length (push_frame g) = 17" "push_frame g ! 16 = r_rax g"
  "pop_frame ((push_frame g)[16 := v]) h =
     h\<lparr>r_ds := r_ds g, r_es := r_es g, r_r15 := r_r15 g, r_r14 := r_r14 g, r_r13 := r_r13 g, r_r12 := r_r12 g, r_r11 := r_r11 g,
       r_r10 := r_r10 g, r_r9 := r_r9 g, r_r8 := r_r8 g, r_rbp := r_rbp g, r_rdi := r_rdi g, r_rsi := r_rsi g, r_rdx := r_rdx g,
       r_rcx := r_rcx g, r_rbx := r_rbx g, r_rax := v\<rparr>"
  by (simp_all add: push_frame_def pop_frame_def)

text \<open>The state in which the called function runs, and the registers the caller finds afterwards.\<close>

definition kernel_view :: "InterruptState \<Rightarrow> system \<Rightarrow> system" where
  "kernel_view g s = (let s1 = sys_swapgs s in set_current ((current s1)\<lparr>user_stack := r_rsp g\<rparr>) s1)"

definition user_view :: "u64 \<Rightarrow> InterruptState \<Rightarrow> InterruptState" where
  "user_view v g = g\<lparr>r_rax := v, r_rcx := r_rip g, r_r11 := r_rflags g\<rparr>"

definition user_mode :: "InterruptState \<Rightarrow> system \<Rightarrow> bool" where
  "user_mode g s \<longleftrightarrow> star s = star_value \<and> r_cs g = USER_CODE_64 OR 3 \<and> r_ss g = USER_DATA_64 OR 3"

lemma kernel_view_simps [simp]:
  "sc_cpu (sy_sched (kernel_view g s)) = swapgs (sc_cpu (sy_sched s))" "user_stack (current (kernel_view g s)) = r_rsp g"
  "running (sy_sched (kernel_view g s)) = read_kernel_gs_base (sc_cpu (sy_sched s))"
  "sy_vfs (kernel_view g s) = sy_vfs s" "sy_console (kernel_view g s) = sy_console s" "sy_kbd (kernel_view g s) = sy_kbd s"
  "sy_mem (kernel_view g s) = sy_mem s"
  by (simp_all add: kernel_view_def sys_swapgs_def Let_def set_current_def current_def running_def)

lemma star_sys_swapgs [simp]: "star (sys_swapgs s) = star s"
  by (simp add: star_def sys_swapgs_def)

lemma sysret_user_view:
  assumes "user_mode g s" "star s' = star s"
  shows "sysret ((pop_frame ((push_frame (enter_kernel g s))[16 := v]) (h\<lparr>r_err := r_err g\<rparr>))\<lparr>r_rsp := r_rsp g\<rparr>) s' = user_view v g"
proof -
  have "(drop_bit 48 star_value + 16) OR 3 = USER_CODE_64 OR 3" "(drop_bit 48 star_value + 8) OR 3 = USER_DATA_64 OR 3"
    by (simp_all add: star_value_def USER_CODE_64_def USER_DATA_64_def KERNEL_CODE_64_def)
  then show ?thesis using assms
    by (cases g) (simp add: sysret_def user_view_def frame_roundtrip enter_kernel_def user_mode_def)
qed

lemma trap_eq:
  assumes table: "me_table M = init_syscall_table tab" and user: "user_mode g s"
  shows "trap M (g, s) =
     (if r_rax g < 12
      then rbind (call_fn (me_env M) (syscall_names ! unat (r_rax g)) (r_rdi g, r_rsi g, r_rdx g, r_r10 g, r_r8 g, r_r9 g) (kernel_view g s))
             (\<lambda>(r, s3). let v = ret_rax (ce_rax (me_env M)) r in rret (v, user_view v g, sys_swapgs s3))
      else rret (- ENOSYS, user_view (- ENOSYS) g, sys_swapgs (kernel_view g s)))"
proof -
  let ?g = "enter_kernel g s"
  have regs: "r_rax ?g = r_rax g" "r_rsp ?g = r_rsp g" "r_rdi ?g = r_rdi g" "r_rsi ?g = r_rsi g" "r_rdx ?g = r_rdx g" "r_r10 ?g = r_r10 g"
    "r_r8 ?g = r_r8 g" "r_r9 ?g = r_r9 g" "r_err ?g = r_err g" by (simp_all add: enter_kernel_def)
  have k: "set_current ((current (sys_swapgs s))\<lparr>user_stack := r_rsp g\<rparr>) (sys_swapgs s) = kernel_view g s"
    by (simp add: kernel_view_def Let_def)
  have stars: "star s' = star s" if "sc_cpu (sy_sched s') = sc_cpu (sy_sched (kernel_view g s))" for s' using that by (simp add: star_def)
  show ?thesis
  proof (cases "r_rax g < 12")
    case False
    then have "12 \<le> r_rax g" by simp
    then show ?thesis using False
      by (simp add: trap_def syscall_instruction_def syscall_entry_def Let_def frame_roundtrip(2) regs k stub_result_def
          sysret_user_view [OF user] stars) (simp add: user_view_def)
  next
    case True
    then have tab: "me_table M (unat (r_rax g)) = Some (syscall_names ! unat (r_rax g))"
      by (simp add: table init_syscall_table_nth word_less_nat_alt)
    have "\<not> 12 \<le> r_rax g" using True by simp
    then show ?thesis using True
      by (simp add: trap_def syscall_instruction_def syscall_entry_def Let_def frame_roundtrip(2) regs k stub_result_def rbind_assoc tab)
         (rule rbind_cong, clarsimp dest!: call_fn_frame simp: sysret_user_view [OF user] stars, simp add: user_view_def)
  qed
qed

section \<open>The library functions reach the kernel functions\<close>

lemma ucast_scast_32 [simp]: "(ucast (scast w :: u64) :: u32) = w" for w :: u32
proof (rule bit_word_eqI)
  fix n :: nat assume "n < LENGTH(32)"
  then consider "n < 31" | "n = 31" by fastforce
  then show "bit (ucast (scast w :: u64) :: u32) n = bit w n" by cases (simp_all add: bit_simps)
qed

lemma ret_rax_simps [simp]: "ucast (ret_rax junk (Ret_int w)) = w" "ret_rax junk (Ret_long v) = v"
  by (rule bit_word_eqI) (auto simp: ret_rax_def bit_simps)

lemma user_mode_args [simp]:
  "user_mode (g\<lparr>r_rax := a\<rparr>) s = user_mode g s" "user_mode (g\<lparr>r_rdi := a\<rparr>) s = user_mode g s"
  "user_mode (g\<lparr>r_rsi := a\<rparr>) s = user_mode g s" "user_mode (g\<lparr>r_rdx := a\<rparr>) s = user_mode g s"
  "user_mode (g\<lparr>r_r10 := a\<rparr>) s = user_mode g s" "user_mode (g\<lparr>r_r8 := a\<rparr>) s = user_mode g s"
  "user_mode (g\<lparr>r_r9 := a\<rparr>) s = user_mode g s"
  by (simp_all add: user_mode_def)

lemma kernel_view_args [simp]:
  "kernel_view (g\<lparr>r_rax := a\<rparr>) s = kernel_view g s" "kernel_view (g\<lparr>r_rdi := a\<rparr>) s = kernel_view g s"
  "kernel_view (g\<lparr>r_rsi := a\<rparr>) s = kernel_view g s" "kernel_view (g\<lparr>r_rdx := a\<rparr>) s = kernel_view g s"
  "kernel_view (g\<lparr>r_r10 := a\<rparr>) s = kernel_view g s" "kernel_view (g\<lparr>r_r8 := a\<rparr>) s = kernel_view g s"
  "kernel_view (g\<lparr>r_r9 := a\<rparr>) s = kernel_view g s"
  by (simp_all add: kernel_view_def)

text \<open>The registers left out.\<close>

definition no_regs :: "('a \<times> user) run \<Rightarrow> ('a \<times> system) run" where
  "no_regs r = rbind r (\<lambda>(v, g, s). rret (v, s))"

definition no_regs_void :: "user run \<Rightarrow> system run" where
  "no_regs_void r = rbind r (\<lambda>(g, s). rret s)"

lemmas stub_defs = syscall1_def syscall2_def syscall3_def syscall4_def syscall6_def
lemmas sys_numbers = SYS_exit_def SYS_open_def SYS_openat_def SYS_close_def SYS_read_def SYS_pread_def SYS_write_def SYS_pwrite_def
  SYS_seek_def SYS_getcwd_def SYS_chdir_def SYS_mmap_def

lemmas result_defs = as_int_def as_void_def no_regs_def no_regs_void_def

text \<open>One rule for all of them: the stub with the number \<open>n\<close> calls the \<open>n\<close>-th function of the table.\<close>

lemma trap_call:
  assumes "me_table M = init_syscall_table tab" "user_mode g s" "unat (r_rax g) < 12" "fn = syscall_names ! unat (r_rax g)"
  shows "trap M (g, s) = rbind (call_fn (me_env M) fn (r_rdi g, r_rsi g, r_rdx g, r_r10 g, r_r8 g, r_r9 g) (kernel_view g s))
     (\<lambda>(r, s3). let v = ret_rax (ce_rax (me_env M)) r in rret (v, user_view v g, sys_swapgs s3))"
  using assms by (simp add: trap_eq word_less_nat_alt)

lemmas api_rules = stub_defs sys_numbers result_defs trap_call syscall_names_def rbind_assoc rbind_option case_prod_unfold Let_def

text \<open>Each function of the user library performs the kernel function of its name: its arguments pass unchanged through the
  registers (an \<^verbatim>\<open>int\<close> through a sign-extended 64-bit register), the function runs for the calling task on the memory of the
  caller, and its result is what the library function returns, whatever the kernel leaves in the unused half of \<^verbatim>\<open>rax\<close>.
  A call that panics, blocks for ever or ends the task does the same to the library function.\<close>

theorem api_calls_reach_kernel:
  assumes table: "me_table M = init_syscall_table tab" and user: "user_mode g s"
    and k: "k = kernel_view g s" and env: "env = me_env M"
  shows "no_regs (api_open M path (g, s)) =
       do { name \<leftarrow> c_string (sy_mem s) path;
            rbind (lift_run (syscall_open (sy_vfs s) (current k) name)) (\<lambda>(fd, t). rret (fd, sys_swapgs (set_current t k))) } \<and>
     no_regs (api_openat M dirfd path (g, s)) =
       do { name \<leftarrow> c_string (sy_mem s) path;
            rbind (lift_run (syscall_openat (sy_vfs s) (current k) dirfd name)) (\<lambda>(fd, t). rret (fd, sys_swapgs (set_current t k))) } \<and>
     no_regs_void (api_close M fd (g, s)) = rret (sys_swapgs (set_current (syscall_close (current k) fd) k)) \<and>
     no_regs_void (api_read M fd buf cnt (g, s)) =
       rbind (lift_run (syscall_read (sy_vfs s) (current k) (sy_kbd s) fd cnt (ce_irqs env))) (\<lambda>(bytes, t, kb).
         rret (sys_swapgs ((set_current t k)\<lparr>sy_kbd := kb, sy_mem := store_bytes (sy_mem s) buf bytes\<rparr>))) \<and>
     no_regs_void (api_pread M fd buf cnt offset (g, s)) =
       rbind (lift_run (Some (syscall_pread (sy_vfs s) (current k) fd cnt offset))) (\<lambda>bytes.
         rret (sys_swapgs (k\<lparr>sy_mem := store_bytes (sy_mem s) buf bytes\<rparr>))) \<and>
     no_regs_void (api_write M fd buf cnt (g, s)) =
       rbind (lift_run (syscall_write (ce_display env) (ce_fill env) (sy_vfs s) (current k) (sy_console s) (sy_mem s) fd buf cnt))
         (\<lambda>(v, t, c). rret (sys_swapgs ((set_current t k)\<lparr>sy_vfs := v, sy_console := c\<rparr>))) \<and>
     no_regs_void (api_pwrite M fd buf cnt offset (g, s)) =
       rbind (lift_run (Some (syscall_pwrite (ce_fill env) (sy_vfs s) (current k) (sy_mem s) fd buf cnt offset)))
         (\<lambda>v. rret (sys_swapgs (k\<lparr>sy_vfs := v\<rparr>))) \<and>
     no_regs_void (api_seek M fd offset (g, s)) = rret (sys_swapgs (set_current (syscall_seek (current k) fd offset) k)) \<and>
     api_exit M status (g, s) = Some (Returns (Gone (k\<lparr>sy_sched := syscall_exit status (sy_sched k)\<rparr>))) \<and>
     no_regs (api_getcwd M buf cnt (g, s)) =
       do { (r, bytes) \<leftarrow> syscall_getcwd (sy_vfs s) (current k) cnt;
            rret (r, sys_swapgs (k\<lparr>sy_mem := store_bytes (sy_mem s) buf bytes\<rparr>)) } \<and>
     no_regs (api_chdir M path (g, s)) =
       do { name \<leftarrow> c_string (sy_mem s) path;
            (r, t) \<leftarrow> syscall_chdir (sy_vfs s) (current k) name;
            rret (r, sys_swapgs (set_current t k)) } \<and>
     no_regs (api_mmap M hint cnt prot flags fd offset (g, s)) =
       (case syscall_mmap (ce_range env) (pagemap (current k)) (mmap_anon_base (current k)) cnt prot flags (sc_vmm (sy_sched k)) of
          (r, base, v) \<Rightarrow> rret (r, sys_swapgs (let k1 = set_current ((current k)\<lparr>mmap_anon_base := base\<rparr>) k
                                          in k1\<lparr>sy_sched := (sy_sched k1)\<lparr>sc_vmm := v\<rparr>\<rparr>)))"
  unfolding k env
proof (intro conjI, goal_cases)
  case 1 show ?case by (simp add: api_open_def api_rules table user)
next
  case 2 show ?case by (simp add: api_openat_def api_rules table user)
next
  case 3 show ?case by (simp add: api_close_def api_rules table user)
next
  case 4 show ?case by (simp add: api_read_def api_rules table user)
next
  case 5 show ?case by (simp add: api_pread_def api_rules table user)
next
  case 6 show ?case by (simp add: api_write_def api_rules table user)
next
  case 7 show ?case by (simp add: api_pwrite_def api_rules table user)
next
  case 8 show ?case by (simp add: api_seek_def api_rules table user)
next
  case 9 show ?case by (simp add: api_exit_def api_rules table user)
next
  case 10 show ?case by (simp add: api_getcwd_def api_rules table user)
next
  case 11 show ?case by (simp add: api_chdir_def api_rules table user)
next
  case 12 show ?case by (simp add: api_mmap_def api_rules table user)
qed

text \<open>A system call is transparent: when it comes home, every register but \<^verbatim>\<open>rax\<close>, \<^verbatim>\<open>rcx\<close> and \<^verbatim>\<open>r11\<close> has
  the value it had, the task is in user mode after the \<^verbatim>\<open>syscall\<close> instruction with its flags and both GS bases restored. A number
  outside the table yields \<^verbatim>\<open>-ENOSYS\<close> and changes nothing else than the saved stack pointer.\<close>

theorem syscall_transparent:
  assumes "me_table M = init_syscall_table tab" and "user_mode g s"
  shows "case trap M (g, s) of
     Some (Returns (Back (v, g', s'))) \<Rightarrow>
       g' = g\<lparr>r_rax := v, r_rcx := r_rip g, r_r11 := r_rflags g\<rparr> \<and> sc_cpu (sy_sched s') = sc_cpu (sy_sched s) \<and>
       (12 \<le> r_rax g \<longrightarrow> v = - 1051 \<and> s' = s\<lparr>sy_sched := (sy_sched s)\<lparr>sc_task := (sc_task (sy_sched s))
          (read_kernel_gs_base (sc_cpu (sy_sched s)) := (sc_task (sy_sched s) (read_kernel_gs_base (sc_cpu (sy_sched s))))\<lparr>user_stack := r_rsp g\<rparr>)\<rparr>\<rparr>)
   | _ \<Rightarrow> r_rax g < 12"
proof (cases "r_rax g < 12")
  case False
  then show ?thesis
    using trap_eq [OF assms] by (simp add: user_view_def ENOSYS_def rret_def kernel_view_def sys_swapgs_def set_current_def current_def running_def Let_def)
next
  case True
  let ?r = "call_fn (me_env M) (syscall_names ! unat (r_rax g)) (r_rdi g, r_rsi g, r_rdx g, r_r10 g, r_r8 g, r_r9 g) (kernel_view g s)"
  show ?thesis
  proof (cases ?r rule: run_cases)
    case (4 a)
    then show ?thesis using trap_eq [OF assms] True call_fn_frame [of _ _ _ _ "fst a" "snd a"]
      by (cases a) (auto simp: user_view_def Let_def rret_def sys_swapgs_def)
  qed (use trap_eq [OF assms] True in simp_all)
qed

section \<open>A user task about to call the kernel\<close>

definition demo_user_task :: Task where
  "demo_user_task = (demo_task 0)\<lparr>file_descriptors := replicate 3 (Some \<lparr>fd_node = 0, fd_cursor = 0\<rparr>), num_file_descriptors := 3,
     first_free_fdnum := 3, mmap_anon_base := 0x50000\<rparr>"

definition demo_system :: system where
  "demo_system = \<lparr>sy_sched = demo_sched\<lparr>sc_task := (\<lambda>_. demo_user_task),
       sc_cpu := msr_write IA32_STAR star_value (write_kernel_gs_base 0x1000 (write_gs_base 0 demo_cpu))\<rparr>,
     sy_vfs = demo_vfs, sy_console = demo_console,
     sy_kbd = kbd_boot,
     sy_mem = (\<lambda>_. 0)\<rparr>"

definition demo_env :: machine_env where
  "demo_env = \<lparr>me_env = \<lparr>ce_display = demo_display, ce_fill = (\<lambda>_. 0), ce_range = 0x9000, ce_irqs = [], ce_rax = 0xFFFFFFFFFFFFFFFF\<rparr>,
     me_table = init_syscall_table Map.empty, me_clobber = (\<lambda>g. g\<lparr>r_rbx := 7, r_rdi := 9\<rparr>)\<rparr>"

definition demo_regs :: InterruptState where
  "demo_regs = zero_state\<lparr>r_cs := 0x23, r_ss := 0x1B, r_rsp := 0x7000, r_rip := 0x400000, r_rbx := 5\<rparr>"

lemma demo_user: "user_mode demo_regs demo_system" "me_table demo_env = init_syscall_table Map.empty"
  by (simp_all add: user_mode_def star_def demo_system_def demo_regs_def msr_read_write USER_CODE_64_def USER_DATA_64_def demo_env_def)

lemma demo_caller: "mmap_anon_base (current (kernel_view demo_regs demo_system)) = 0x50000"
proof -
  have "current (kernel_view demo_regs demo_system) = demo_user_task\<lparr>user_stack := r_rsp demo_regs\<rparr>"
    by (simp add: kernel_view_def Let_def current_def sys_swapgs_def demo_system_def set_current_def running_def)
  then show ?thesis by (simp add: demo_user_task_def)
qed

theorem api_calls_reach_kernel_witness:
  "\<exists>s'. no_regs (api_mmap demo_env 0 4096 3 9 0 0 (demo_regs, demo_system)) = rret (0x50000, s')"
proof -
  have r: "fst (syscall_mmap fresh pm base 4096 3 9 v) = base" for fresh pm base v
    by (simp add: syscall_mmap_def MAP_PRIVATE_def MAP_SHARED_def MAP_ANONYMOUS_def Let_def)
  show ?thesis
    using api_calls_reach_kernel [OF demo_user(2,1) refl refl, of 0 0 0 0 4096 0 0 0 3 9] r demo_caller
    by (auto simp: split: prod.splits) (metis fst_conv)
qed

theorem syscall_transparent_witness:
  "case trap demo_env (demo_regs\<lparr>r_rax := 12\<rparr>, demo_system) of
     Some (Returns (Back (v, g', s'))) \<Rightarrow> v = - 1051 \<and> r_rbx g' = 5 \<and> r_rsp g' = 0x7000 | _ \<Rightarrow> False"
  using syscall_transparent [OF demo_user(2), of "demo_regs\<lparr>r_rax := 12\<rparr>" demo_system] demo_user(1)
  by (auto simp: demo_regs_def split: option.splits outcome.splits call.splits)

end
