(* ===== verification/Userland.thy ===== *)
theory Userland
  imports Syscalls
begin

text \<open>
  The library of the test program: \<^verbatim>\<open>userspace/test/src/string.cpp\<close> and \<^verbatim>\<open>userspace/test/src/print.cpp\<close>. The string functions
  that are the kernel's own code again (\<^verbatim>\<open>strlen\<close>, \<^verbatim>\<open>strcmp\<close>, \<^verbatim>\<open>strncmp\<close>) are the kernel's definitions; the memory
  routines, assembly in the kernel and loops here, are shown to agree. Output is collected in \<^verbatim>\<open>print_buffer\<close>, whose
  address is the parameter \<open>pb\<close>, and goes through the system call path of \<open>Syscalls\<close> to the console.
\<close>

section \<open>Error codes\<close>

text \<open>The table of \<^verbatim>\<open>userspace/test/src/posix.hpp\<close>; a program reads an error as the kernel wrote it.\<close>

definition user_errno_table :: "(string \<times> nat) list" where
  "user_errno_table =
    [(''EDOM'', 1), (''EILSEQ'', 2), (''ERANGE'', 3), (''E2BIG'', 1001),
     (''EACCES'', 1002), (''EADDRINUSE'', 1003), (''EADDRNOTAVAIL'', 1004), (''EAFNOSUPPORT'', 1005),
     (''EAGAIN'', 1006), (''EALREADY'', 1007), (''EBADF'', 1008), (''EBADMSG'', 1009),
     (''EBUSY'', 1010), (''ECANCELED'', 1011), (''ECHILD'', 1012), (''ECONNABORTED'', 1013),
     (''ECONNREFUSED'', 1014), (''ECONNRESET'', 1015), (''EDEADLK'', 1016), (''EDESTADDRREQ'', 1017),
     (''EDQUOT'', 1018), (''EEXIST'', 1019), (''EFAULT'', 1020), (''EFBIG'', 1021),
     (''EHOSTUNREACH'', 1022), (''EIDRM'', 1023), (''EINPROGRESS'', 1024), (''EINTR'', 1025),
     (''EINVAL'', 1026), (''EIO'', 1027), (''EISCONN'', 1028), (''EISDIR'', 1029),
     (''ELOOP'', 1030), (''EMFILE'', 1031), (''EMLINK'', 1032), (''EMSGSIZE'', 1034),
     (''EMULTIHOP'', 1035), (''ENAMETOOLONG'', 1036), (''ENETDOWN'', 1037), (''ENETRESET'', 1038),
     (''ENETUNREACH'', 1039), (''ENFILE'', 1040), (''ENOBUFS'', 1041), (''ENODEV'', 1042),
     (''ENOENT'', 1043), (''ENOEXEC'', 1044), (''ENOLCK'', 1045), (''ENOLINK'', 1046),
     (''ENOMEM'', 1047), (''ENOMSG'', 1048), (''ENOPROTOOPT'', 1049), (''ENOSPC'', 1050),
     (''ENOSYS'', 1051), (''ENOTCONN'', 1052), (''ENOTDIR'', 1053), (''ENOTEMPTY'', 1054),
     (''ENOTRECOVERABLE'', 1055), (''ENOTSOCK'', 1056), (''ENOTSUP'', 1057), (''ENOTTY'', 1058),
     (''ENXIO'', 1059), (''EOPNOTSUPP'', 1060), (''EOVERFLOW'', 1061), (''EOWNERDEAD'', 1062),
     (''EPERM'', 1063), (''EPIPE'', 1064), (''EPROTO'', 1065), (''EPROTONOSUPPORT'', 1066),
     (''EPROTOTYPE'', 1067), (''EROFS'', 1068), (''ESPIPE'', 1069), (''ESRCH'', 1070),
     (''ESTALE'', 1071), (''ETIMEDOUT'', 1072), (''ETXTBSY'', 1073), (''EWOULDBLOCK'', 1006),
     (''EXDEV'', 1075), (''ENODATA'', 1076), (''ETIME'', 1077), (''ENOKEY'', 1078),
     (''ESHUTDOWN'', 1079), (''EHOSTDOWN'', 1080), (''EBADFD'', 1081), (''ENOMEDIUM'', 1082),
     (''ENOTBLK'', 1083), (''ENONET'', 1084), (''EPFNOSUPPORT'', 1085), (''ESOCKTNOSUPPORT'', 1086),
     (''ESTRPIPE'', 1087), (''EREMOTEIO'', 1088), (''ERFKILL'', 1089), (''EBADR'', 1090),
     (''EUNATCH'', 1091), (''EMEDIUMTYPE'', 1092), (''EREMOTE'', 1093), (''EKEYREJECTED'', 1094),
     (''EUCLEAN'', 1095), (''EBADSLT'', 1096), (''ENOANO'', 1097), (''ENOCSI'', 1098),
     (''ENOSTR'', 1099), (''ETOOMANYREFS'', 1100), (''ENOPKG'', 1101), (''EKEYREVOKED'', 1102),
     (''EXFULL'', 1103), (''ELNRNG'', 1104), (''ENOTUNIQ'', 1105), (''ERESTART'', 1106),
     (''EUSERS'', 1107), (''ECHRNG'', 1108), (''ELIBBAD'', 1109), (''EL2HLT'', 1110),
     (''EL3HLT'', 1111), (''EKEYEXPIRED'', 1112), (''ECOMM'', 1113), (''EBADE'', 1114),
     (''EHWPOISON'', 1115), (''EBADRQC'', 1116)]"

lemma user_errno_agrees: "map_of user_errno_table = map_of errno_table"
  by (simp only: user_errno_table_def errno_table_def)

section \<open>Strings\<close>

function u_memcmp_loop :: "memory \<Rightarrow> uptr \<Rightarrow> uptr \<Rightarrow> usize \<Rightarrow> usize \<Rightarrow> u32" where
  "u_memcmp_loop m a b i n =
     (if i < n then
        if m (a + i) < m (b + i) then -1
        else if m (b + i) < m (a + i) then 1
        else u_memcmp_loop m a b (i + 1) n
      else 0)"
  by pat_completeness auto
termination
  by (relation "measure (\<lambda>(m, a, b, i, n). unat n - unat i)") (auto simp: word_less_nat_alt unat_inc)

declare u_memcmp_loop.simps [simp del]

definition u_memcmp :: "memory \<Rightarrow> uptr \<Rightarrow> uptr \<Rightarrow> usize \<Rightarrow> u32" where
  "u_memcmp m lhs rhs n = u_memcmp_loop m lhs rhs 0 n"

definition u_memcpy :: "memory \<Rightarrow> uptr \<Rightarrow> uptr \<Rightarrow> usize \<Rightarrow> memory" where
  "u_memcpy m dst src n = for_range (\<lambda>i m. m(dst + i := m (src + i))) 0 n m"

function u_copy_down :: "uptr \<Rightarrow> uptr \<Rightarrow> usize \<Rightarrow> memory \<Rightarrow> memory" where
  "u_copy_down dst src i m = (if i \<noteq> 0 then u_copy_down dst src (i - 1) (m(dst + (i - 1) := m (src + (i - 1)))) else m)"
  by pat_completeness auto
termination
  by (relation "measure (\<lambda>(dst, src, i, m). unat i)") (auto simp: unat_gt_0 unat_minus_one)

declare u_copy_down.simps [simp del]

definition u_memmove :: "memory \<Rightarrow> uptr \<Rightarrow> uptr \<Rightarrow> usize \<Rightarrow> memory" where
  "u_memmove m dst src n =
     (if dst < src then for_range (\<lambda>i m. m(dst + i := m (src + i))) 0 n m else u_copy_down dst src n m)"

definition u_memset :: "memory \<Rightarrow> uptr \<Rightarrow> u8 \<Rightarrow> usize \<Rightarrow> memory" where
  "u_memset m dst v n = for_range (\<lambda>i m. m(dst + i := v)) 0 n m"

definition u_strlen :: "memory \<Rightarrow> uptr \<Rightarrow> usize option" where
  "u_strlen m str = strlen m str"

definition u_strcpy :: "memory \<Rightarrow> uptr \<Rightarrow> uptr \<Rightarrow> memory option" where
  "u_strcpy m dst src = do { n \<leftarrow> u_strlen m src; Some (u_memcpy m dst src (n + 1)) }"

definition u_strcat :: "memory \<Rightarrow> uptr \<Rightarrow> uptr \<Rightarrow> memory option" where
  "u_strcat m dst src = do { n \<leftarrow> u_strlen m dst; u_strcpy m (dst + n) src }"

definition u_strcmp :: "memory \<Rightarrow> uptr \<Rightarrow> uptr \<Rightarrow> u32 option" where
  "u_strcmp m lhs rhs = strcmp m lhs rhs"

definition u_strncmp :: "memory \<Rightarrow> uptr \<Rightarrow> uptr \<Rightarrow> usize \<Rightarrow> u32" where
  "u_strncmp m lhs rhs cnt = strncmp m lhs rhs cnt"

lemma u_copy_up: "for_range (\<lambda>i m. m(dst + i := m (src + i))) i n m = rep_movsb m (dst + i) (src + i) (unat n - unat i)" for m :: memory
proof (induction "\<lambda>i m. m(dst + i := m (src + i)) :: memory" i n m rule: for_range.induct)
  case (1 i n m)
  show ?case
  proof (cases "i < n")
    case True
    then have "unat n - unat i = Suc (unat n - unat (i + 1))" by (simp add: unat_inc word_less_nat_alt)
    then show ?thesis using True 1 by (subst for_range.simps) (simp add: add.assoc)
  qed (subst for_range.simps, simp add: word_less_nat_alt)
qed

lemma u_fill: "for_range (\<lambda>i m. m(dst + i := v)) i n m = rep_stosb m (dst + i) v (unat n - unat i)"
proof (induction "\<lambda>i m. m(dst + i := v)" i n m rule: for_range.induct)
  case (1 i n m)
  show ?case
  proof (cases "i < n")
    case True
    then have "unat n - unat i = Suc (unat n - unat (i + 1))" by (simp add: unat_inc word_less_nat_alt)
    then show ?thesis using True 1 by (subst for_range.simps) (simp add: add.assoc)
  qed (subst for_range.simps, simp add: word_less_nat_alt)
qed

lemma u_copy_down_rep: "u_copy_down dst src i m = rep_movsb_down m (dst + i - 1) (src + i - 1) (unat i)"
proof (induction dst src i m rule: u_copy_down.induct)
  case (1 dst src i m)
  show ?case
  proof (cases "i = 0")
    case False
    then have "unat i = Suc (unat (i - 1))" by (simp add: unat_minus_one unat_gt_0)
    then show ?thesis using 1 False by (subst u_copy_down.simps) (simp add: add_diff_eq fun_upd_def)
  qed (subst u_copy_down.simps, simp)
qed

lemma u_memcmp_loop_spec:
  "u_memcmp_loop m a b i n = r \<Longrightarrow>
     (r = 0 \<and> (\<forall>j. i \<le> j \<and> j < n \<longrightarrow> m (a + j) = m (b + j))) \<or>
     (\<exists>j. i \<le> j \<and> j < n \<and> (\<forall>j'. i \<le> j' \<and> j' < j \<longrightarrow> m (a + j') = m (b + j')) \<and>
        (r = -1 \<and> m (a + j) < m (b + j) \<or> r = 1 \<and> m (b + j) < m (a + j)))"
proof (induction m a b i n rule: u_memcmp_loop.induct)
  case (1 m a b i n)
  consider "\<not> i < n" | "i < n" "m (a + i) < m (b + i)" | "i < n" "m (b + i) < m (a + i)" | "i < n" "m (a + i) = m (b + i)"
    by (metis linorder_less_linear)
  then show ?case
  proof cases
    case 1
    then have "r = 0" using "1.prems" by (subst (asm) u_memcmp_loop.simps) simp
    then show ?thesis using 1 by auto
  next
    case 2
    then have "r = -1" using "1.prems" by (subst (asm) u_memcmp_loop.simps) simp
    then show ?thesis using 2 by (intro disjI2 exI [of _ i]) auto
  next
    case 3
    then have "r = 1" using "1.prems" by (subst (asm) u_memcmp_loop.simps) auto
    then show ?thesis using 3 by (intro disjI2 exI [of _ i]) auto
  next
    case 4
    have step: "i \<le> j \<longleftrightarrow> j = i \<or> i + 1 \<le> j" for j
      using unat_inc [OF 4(1)] unfolding word_le_nat_alt word_unat_eq_iff by linarith
    from 4 have "u_memcmp_loop m a b (i + 1) n = r" using "1.prems" by (subst (asm) u_memcmp_loop.simps) simp
    then consider "r = 0 \<and> (\<forall>j. i + 1 \<le> j \<and> j < n \<longrightarrow> m (a + j) = m (b + j))"
      | j where "i + 1 \<le> j" "j < n" "\<forall>j'. i + 1 \<le> j' \<and> j' < j \<longrightarrow> m (a + j') = m (b + j')"
          "r = -1 \<and> m (a + j) < m (b + j) \<or> r = 1 \<and> m (b + j) < m (a + j)"
      using 1(1) 4 by auto
    then show ?thesis
    proof cases
      case 1
      then have "m (a + j) = m (b + j)" if "i \<le> j" "j < n" for j using that 4(2) step [of j] by auto
      then show ?thesis using 1 by simp
    next
      case (2 j)
      then have "m (a + j') = m (b + j')" if "i \<le> j'" "j' < j" for j' using that 4(2) step [of j'] by auto
      moreover have "i \<le> j" using 2(1) step [of j] by simp
      ultimately show ?thesis using 2(2,4) by blast
    qed
  qed
qed

lemma word_index: "(\<forall>j::usize. j < n \<longrightarrow> P (unat j)) \<longleftrightarrow> (\<forall>i < unat n. P i)"
proof
  assume h: "\<forall>j. j < n \<longrightarrow> P (unat j)"
  show "\<forall>i < unat n. P i"
  proof (intro allI impI)
    fix i assume i: "i < unat n"
    then have u: "unat (of_nat i :: usize) = i" using unat_64 [of n] by (intro unat_of_nat_small) simp
    then show "P i" using h i by (metis word_less_nat_alt)
  qed
qed (simp add: word_less_nat_alt)


definition demo_bytes :: memory where
  "demo_bytes = (\<lambda>_. 0)(9 := 200)"


section \<open>Buffered output\<close>

record process =
  pr_user :: user
  print_buffer_index :: usize

definition p_mem :: "process \<Rightarrow> memory" where
  "p_mem p = sy_mem (snd (pr_user p))"

definition flush_print_buffer :: "machine_env \<Rightarrow> uptr \<Rightarrow> process \<Rightarrow> process run" where
  "flush_print_buffer M pb p =
     (if print_buffer_index p = 0 then rret p
      else rbind (api_write M 1 pb (print_buffer_index p) (pr_user p)) (\<lambda>u. rret (p\<lparr>pr_user := u, print_buffer_index := 0\<rparr>)))"

definition set_byte :: "uptr \<Rightarrow> u8 \<Rightarrow> process \<Rightarrow> process" where
  "set_byte a c p = (case pr_user p of (g, s) \<Rightarrow> p\<lparr>pr_user := (g, s\<lparr>sy_mem := (sy_mem s)(a := c)\<rparr>)\<rparr>)"

text \<open>\<^verbatim>\<open>putchar\<close> returns its argument.\<close>

definition u_putchar :: "machine_env \<Rightarrow> uptr \<Rightarrow> u8 \<Rightarrow> process \<Rightarrow> process run" where
  "u_putchar M pb c p =
     (let p1 = set_byte (pb + print_buffer_index p) c p;
          p2 = p1\<lparr>print_buffer_index := print_buffer_index p1 + 1\<rparr>
      in if print_buffer_index p2 = 1024 \<or> c = 10 then flush_print_buffer M pb p2 else rret p2)"

lemma rbind_mono [partial_function_mono]:
  assumes f: "monotone (fun_ord option_ord) option_ord B" and h: "\<And>y. monotone (fun_ord option_ord) option_ord (\<lambda>f. C y f)"
  shows "monotone (fun_ord option_ord) option_ord (\<lambda>f. rbind (B f) (\<lambda>y. C y f))"
  unfolding rbind_def
proof (rule bind_mono [OF f], goal_cases)
  case (1 x)
  show ?case
  proof (cases x)
    case (Returns y)
    then show ?thesis by (cases y) (simp_all add: h option.const_mono)
  qed (simp add: option.const_mono)
qed

text \<open>\<^verbatim>\<open>while (*str) putchar(*(str++))\<close>, with the number of characters.\<close>

partial_function (option) u_put_cstr :: "machine_env \<Rightarrow> uptr \<Rightarrow> uptr \<Rightarrow> process \<Rightarrow> (u32 \<times> process) run" where
  "u_put_cstr M pb str p =
     (if p_mem p str \<noteq> 0
      then rbind (u_putchar M pb (p_mem p str) p) (\<lambda>p1. rbind (u_put_cstr M pb (str + 1) p1) (\<lambda>(n, p2). rret (1 + n, p2)))
      else rret (0, p))"

definition u_puts :: "machine_env \<Rightarrow> uptr \<Rightarrow> uptr \<Rightarrow> process \<Rightarrow> process run" where
  "u_puts M pb str p = rbind (u_put_cstr M pb str p) (\<lambda>(n, p1). u_putchar M pb 10 p1)"

primrec u_put_counted :: "machine_env \<Rightarrow> uptr \<Rightarrow> uptr \<Rightarrow> nat \<Rightarrow> process \<Rightarrow> process run" where
  "u_put_counted M pb str 0 p = rret p"
| "u_put_counted M pb str (Suc k) p = rbind (u_putchar M pb (p_mem p str) p) (u_put_counted M pb (str + 1) k)"

primrec u_put_all :: "machine_env \<Rightarrow> uptr \<Rightarrow> u8 list \<Rightarrow> process \<Rightarrow> process run" where
  "u_put_all M pb [] p = rret p"
| "u_put_all M pb (c # cs) p = rbind (u_putchar M pb c p) (u_put_all M pb cs)"

definition u_num_digits :: "u64 \<Rightarrow> u64 \<Rightarrow> usize option" where
  "u_num_digits x base = num_digits x base"

text \<open>What a conversion prints: characters computed from an argument, or a string read from memory while it is printed.\<close>

datatype conversion = Conv_chars "u8 list" u32 | Conv_string usize uptr

definition u_emit_number :: "(u64 \<Rightarrow> u8) \<Rightarrow> u64 \<Rightarrow> u64 \<Rightarrow> usize \<Rightarrow> (u8 list \<times> u32) option" where
  "u_emit_number digit base val pad =
     do {
       digits \<leftarrow> u_num_digits val base;
       let zeros = (if pad \<noteq> 0 \<and> pad > digits then pad - digits - 1 else 0);
       Some (replicate (unat zeros) 48 @
             map (\<lambda>di. digit ((((\<lambda>v. v div base) ^^ di) val) mod base)) (rev [0..<Suc (unat digits)]),
             ucast zeros + of_nat (Suc (unat digits)))
     }"

function u_spec_loop :: "u8 list \<Rightarrow> nat \<Rightarrow> spec_flags \<Rightarrow> u64 list \<Rightarrow> (conversion \<times> nat \<times> u64 list) option" where
  "u_spec_loop format i fl args =
     (case fch format i of
        None \<Rightarrow> None
      | Some c \<Rightarrow>
          if c = 35 then u_spec_loop format (i + 1) (fl\<lparr>alt_form := True\<rparr>) args
          else if c = 48 then
            (case (fch format (i + 1), fch format (i + 2)) of
               (Some c1, Some c2) \<Rightarrow>
                 if 48 \<le> sint c2 \<and> sint c2 \<le> 57
                 then u_spec_loop format (i + 3) (fl\<lparr>zero_pad := scast (char_digit c1 * 10 + char_digit c2)\<rparr>) args
                 else u_spec_loop format (i + 2) (fl\<lparr>zero_pad := scast (char_digit c1)\<rparr>) args
             | _ \<Rightarrow> None)
          else if c = 108 then u_spec_loop format (i + 1) (fl\<lparr>long_int := True\<rparr>) args
          else if c = 46 then
            (case fch format (i + 1) of
               None \<Rightarrow> None
             | Some c1 \<Rightarrow>
                 if c1 = 42 then (case args of [] \<Rightarrow> None | a # as \<Rightarrow> u_spec_loop format (i + 2) (fl\<lparr>s_length := a\<rparr>) as)
                 else u_spec_loop format (i + 1) fl args)
          else if c = 120 \<or> c = 88 then
            do {
              (val, rest) \<leftarrow> next_int (long_int fl) args;
              let used = (if c = 88 then high_digits else low_digits);
              (out, n) \<leftarrow> u_emit_number (\<lambda>d. used ! unat d) 16 val (zero_pad fl);
              Some (if alt_form fl then Conv_chars ([48, 120] @ out) (2 + n) else Conv_chars out n, i, rest)
            }
          else if c = 100 then
            do {
              (val, rest) \<leftarrow> next_int (long_int fl) args;
              (out, n) \<leftarrow> u_emit_number (\<lambda>d. ucast (48 + d)) 10 val (zero_pad fl);
              Some (Conv_chars out n, i, rest)
            }
          else if c = 115 then
            (case args of [] \<Rightarrow> None | a # as \<Rightarrow> Some (Conv_string (s_length fl) a, i, as))
          else None)"
  by pat_completeness auto
termination
  by (relation "measure (\<lambda>(format, i, fl, args). Suc (length format) - i)")
     (auto simp: fch_def split: if_splits)

declare u_spec_loop.simps [simp del]

definition u_put_conversion :: "machine_env \<Rightarrow> uptr \<Rightarrow> conversion \<Rightarrow> process \<Rightarrow> (u32 \<times> process) run" where
  "u_put_conversion M pb conv p =
     (case conv of
        Conv_chars cs n \<Rightarrow> rbind (u_put_all M pb cs p) (\<lambda>p1. rret (n, p1))
      | Conv_string len str \<Rightarrow>
          if len \<noteq> 0 then rbind (u_put_counted M pb str (unat len) p) (\<lambda>p1. rret (ucast len, p1))
          else u_put_cstr M pb str p)"

definition conv_out :: "memory \<Rightarrow> conversion \<Rightarrow> (u8 list \<times> u32) option" where
  "conv_out m conv = (case conv of Conv_chars cs n \<Rightarrow> Some (cs, n) | Conv_string len str \<Rightarrow> emit_string m len str)"

lemma u_emit_number_eq: "u_emit_number = emit_number"
  by (simp add: fun_eq_iff u_emit_number_def emit_number_def u_num_digits_def)

text \<open>The kernel's conversion loop is this one followed by the output.\<close>

lemma spec_loop_split:
  "spec_loop m format i fl args =
     do { (conv, i', args') \<leftarrow> u_spec_loop format i fl args; (out, n) \<leftarrow> conv_out m conv; Some (out, n, i', args') }"
proof (induction format i fl args rule: u_spec_loop.induct)
  case (1 format i fl args)
  show ?case
  proof (cases "fch format i")
    case None
    then show ?thesis by (simp add: spec_loop.simps [of m format i] u_spec_loop.simps [of format i])
  next
    case (Some c)
    consider "c = 35" | "c = 48" | "c = 108" | "c = 46" | "c = 120 \<or> c = 88" | "c = 100" | "c = 115"
      | "c \<notin> {35, 48, 108, 46, 120, 88, 100, 115}" by blast
    then show ?thesis
    proof cases
      case 2
      then show ?thesis using Some 1
        by (simp add: spec_loop.simps [of m format i] u_spec_loop.simps [of format i] split: option.splits)
    next
      case 4
      then show ?thesis using Some 1
        by (simp add: spec_loop.simps [of m format i] u_spec_loop.simps [of format i] split: option.splits list.splits)
    next
      case 5
      obtain d where "(\<lambda>d. (if c = 88 then high_digits else low_digits) ! unat d) = (d :: u64 \<Rightarrow> u8)" by blast
      then show ?thesis using Some 5
        by (cases "next_int (long_int fl) args"; cases "emit_number d 16 (fst (the (next_int (long_int fl) args))) (zero_pad fl)")
           (auto simp: spec_loop.simps [of m format i] u_spec_loop.simps [of format i] u_emit_number_eq conv_out_def Let_def split: prod.splits)
    next
      case 6
      then show ?thesis using Some
        by (cases "next_int (long_int fl) args"; cases "emit_number (\<lambda>d. ucast (48 + d)) 10 (fst (the (next_int (long_int fl) args))) (zero_pad fl)")
           (auto simp: spec_loop.simps [of m format i] u_spec_loop.simps [of format i] u_emit_number_eq conv_out_def Let_def split: prod.splits)
    next
      case 7
      then show ?thesis using Some
        by (cases args) (simp_all add: spec_loop.simps [of m format i] u_spec_loop.simps [of format i] conv_out_def)
    qed (use Some 1 in \<open>simp_all add: spec_loop.simps [of m format i] u_spec_loop.simps [of format i]\<close>)
  qed
qed

lemma u_spec_loop_position: "u_spec_loop format i fl args = Some (conv, i', args') \<Longrightarrow> i \<le> i' \<and> i' < length format"
proof -
  assume u: "u_spec_loop format i fl args = Some (conv, i', args')"
  have "strlen (\<lambda>_. 0) a = Some 0" for a by (simp add: strlen_def strlen_from.simps)
  then have "conv_out (\<lambda>_. 0) conv \<noteq> None" by (cases conv) (simp_all add: conv_out_def emit_string_def)
  then obtain out n where "conv_out (\<lambda>_. 0) conv = Some (out, n)" by auto
  then have "spec_loop (\<lambda>_. 0) format i fl args = Some (out, n, i', args')" using u by (simp add: spec_loop_split)
  then show ?thesis by (rule spec_loop_position)
qed

lemma rbind_fundef_cong [fundef_cong]: "r = r' \<Longrightarrow> (\<And>a. r' = rret a \<Longrightarrow> f a = h a) \<Longrightarrow> rbind r f = rbind r' h"
  using rbind_cong by blast

function u_vprintf_loop :: "machine_env \<Rightarrow> uptr \<Rightarrow> u8 list \<Rightarrow> nat \<Rightarrow> u64 list \<Rightarrow> process \<Rightarrow> (u32 \<times> process) run" where
  "u_vprintf_loop M pb format i args p =
     (case fch format i of
        None \<Rightarrow> None
      | Some c \<Rightarrow>
          if c = 0 then rret (0, p)
          else if c = 37 then
            (case u_spec_loop format (i + 1) no_flags args of
               None \<Rightarrow> None
             | Some (conv, i', args') \<Rightarrow>
                 rbind (u_put_conversion M pb conv p) (\<lambda>(n, p1).
                   rbind (u_vprintf_loop M pb format (i' + 1) args' p1) (\<lambda>(n', p2). rret (n + n', p2))))
          else rbind (u_putchar M pb c p) (\<lambda>p1.
                 rbind (u_vprintf_loop M pb format (i + 1) args p1) (\<lambda>(n', p2). rret (1 + n', p2))))"
  by pat_completeness auto
termination
  by (relation "measure (\<lambda>(M, pb, format, i, args, p). Suc (length format) - i)")
     (auto simp: fch_def split: if_splits dest!: u_spec_loop_position)

declare u_vprintf_loop.simps [simp del]

definition u_vprintf :: "machine_env \<Rightarrow> uptr \<Rightarrow> u8 list \<Rightarrow> u64 list \<Rightarrow> process \<Rightarrow> (u32 \<times> process) run" where
  "u_vprintf M pb format args p = u_vprintf_loop M pb format 0 args p"

definition u_printf :: "machine_env \<Rightarrow> uptr \<Rightarrow> u8 list \<Rightarrow> u64 list \<Rightarrow> process \<Rightarrow> (u32 \<times> process) run" where
  "u_printf M pb format args p = u_vprintf M pb format args p"

section \<open>Output reaches the console\<close>

definition caller :: "system \<Rightarrow> Task" where
  "caller s = sc_task (sy_sched s) (read_kernel_gs_base (sc_cpu (sy_sched s)))"

definition proc_ok :: "machine_env \<Rightarrow> process \<Rightarrow> bool" where
  "proc_ok M p \<longleftrightarrow> (\<exists>tab. me_table M = init_syscall_table tab) \<and> user_mode (fst (pr_user p)) (snd (pr_user p)) \<and>
     console_ok (ce_display (me_env M)) (sy_console (snd (pr_user p))) \<and>
     2 \<le> length (file_descriptors (caller (snd (pr_user p)))) \<and> length (file_descriptors (caller (snd (pr_user p)))) < 2 ^ 31 \<and>
     unat (print_buffer_index p) < 1024"

definition unflushed :: "uptr \<Rightarrow> process \<Rightarrow> u8 list" where
  "unflushed pb p = map (\<lambda>i. p_mem p (pb + of_nat i)) [0..<unat (print_buffer_index p)]"

definition printed :: "process \<Rightarrow> u8 list" where
  "printed p = serial (sy_console (snd (pr_user p)))"

text \<open>What printing leaves alone: the file system, the descriptors and the mappings of the task, and all memory but the buffer.\<close>

definition printing_only :: "uptr \<Rightarrow> process \<Rightarrow> process \<Rightarrow> bool" where
  "printing_only pb p p' \<longleftrightarrow> sy_vfs (snd (pr_user p')) = sy_vfs (snd (pr_user p)) \<and>
     file_descriptors (caller (snd (pr_user p'))) = file_descriptors (caller (snd (pr_user p))) \<and>
     mmap_anon_base (caller (snd (pr_user p'))) = mmap_anon_base (caller (snd (pr_user p))) \<and>
     (\<forall>a. 1024 \<le> a - pb \<longrightarrow> p_mem p' a = p_mem p a)"

lemma printing_only_trans: "printing_only pb p p1 \<Longrightarrow> printing_only pb p1 p2 \<Longrightarrow> printing_only pb p p2"
  by (auto simp: printing_only_def)

lemma printing_only_refl [simp]: "printing_only pb p p"
  by (simp add: printing_only_def)

text \<open>\<^verbatim>\<open>printf("%.*s", count, buf)\<close> in the kernel.\<close>

lemma vprintf_counted:
  fixes cnt :: usize
  assumes "cnt \<noteq> 0" "unat cnt < 2 ^ 32"
  shows "vprintf_loop m print_counted 0 [ucast (ucast cnt :: u32), buf] = Some (map (\<lambda>i. m (buf + of_nat i)) [0..<unat cnt], ucast cnt)"
proof -
  have "unat (ucast (ucast cnt :: u32) :: usize) = unat cnt"
    using assms(2) by (simp add: unat_ucast_32_64) (simp add: unsigned_ucast_eq take_bit_nat_eq_self)
  then have c: "ucast (ucast cnt :: u32) = cnt" by (simp only: word_unat_eq_iff)
  have f: "fch print_counted 0 = Some 37" "fch print_counted (Suc 0) = Some 46" "fch print_counted 2 = Some 42"
    "fch print_counted 3 = Some 115" "fch print_counted 4 = Some 0" by (simp_all add: fch_def print_counted_def)
  have "spec_loop m print_counted 1 no_flags [cnt, buf] = Some (map (\<lambda>i. m (buf + of_nat i)) [0..<unat cnt], ucast cnt, 3, [])"
    using assms(1) by (simp add: spec_loop.simps [of m print_counted "Suc 0"] spec_loop.simps [of m print_counted 3] f
        emit_string_def numeral_3_eq_3 [symmetric] numeral_2_eq_2 [symmetric] no_flags_def)
  then show ?thesis by (simp add: vprintf_loop.simps [of m print_counted 0] vprintf_loop.simps [of m print_counted 4] c f)
qed

lemma api_write_console:
  assumes ok: "proc_ok M p" and u: "pr_user p = (g, s)" and cnt: "cnt \<noteq> 0" "unat cnt \<le> 1024"
  obtains g' s' where "api_write M 1 buf cnt (g, s) = rret (g', s')" "user_mode g' s'" "sc_cpu (sy_sched s') = sc_cpu (sy_sched s)"
    "console_ok (ce_display (me_env M)) (sy_console s')" "file_descriptors (caller s') = file_descriptors (caller s)"
    "mmap_anon_base (caller s') = mmap_anon_base (caller s)"
    "serial (sy_console s') = serial (sy_console s) @ map (\<lambda>i. sy_mem s (buf + of_nat i)) [0..<unat cnt]"
    "sy_mem s' = sy_mem s" "sy_vfs s' = sy_vfs s"
proof -
  obtain tab where M: "me_table M = init_syscall_table tab" and um: "user_mode g s" and con: "console_ok (ce_display (me_env M)) (sy_console s)"
    and fds: "2 \<le> length (file_descriptors (caller s))" "length (file_descriptors (caller s)) < 2 ^ 31"
    using ok u by (auto simp: proc_ok_def)
  let ?k = "kernel_view g s" and ?out = "map (\<lambda>i. sy_mem s (buf + of_nat i)) [0..<unat cnt]"
  have k: "file_descriptors (current ?k) = file_descriptors (caller s)" "mmap_anon_base (current ?k) = mmap_anon_base (caller s)"
    by (simp_all add: kernel_view_def Let_def caller_def current_def sys_swapgs_def running_def set_current_def)
  obtain c' where c': "put_all (ce_display (me_env M)) ?out (sy_console s) = Some c'" "console_ok (ce_display (me_env M)) c'"
    "serial c' = serial (sy_console s) @ ?out" using put_all_returns [OF con] by blast
  have "\<not> bad_fd (current ?k) 1" using fds by (simp add: bad_fd_iff k)
  then have w: "syscall_write (ce_display (me_env M)) (ce_fill (me_env M)) (sy_vfs s) (current ?k) (sy_console s) (sy_mem s) 1 buf cnt =
      Some (Returns (sy_vfs s, current ?k, c'))"
    using cnt c'(1) by (simp add: syscall_write_def vprintf_def vprintf_counted)
  let ?g = "user_view (ce_rax (me_env M)) (g\<lparr>r_rax := 6, r_rdi := scast (1 :: u32), r_rsi := buf, r_rdx := cnt\<rparr>)"
  let ?s = "sys_swapgs ((set_current (current ?k) ?k)\<lparr>sy_vfs := sy_vfs s, sy_console := c'\<rparr>)"
  show ?thesis
  proof (rule that [of ?g ?s])
    show "api_write M 1 buf cnt (g, s) = rret (?g, ?s)"
      using w by (simp add: api_write_def api_rules M um lift_run_def ret_rax_def rret_def [symmetric])
    show "user_mode ?g ?s" using um by (simp add: user_mode_def user_view_def star_def sys_swapgs_def)
    show "file_descriptors (caller ?s) = file_descriptors (caller s)" "mmap_anon_base (caller ?s) = mmap_anon_base (caller s)"
      using k by (simp_all add: caller_def sys_swapgs_def set_current_def current_def running_def)
  qed (use c' in \<open>simp_all add: sys_swapgs_def set_current_def\<close>)
qed

lemma flush_ok:
  assumes ok: "proc_ok M (p\<lparr>print_buffer_index := 0\<rparr>)" and i: "unat (print_buffer_index p) \<le> 1024"
  shows "\<exists>p'. flush_print_buffer M pb p = rret p' \<and> proc_ok M p' \<and> printed p' = printed p @ unflushed pb p \<and>
     print_buffer_index p' = 0 \<and> printing_only pb p p'"
proof (cases "print_buffer_index p = 0")
  case True
  then show ?thesis using ok True by (simp add: flush_print_buffer_def unflushed_def proc_ok_def)
next
  case False
  obtain g s where u: "pr_user p = (g, s)" by fastforce
  then have u0: "pr_user (p\<lparr>print_buffer_index := 0\<rparr>) = (g, s)" by simp
  obtain g' s' where "api_write M 1 pb (print_buffer_index p) (g, s) = rret (g', s')" "user_mode g' s'"
    "sc_cpu (sy_sched s') = sc_cpu (sy_sched s)"
    "console_ok (ce_display (me_env M)) (sy_console s')" "file_descriptors (caller s') = file_descriptors (caller s)"
    "mmap_anon_base (caller s') = mmap_anon_base (caller s)"
    "serial (sy_console s') = serial (sy_console s) @ map (\<lambda>j. sy_mem s (pb + of_nat j)) [0..<unat (print_buffer_index p)]"
    "sy_mem s' = sy_mem s" "sy_vfs s' = sy_vfs s"
    by (rule api_write_console [OF ok u0 False i]) (rule that; assumption)
  then show ?thesis using False ok u
    by (intro exI [of _ "p\<lparr>pr_user := (g', s'), print_buffer_index := 0\<rparr>"])
       (simp add: flush_print_buffer_def proc_ok_def printed_def unflushed_def p_mem_def printing_only_def)
qed

lemma caller_mem [simp]: "caller (s\<lparr>sy_mem := m\<rparr>) = caller s" "star (s\<lparr>sy_mem := m\<rparr>) = star s"
  by (simp_all add: caller_def star_def)

text \<open>\<open>p'\<close> is \<open>p\<close> after printing \<open>cs\<close>.\<close>

definition put_ok :: "machine_env \<Rightarrow> uptr \<Rightarrow> process \<Rightarrow> u8 list \<Rightarrow> process \<Rightarrow> bool" where
  "put_ok M pb p cs p' \<longleftrightarrow> proc_ok M p' \<and> printed p' @ unflushed pb p' = printed p @ unflushed pb p @ cs \<and> printing_only pb p p' \<and>
     (if cs = [] then unflushed pb p' = unflushed pb p else last cs = 10 \<longrightarrow> unflushed pb p' = [])"

lemma put_ok_refl: "proc_ok M p \<Longrightarrow> put_ok M pb p [] p"
  by (simp add: put_ok_def)

lemma put_ok_trans: "put_ok M pb p cs p1 \<Longrightarrow> put_ok M pb p1 ds p2 \<Longrightarrow> put_ok M pb p (cs @ ds) p2"
  unfolding put_ok_def by (cases "ds = []") (auto intro: printing_only_trans split: if_splits)

lemma put_ok_proc: "put_ok M pb p cs p' \<Longrightarrow> proc_ok M p'"
  by (simp add: put_ok_def)

lemma put_ok_mem: "put_ok M pb p cs p' \<Longrightarrow> 1024 \<le> a - pb \<Longrightarrow> p_mem p' a = p_mem p a"
  by (simp add: put_ok_def printing_only_def)

lemma u_putchar_ok:
  assumes ok: "proc_ok M p"
  shows "\<exists>p'. u_putchar M pb c p = rret p' \<and> put_ok M pb p [c] p'"
proof -
  obtain g s where u: "pr_user p = (g, s)" by fastforce
  let ?i = "print_buffer_index p"
  let ?p = "p\<lparr>pr_user := (g, s\<lparr>sy_mem := (sy_mem s)(pb + ?i := c)\<rparr>), print_buffer_index := ?i + 1\<rparr>"
  have i: "unat ?i < 1024" using ok by (simp add: proc_ok_def)
  have inc: "unat (?i + 1) = Suc (unat ?i)" by (rule unat_inc [of _ 1024]) (use i in \<open>simp add: word_less_nat_alt\<close>)
  have put: "u_putchar M pb c p = (if ?i + 1 = 1024 \<or> c = 10 then flush_print_buffer M pb ?p else rret ?p)"
    by (simp add: u_putchar_def set_byte_def u Let_def)
  have "(of_nat j :: usize) \<noteq> ?i" if "j < unat ?i" for j
  proof -
    have "unat (of_nat j :: usize) = j" using that i by (intro unat_of_nat_small) simp
    then show ?thesis using that by auto
  qed
  then have pend: "unflushed pb ?p = unflushed pb p @ [c]" using u by (simp add: unflushed_def inc p_mem_def)
  have only: "printing_only pb p ?p"
    using u i by (auto simp: printing_only_def p_mem_def word_le_nat_alt)
  have ok0: "proc_ok M (?p\<lparr>print_buffer_index := 0\<rparr>)" and pr: "printed ?p = printed p"
    using ok u by (simp_all add: proc_ok_def user_mode_def printed_def)
  show ?thesis
  proof (cases "?i + 1 = 1024 \<or> c = 10")
    case True
    obtain p' where p': "flush_print_buffer M pb ?p = rret p'" "proc_ok M p'" "printed p' = printed ?p @ unflushed pb ?p"
        "print_buffer_index p' = 0" "printing_only pb ?p p'"
      using flush_ok [OF ok0] i inc by auto
    then have "put_ok M pb p [c] p'"
      using pend pr printing_only_trans [OF only] by (simp add: put_ok_def unflushed_def)
    then show ?thesis using True p'(1) put by simp
  next
    case False
    then have "unat ?i + 1 \<noteq> 1024" using inc by (auto simp: word_unat_eq_iff)
    then have "proc_ok M ?p" using ok0 i inc by (simp add: proc_ok_def)
    then have "put_ok M pb p [c] ?p" using pend pr only False by (simp add: put_ok_def)
    then show ?thesis using False put by simp
  qed
qed

lemma u_put_all_ok: "proc_ok M p \<Longrightarrow> \<exists>p'. u_put_all M pb cs p = rret p' \<and> put_ok M pb p cs p'"
proof (induction cs arbitrary: p)
  case (Cons c cs)
  obtain p1 where p1: "u_putchar M pb c p = rret p1" "put_ok M pb p [c] p1" using u_putchar_ok [OF Cons.prems] by blast
  obtain p2 where "u_put_all M pb cs p1 = rret p2" "put_ok M pb p1 cs p2" using Cons.IH [OF put_ok_proc [OF p1(2)]] by blast
  then show ?case using p1(1) put_ok_trans [OF p1(2), of cs p2] by simp
qed (simp add: put_ok_refl)

lemma upt_shift: "map f [0..<Suc k] = f 0 # map (\<lambda>i. f (Suc i)) [0..<k]"
  by (simp add: upt_conv_Cons map_Suc_upt [symmetric] comp_def del: upt_Suc)

lemma u_put_counted_ok:
  "proc_ok M p \<Longrightarrow> (\<forall>i<k. 1024 \<le> str + of_nat i - pb) \<Longrightarrow>
     \<exists>p'. u_put_counted M pb str k p = rret p' \<and> put_ok M pb p (map (\<lambda>i. p_mem p (str + of_nat i)) [0..<k]) p'"
proof (induction k arbitrary: str p)
  case (Suc k)
  obtain p1 where p1: "u_putchar M pb (p_mem p str) p = rret p1" "put_ok M pb p [p_mem p str] p1"
    using u_putchar_ok [OF Suc.prems(1)] by blast
  have out: "1024 \<le> str + 1 + of_nat i - pb" if "i < k" for i
    using Suc.prems(2) [rule_format, of "Suc i"] that by (simp add: add.assoc)
  obtain p2 where p2: "u_put_counted M pb (str + 1) k p1 = rret p2"
      "put_ok M pb p1 (map (\<lambda>i. p_mem p1 (str + 1 + of_nat i)) [0..<k]) p2"
    using Suc.IH [OF put_ok_proc [OF p1(2)], of "str + 1"] out by blast
  have m: "map (\<lambda>i. p_mem p1 (str + 1 + of_nat i)) [0..<k] = map (\<lambda>i. p_mem p (str + 1 + of_nat i)) [0..<k]"
    using put_ok_mem [OF p1(2) out] by simp
  show ?case using p1(1) p2(1) put_ok_trans [OF p1(2) p2(2) [unfolded m]]
    by (simp add: upt_shift add.assoc del: upt_Suc)
qed (simp add: put_ok_refl)

lemma u_put_cstr_ok:
  "proc_ok M p \<Longrightarrow> (\<forall>i\<le>k. 1024 \<le> str + of_nat i - pb) \<Longrightarrow> (\<forall>i<k. p_mem p (str + of_nat i) \<noteq> 0) \<Longrightarrow> p_mem p (str + of_nat k) = 0 \<Longrightarrow>
     \<exists>p'. u_put_cstr M pb str p = rret (of_nat k, p') \<and> put_ok M pb p (map (\<lambda>i. p_mem p (str + of_nat i)) [0..<k]) p'"
proof (induction k arbitrary: str p)
  case 0
  then show ?case by (simp add: u_put_cstr.simps [of M pb str p] put_ok_refl)
next
  case (Suc k)
  obtain p1 where p1: "u_putchar M pb (p_mem p str) p = rret p1" "put_ok M pb p [p_mem p str] p1"
    using u_putchar_ok [OF Suc.prems(1)] by blast
  have out: "1024 \<le> str + 1 + of_nat i - pb" if "i \<le> k" for i
    using Suc.prems(2) [rule_format, of "Suc i"] that by (simp add: add.assoc)
  note same = put_ok_mem [OF p1(2) out]
  have nz: "p_mem p (str + 1 + of_nat i) \<noteq> 0" if "i < k" for i
    using Suc.prems(3) [rule_format, of "Suc i"] that by (simp add: add.assoc)
  obtain p2 where p2: "u_put_cstr M pb (str + 1) p1 = rret (of_nat k, p2)"
      "put_ok M pb p1 (map (\<lambda>i. p_mem p1 (str + 1 + of_nat i)) [0..<k]) p2"
    using Suc.IH [OF put_ok_proc [OF p1(2)], of "str + 1"] out nz same Suc.prems(4) by (auto simp: add.assoc)
  have m: "map (\<lambda>i. p_mem p1 (str + 1 + of_nat i)) [0..<k] = map (\<lambda>i. p_mem p (str + 1 + of_nat i)) [0..<k]"
    using same by simp
  have "p_mem p str \<noteq> 0" using Suc.prems(3) [rule_format, of 0] by simp
  then show ?case using p1(1) p2(1) put_ok_trans [OF p1(2) p2(2) [unfolded m]]
    by (simp add: u_put_cstr.simps [of M pb str p] upt_shift add.assoc del: upt_Suc)
qed

lemma strlen_from_Some:
  "strlen_from m str len = Some n \<Longrightarrow> (\<forall>j. j - len < n - len \<longrightarrow> m (str + j) \<noteq> 0) \<and> m (str + n) = 0"
proof (induction rule: strlen_from.raw_induct [rotated, consumes 1, where P = "\<lambda>m str len n.
     (\<forall>j. j - len < n - len \<longrightarrow> m (str + j) \<noteq> 0) \<and> m (str + n) = 0"])
  case (1 rec m str len n)
  show ?case
  proof (cases "m (str + len) = 0")
    case False
    then have IH: "(\<forall>j. j - (len + 1) < n - (len + 1) \<longrightarrow> m (str + j) \<noteq> 0) \<and> m (str + n) = 0" using 1 by simp
    then have n: "n \<noteq> len" using False by auto
    have "m (str + j) \<noteq> 0" if "j - len < n - len" for j
    proof (cases "j = len")
      case False
      then have "j - len \<noteq> 0" by simp
      then have "0 < unat (j - len)" by (rule unat_gt_0 [THEN iffD2])
      then have "j - (len + 1) < n - (len + 1)"
        using that False n by (simp add: word_less_nat_alt unat_minus_one_less)
      then show ?thesis using IH by blast
    qed (use False in simp)
    then show ?thesis using IH by blast
  qed (use 1 in simp)
qed

lemma strlen_Some:
  assumes "strlen m str = Some n"
  shows "\<forall>i < unat n. m (str + of_nat i) \<noteq> 0" "m (str + n) = 0"
  using strlen_from_Some [of m str 0 n] assms word_index [of n "\<lambda>i. m (str + of_nat i) \<noteq> 0"] by (simp_all add: strlen_def)

text \<open>A string argument, with its terminating zero, lies outside the buffer.\<close>

definition outside_buffer :: "uptr \<Rightarrow> memory \<Rightarrow> conversion \<Rightarrow> bool" where
  "outside_buffer pb m conv =
     (case conv of
        Conv_chars cs n \<Rightarrow> True
      | Conv_string len str \<Rightarrow>
          (case emit_string m len str of None \<Rightarrow> False | Some (out, n) \<Rightarrow> \<forall>i \<le> length out. 1024 \<le> str + of_nat i - pb))"

lemma u_put_conversion_ok:
  assumes ok: "proc_ok M p" and ns: "outside_buffer pb m conv" and out: "conv_out m conv = Some (out, n)"
    and same: "\<forall>a. 1024 \<le> a - pb \<longrightarrow> p_mem p a = m a"
  shows "\<exists>p'. u_put_conversion M pb conv p = rret (n, p') \<and> put_ok M pb p out p'"
proof (cases conv)
  case (Conv_chars cs k)
  then show ?thesis using u_put_all_ok [OF ok, of pb cs] out by (auto simp: conv_out_def u_put_conversion_def)
next
  case (Conv_string len str)
  have apart: "\<forall>i \<le> length out. 1024 \<le> str + of_nat i - pb" and e: "emit_string m len str = Some (out, n)"
    using ns out Conv_string by (simp_all add: outside_buffer_def conv_out_def)
  have mem: "p_mem p (str + of_nat i) = m (str + of_nat i)" if "i \<le> length out" for i using apart same that by blast
  show ?thesis
  proof (cases "len = 0")
    case False
    then have o: "out = map (\<lambda>i. m (str + of_nat i)) [0..<unat len]" "n = ucast len" using e by (simp_all add: emit_string_def)
    then have o': "out = map (\<lambda>i. p_mem p (str + of_nat i)) [0..<unat len]" using mem by simp
    have "\<forall>i < unat len. 1024 \<le> str + of_nat i - pb" using apart o by simp
    then show ?thesis using u_put_counted_ok [OF ok, of "unat len" str pb] False Conv_string o(2) o'
      by (auto simp: u_put_conversion_def)
  next
    case True
    then obtain k where k: "strlen m str = Some k" "out = map (\<lambda>i. m (str + of_nat i)) [0..<unat k]" "n = ucast k"
      using e by (auto simp: emit_string_def bind_eq_Some_conv)
    then have o': "out = map (\<lambda>i. p_mem p (str + of_nat i)) [0..<unat k]" using mem by simp
    have "p_mem p (str + of_nat (unat k)) = 0" "\<forall>i < unat k. p_mem p (str + of_nat i) \<noteq> 0"
      using strlen_Some [OF k(1)] mem [of "unat k"] mem k(2) by auto
    moreover have "\<forall>i \<le> unat k. 1024 \<le> str + of_nat i - pb" using apart k(2) by simp
    ultimately obtain p' where "u_put_cstr M pb str p = rret (of_nat (unat k), p')" "put_ok M pb p out p'"
      using u_put_cstr_ok [OF ok, of "unat k" str pb] unfolding o' by blast
    then show ?thesis using True Conv_string k(3) by (simp add: u_put_conversion_def)
  qed
qed

text \<open>A format as the list of its conversions, plain characters included.\<close>

function conversions :: "u8 list \<Rightarrow> nat \<Rightarrow> u64 list \<Rightarrow> conversion list option" where
  "conversions format i args =
     (case fch format i of
        None \<Rightarrow> None
      | Some c \<Rightarrow>
          if c = 0 then Some []
          else if c = 37 then
            (case u_spec_loop format (i + 1) no_flags args of
               None \<Rightarrow> None
             | Some (conv, i', args') \<Rightarrow> map_option ((#) conv) (conversions format (i' + 1) args'))
          else map_option ((#) (Conv_chars [c] 1)) (conversions format (i + 1) args))"
  by pat_completeness auto
termination
  by (relation "measure (\<lambda>(format, i, args). Suc (length format) - i)")
     (auto simp: fch_def split: if_splits dest!: u_spec_loop_position)

declare conversions.simps [simp del]

text \<open>As long as the strings lie outside the buffer, the user's \<^verbatim>\<open>printf\<close> prints what the kernel's would.\<close>

lemma u_vprintf_loop_ok:
  "proc_ok M p \<Longrightarrow> vprintf_loop m format i args = Some (out, n) \<Longrightarrow>
   conversions format i args = Some cs \<Longrightarrow> \<forall>conv \<in> set cs. outside_buffer pb m conv \<Longrightarrow>
   \<forall>a. 1024 \<le> a - pb \<longrightarrow> p_mem p a = m a \<Longrightarrow>
   \<exists>p'. u_vprintf_loop M pb format i args p = rret (n, p') \<and> put_ok M pb p out p'"
proof (induction format i args arbitrary: p out n cs rule: conversions.induct)
  case (1 format i args)
  note prems = "1.prems" and IH = "1.IH"
  obtain c where c: "fch format i = Some c" using prems(2) by (subst (asm) vprintf_loop.simps) (auto split: option.splits)
  note sim = vprintf_loop.simps [of m format i] u_vprintf_loop.simps [of M pb format i] conversions.simps [of format i]
  consider "c = 0" | "c = 37" | "c \<noteq> 0" "c \<noteq> 37" by blast
  then show ?case
  proof cases
    case 1
    then show ?thesis using c prems by (simp add: sim put_ok_refl)
  next
    case 2
    obtain conv i' args' where sp: "u_spec_loop format (i + 1) no_flags args = Some (conv, i', args')"
      using 2 c prems(3) by (auto simp: sim split: option.splits)
    obtain o1 n1 o2 n2 where o: "conv_out m conv = Some (o1, n1)" "vprintf_loop m format (i' + 1) args' = Some (o2, n2)"
        "out = o1 @ o2" "n = n1 + n2"
      using 2 c prems(2) sp by (auto simp: sim spec_loop_split bind_eq_Some_conv split: option.splits prod.splits)
    obtain cs' where cs: "conversions format (i' + 1) args' = Some cs'" "cs = conv # cs'"
      using 2 c prems(3) sp by (auto simp: sim)
    obtain p1 where p1: "u_put_conversion M pb conv p = rret (n1, p1)" "put_ok M pb p o1 p1"
      using u_put_conversion_ok [OF prems(1) _ o(1) prems(5)] prems(4) cs(2) by auto
    have "\<forall>a. 1024 \<le> a - pb \<longrightarrow> p_mem p1 a = m a" using put_ok_mem [OF p1(2)] prems(5) by simp
    then obtain p2 where "u_vprintf_loop M pb format (i' + 1) args' p1 = rret (n2, p2)" "put_ok M pb p1 o2 p2"
      using IH(1) [OF c _ 2 sp refl refl put_ok_proc [OF p1(2)] o(2) cs(1)] 2 prems(4) cs(2) by auto
    then show ?thesis using 2 c sp p1(1) o(3,4) put_ok_trans [OF p1(2)] by (auto simp: sim)
  next
    case 3
    obtain o2 n2 where o: "vprintf_loop m format (i + 1) args = Some (o2, n2)" "out = c # o2" "n = 1 + n2"
      using 3 c prems(2) by (auto simp: sim split: option.splits)
    obtain cs' where cs: "conversions format (i + 1) args = Some cs'" "cs = Conv_chars [c] 1 # cs'"
      using 3 c prems(3) by (auto simp: sim)
    obtain p1 where p1: "u_putchar M pb c p = rret p1" "put_ok M pb p [c] p1" using u_putchar_ok [OF prems(1)] by blast
    have "\<forall>a. 1024 \<le> a - pb \<longrightarrow> p_mem p1 a = m a" using put_ok_mem [OF p1(2)] prems(5) by simp
    then obtain p2 where "u_vprintf_loop M pb format (i + 1) args p1 = rret (n2, p2)" "put_ok M pb p1 o2 p2"
      using IH(2) [OF c 3 put_ok_proc [OF p1(2)] o(1) cs(1)] prems(4) cs(2) by auto
    then show ?thesis using 3 c p1(1) o(2,3) put_ok_trans [OF p1(2)] by (auto simp: sim)
  qed
qed

text \<open>What a user program prints reaches the console: \<^verbatim>\<open>printf\<close> returns, with the number of characters the kernel's
  \<^verbatim>\<open>printf\<close> would give for the same format, after sending all but what still waits in the buffer through the \<^verbatim>\<open>write\<close> system call to the
  serial line, in order, without loss or repetition. Output that ends a line waits no longer, and flushing sends the rest.
  The buffer never overflows, and nothing else in memory, in the file system or in the descriptor table changes.\<close>

theorem user_output_reaches_console:
  assumes ok: "proc_ok M p" and out: "vprintf_loop (p_mem p) format 0 args = Some (out, n)"
    and cs: "conversions format 0 args = Some cs" "\<forall>conv \<in> set cs. outside_buffer pb (p_mem p) conv"
  shows "\<exists>p'. u_printf M pb format args p = rret (n, p') \<and> proc_ok M p' \<and>
     printed p' @ unflushed pb p' = printed p @ unflushed pb p @ out \<and>
     (out \<noteq> [] \<and> last out = 10 \<longrightarrow> unflushed pb p' = []) \<and> unat (print_buffer_index p') < 1024 \<and> printing_only pb p p' \<and>
     (\<exists>p''. flush_print_buffer M pb p' = rret p'' \<and> printed p'' = printed p @ unflushed pb p @ out \<and> unflushed pb p'' = [])"
proof -
  obtain p' where p': "u_printf M pb format args p = rret (n, p')" "put_ok M pb p out p'"
    using u_vprintf_loop_ok [OF ok out cs] by (auto simp: u_printf_def u_vprintf_def)
  have ok': "proc_ok M p'" by (rule put_ok_proc [OF p'(2)])
  then have "proc_ok M (p'\<lparr>print_buffer_index := 0\<rparr>)" "unat (print_buffer_index p') < 1024" by (simp_all add: proc_ok_def)
  then obtain p'' where "flush_print_buffer M pb p' = rret p''" "printed p'' = printed p' @ unflushed pb p'" "unflushed pb p'' = []"
    using flush_ok [of M p' pb] by (auto simp: unflushed_def)
  then show ?thesis using p' ok' by (auto simp: put_ok_def proc_ok_def split: if_splits)
qed

definition demo_process :: process where
  "demo_process = \<lparr>pr_user = (demo_regs, demo_system), print_buffer_index = 0\<rparr>"

lemma demo_process_ok: "proc_ok demo_env demo_process"
proof -
  have "console_ok demo_display demo_console"
    using demo_terminal_eq(1) by (simp add: console_ok_def demo_console_def demo_display_def demo_fb_def fb_ok_def)
  then show ?thesis
    using demo_user by (auto simp: proc_ok_def demo_process_def demo_env_def demo_system_def caller_def demo_user_task_def)
qed

theorem user_output_reaches_console_witness:
  "\<exists>p'. u_printf demo_env 0x5000 [104, 105, 10] [] demo_process = rret (3, p') \<and> printed p' = [104, 105, 10]"
proof -
  let ?f = "[104, 105, 10] :: u8 list"
  have f: "fch ?f 0 = Some 104" "fch ?f (Suc 0) = Some 105" "fch ?f 2 = Some 10" "fch ?f 3 = Some 0" by (simp_all add: fch_def)
  have v: "vprintf_loop m ?f 0 [] = Some (?f, 3)" for m
    by (simp add: vprintf_loop.simps [of m ?f] f numeral_2_eq_2 [symmetric] numeral_3_eq_3 [symmetric])
  have c: "conversions ?f 0 [] = Some (map (\<lambda>c. Conv_chars [c] 1) ?f)"
    by (simp add: conversions.simps [of ?f] f numeral_2_eq_2 [symmetric] numeral_3_eq_3 [symmetric])
  have "printed demo_process = []" "unflushed 0x5000 demo_process = []"
    by (simp_all add: printed_def unflushed_def demo_process_def demo_system_def demo_console_def)
  then show ?thesis
    using user_output_reaches_console [OF demo_process_ok v c, of "0x5000"] by (auto simp: outside_buffer_def)
qed

end
