(* ===== verification/Test_Program.thy ===== *)
theory Test_Program
  imports Userland
begin

text \<open>
  The test program, \<^verbatim>\<open>userspace/test/src/test.cpp\<close>: a small command line over the functions of the user library. A \<open>layout\<close> says where the
  string literals, the local arrays and \<^verbatim>\<open>main\<close> itself are in memory. Every round of the command loop has its own machine
  environment, with the keys that are pressed in it. Memory that \<^verbatim>\<open>mmap\<close> hands out is used directly.
\<close>

section \<open>Definitions\<close>

record layout =
  ly_str :: "u8 list \<Rightarrow> uptr"
  ly_buf :: uptr
  ly_buf2 :: uptr
  ly_main :: uptr

definition asc :: "string \<Rightarrow> u8 list" where
  "asc = map of_char"

definition line :: "string \<Rightarrow> u8 list" where
  "line s = asc s @ [10]"

definition on_user :: "(user \<Rightarrow> user run) \<Rightarrow> process \<Rightarrow> process run" where
  "on_user f p = rbind (f (pr_user p)) (\<lambda>u. rret (p\<lparr>pr_user := u\<rparr>))"

definition on_user_val :: "(user \<Rightarrow> ('a \<times> user) run) \<Rightarrow> process \<Rightarrow> ('a \<times> process) run" where
  "on_user_val f p = rbind (f (pr_user p)) (\<lambda>(v, u). rret (v, p\<lparr>pr_user := u\<rparr>))"

definition set_mem :: "memory \<Rightarrow> process \<Rightarrow> process" where
  "set_mem m p = (case pr_user p of (g, s) \<Rightarrow> p\<lparr>pr_user := (g, s\<lparr>sy_mem := m\<rparr>)\<rparr>)"

text \<open>\<^verbatim>\<open>T a[n] = {}\<close> for arrays of bytes.\<close>

definition zero_array :: "uptr \<Rightarrow> nat \<Rightarrow> process \<Rightarrow> process" where
  "zero_array a n p = set_mem (store_bytes (p_mem p) a (replicate n 0)) p"

definition say :: "machine_env \<Rightarrow> uptr \<Rightarrow> u8 list \<Rightarrow> u64 list \<Rightarrow> process \<Rightarrow> process run" where
  "say M pb format args p = rbind (u_printf M pb format args p) (\<lambda>(n, p1). rret p1)"

subsection \<open>The tests\<close>

definition show_cwd :: "machine_env \<Rightarrow> uptr \<Rightarrow> layout \<Rightarrow> process \<Rightarrow> process run" where
  "show_cwd M pb ly p =
     rbind (on_user_val (api_getcwd M (ly_buf ly) 64) (zero_array (ly_buf ly) 64 p)) (\<lambda>(_, p1).
       say M pb (line ''cwd: %s'') [ly_buf ly] p1)"

definition change_dir :: "machine_env \<Rightarrow> layout \<Rightarrow> string \<Rightarrow> process \<Rightarrow> process run" where
  "change_dir M ly path p = rbind (on_user_val (api_chdir M (ly_str ly (asc path))) p) (\<lambda>(_, p1). rret p1)"

definition elf_magic :: "u8 list" where "elf_magic = 127 # asc ''ELF''"

definition test_cwd :: "machine_env \<Rightarrow> uptr \<Rightarrow> layout \<Rightarrow> process \<Rightarrow> process run" where
  "test_cwd M pb ly p =
     rbind (show_cwd M pb ly p) (\<lambda>p1.
     rbind (change_dir M ly ''./bin/'' p1) (\<lambda>p2.
     rbind (show_cwd M pb ly p2) (\<lambda>p3.
     rbind (on_user_val (api_open M (ly_str ly (asc ''test''))) p3) (\<lambda>(test_fd, p4).
     rbind (on_user (api_read M test_fd (ly_buf2 ly) 4) (zero_array (ly_buf2 ly) 4 p4)) (\<lambda>p5.
     rbind (if u_memcmp (p_mem p5) (ly_buf2 ly) (ly_str ly elf_magic) 4 = 0
            then say M pb (line ''%s/test is indeed an ELF binary'') [ly_buf ly] p5 else rret p5) (\<lambda>p6.
     rbind (on_user (api_close M test_fd) p6) (\<lambda>p7.
     rbind (change_dir M ly ''..'' p7) (\<lambda>p8.
       show_cwd M pb ly p8))))))))"

definition long_text :: "u8 list" where
  "long_text = line ''hello world this is a long string that a fish will put through a file descriptor into this file that exists in this tempfs ok bye lol''"

text \<open>\<^verbatim>\<open>write(fd, text, strlen(text))\<close> and \<^verbatim>\<open>pwrite(fd, text, strlen(text), 0)\<close>.\<close>

definition write_str :: "machine_env \<Rightarrow> u32 \<Rightarrow> uptr \<Rightarrow> process \<Rightarrow> process run" where
  "write_str M fd text p = do { n \<leftarrow> u_strlen (p_mem p) text; on_user (api_write M fd text n) p }"

definition pwrite_str :: "machine_env \<Rightarrow> u32 \<Rightarrow> uptr \<Rightarrow> process \<Rightarrow> process run" where
  "pwrite_str M fd text p = do { n \<leftarrow> u_strlen (p_mem p) text; on_user (api_pwrite M fd text n 0) p }"

definition test_openat :: "machine_env \<Rightarrow> uptr \<Rightarrow> layout \<Rightarrow> process \<Rightarrow> process run" where
  "test_openat M pb ly p =
     rbind (on_user_val (api_open M (ly_str ly (asc ''hello/''))) p) (\<lambda>(hello_fd, p1).
     rbind (say M pb (line ''fd %d is the hello directory'') [ucast hello_fd] p1) (\<lambda>p2.
     rbind (on_user_val (api_openat M hello_fd (ly_str ly (asc ''world.txt''))) p2) (\<lambda>(world_fd, p3).
     rbind (pwrite_str M world_fd (ly_str ly long_text) p3) (\<lambda>p4.
     rbind (on_user (api_pread M world_fd (ly_buf ly) 6 39) (zero_array (ly_buf ly) 6 p4)) (\<lambda>p5.
     rbind (say M pb (line ''%.*s'') [6, ly_buf ly] p5) (\<lambda>p6.
       on_user (api_close M world_fd) p6))))))"

definition test_txt :: "u8 list" where
  "test_txt = asc ''/./hello/.././.././test.txt''"

definition test_fd :: "machine_env \<Rightarrow> uptr \<Rightarrow> layout \<Rightarrow> process \<Rightarrow> process run" where
  "test_fd M pb ly p =
     rbind (on_user_val (api_open M (ly_str ly test_txt)) p) (\<lambda>(test_fd, p1).
     rbind (write_str M test_fd (ly_str ly (asc ''Hello'')) p1) (\<lambda>p2.
     rbind (write_str M test_fd (ly_str ly (asc '', '')) p2) (\<lambda>p3.
     rbind (write_str M test_fd (ly_str ly (asc ''world!'')) p3) (\<lambda>p4.
     rbind (on_user (api_seek M test_fd 0) p4) (\<lambda>p5.
     rbind (on_user (api_read M test_fd (ly_buf ly) 13) (zero_array (ly_buf ly) 13 p5)) (\<lambda>p6.
     rbind (say M pb (line ''%.*s'') [13, ly_buf ly] p6) (\<lambda>p7.
       on_user (api_close M test_fd) p7)))))))"

definition PROT_READ :: u32 where "PROT_READ = 0x01"

text \<open>\<^verbatim>\<open>ptr[i] = i * 10\<close> over a range of indices, and the loop that compares.\<close>

definition store32 :: "memory \<Rightarrow> uptr \<Rightarrow> u32 \<Rightarrow> memory" where
  "store32 m a v = store_bytes m a (map (\<lambda>k. ucast (drop_bit (8 * k) v)) [0..<4])"

definition fill_ints :: "uptr \<Rightarrow> u32 \<Rightarrow> u32 \<Rightarrow> memory \<Rightarrow> memory" where
  "fill_ints ptr a n m = for_range (\<lambda>i m. store32 m (ptr + 4 * ucast i) (i * 10)) a n m"

function check_ints :: "memory \<Rightarrow> uptr \<Rightarrow> u32 \<Rightarrow> u32 \<Rightarrow> bool" where
  "check_ints m ptr i n = (if i < n then if read32 m (ptr + 4 * ucast i) \<noteq> i * 10 then False else check_ints m ptr (i + 1) n else True)"
  by pat_completeness auto
termination
  by (relation "measure (\<lambda>(m, ptr, i, n). unat n - unat i)") (auto simp: unat_inc word_less_nat_alt)

declare check_ints.simps [simp del]

definition fill_and_check :: "machine_env \<Rightarrow> uptr \<Rightarrow> uptr \<Rightarrow> u32 \<Rightarrow> u32 \<Rightarrow> process \<Rightarrow> (bool \<times> process) run" where
  "fill_and_check M pb ptr a n p =
     rbind (say M pb (line ''checking'') [] (set_mem (fill_ints ptr a n (p_mem p)) p)) (\<lambda>p1.
       if check_ints (p_mem p1) ptr a n then rbind (say M pb (line ''done'') [] p1) (\<lambda>p2. rret (True, p2))
       else rbind (say M pb (line ''incorrect'') [] p1) (\<lambda>p2. rret (False, p2)))"

text \<open>One of the two blocks; the result says whether the function goes on after it.\<close>

definition mmap_block :: "machine_env \<Rightarrow> uptr \<Rightarrow> u8 list \<Rightarrow> usize \<Rightarrow> u32 \<Rightarrow> u32 \<Rightarrow> process \<Rightarrow> (bool \<times> process) run" where
  "mmap_block M pb title len a n p =
     rbind (say M pb title [] p) (\<lambda>p1.
     rbind (on_user_val (api_mmap M 0 len (PROT_READ OR PROT_WRITE) (MAP_PRIVATE OR MAP_ANONYMOUS) 0 0) p1) (\<lambda>(r, p2).
       if sint r < 0 then rbind (say M pb (line ''mmap fail'') [] p2) (\<lambda>p3. rret (False, p3))
       else fill_and_check M pb r a n p2))"

definition test_mmap :: "machine_env \<Rightarrow> uptr \<Rightarrow> process \<Rightarrow> process run" where
  "test_mmap M pb p =
     rbind (mmap_block M pb (line ''mmapping 64 MiB of memory and writing it'') (1024 * 1024 * 16 * 4) 0 (1024 * 1024 * 16) p) (\<lambda>(b, p1).
       if b then
         rbind (mmap_block M pb (line ''mmapping 1 GiB of memory and writing only 4 MiB of it'') (1024 * 1024 * 1024)
             (1024 * 1024 * 5) (1024 * 1024 * 6) p1) (\<lambda>(_, p2). rret p2)
       else rret p1)"

subsection \<open>The command loop\<close>

definition is_command :: "layout \<Rightarrow> string \<Rightarrow> process \<Rightarrow> bool option" where
  "is_command ly cmd p = map_option (\<lambda>r. r = 0) (u_strcmp (p_mem p) (ly_buf ly) (ly_str ly (line cmd)))"

definition dispatch :: "machine_env \<Rightarrow> uptr \<Rightarrow> layout \<Rightarrow> process \<Rightarrow> (u32 option \<times> process) run" where
  "dispatch M pb ly p =
     (let again = (\<lambda>r. rbind r (\<lambda>p1. rret (None, p1)))
      in do {
        help \<leftarrow> is_command ly ''help'' p;
        if help then again (say M pb (line ''exit'' @ line ''cwd'' @ line ''openat'' @ line ''fd'' @ line ''mmap'') [] p)
        else do {
        exit \<leftarrow> is_command ly ''exit'' p;
        if exit then rbind (say M pb (line ''goodbye'') [] p) (\<lambda>p1. rret (Some 0, p1))
        else do {
        cw \<leftarrow> is_command ly ''cwd'' p;
        if cw then again (test_cwd M pb ly p)
        else do {
        openat \<leftarrow> is_command ly ''openat'' p;
        if openat then again (test_openat M pb ly p)
        else do {
        fd \<leftarrow> is_command ly ''fd'' p;
        if fd then again (test_fd M pb ly p)
        else do {
        mmap \<leftarrow> is_command ly ''mmap'' p;
        if mmap then again (test_mmap M pb p)
        else again (say M pb (line ''invalid command'') [] p) }}}}}})"

definition command :: "machine_env \<Rightarrow> uptr \<Rightarrow> layout \<Rightarrow> process \<Rightarrow> (u32 option \<times> process) run" where
  "command M pb ly p =
     rbind (say M pb (asc ''> '') [] p) (\<lambda>p1.
     rbind (flush_print_buffer M pb p1) (\<lambda>p2.
     rbind (on_user (api_read M 0 (ly_buf ly) 255) (set_byte (ly_buf ly + 255) 0 (zero_array (ly_buf ly) 256 p2))) (\<lambda>p3.
       dispatch M pb ly p3)))"

fun command_loop :: "machine_env list \<Rightarrow> uptr \<Rightarrow> layout \<Rightarrow> process \<Rightarrow> (u32 \<times> process) run" where
  "command_loop [] pb ly p = None"
| "command_loop (M # Ms) pb ly p =
     rbind (command M pb ly p) (\<lambda>(r, p1). case r of Some status \<Rightarrow> rret (status, p1) | None \<Rightarrow> command_loop Ms pb ly p1)"

definition test_main :: "machine_env \<Rightarrow> machine_env list \<Rightarrow> uptr \<Rightarrow> layout \<Rightarrow> process \<Rightarrow> (u32 \<times> process) run" where
  "test_main M Ms pb ly p =
     rbind (say M pb (line ''Hello from userspace!'') [] p) (\<lambda>p1.
     rbind (say M pb (line ''Address of main: %#lX'') [ly_main ly] p1) (\<lambda>p2.
     rbind (say M pb (line (''Type '' @ [CHR 0x27] @ ''help'' @ [CHR 0x27] @ '' to list tests'')) [] p2) (\<lambda>p3.
       command_loop Ms pb ly p3)))"

definition test_start :: "machine_env \<Rightarrow> machine_env list \<Rightarrow> uptr \<Rightarrow> layout \<Rightarrow> process \<Rightarrow> process run" where
  "test_start M Ms pb ly p =
     rbind (test_main M Ms pb ly p) (\<lambda>(status, p1).
     rbind (flush_print_buffer M pb p1) (\<lambda>p2. on_user (api_exit M status) p2))"

section \<open>A system call of a process\<close>

definition files :: "process \<Rightarrow> Task" where
  "files p = caller (snd (pr_user p))"

definition p_vfs :: "process \<Rightarrow> vfs" where
  "p_vfs p = sy_vfs (snd (pr_user p))"

definition p_console :: "process \<Rightarrow> console" where
  "p_console p = sy_console (snd (pr_user p))"

text \<open>The task as the kernel function finds it, and the process after a call that leaves the task \<open>t\<close>, the file system \<open>v\<close> and the memory \<open>m\<close>.\<close>

definition entered :: "process \<Rightarrow> Task" where
  "entered p = (files p)\<lparr>user_stack := r_rsp (fst (pr_user p))\<rparr>"

definition after :: "machine_env \<Rightarrow> process \<Rightarrow> Task \<Rightarrow> vfs \<Rightarrow> memory \<Rightarrow> process \<Rightarrow> bool" where
  "after M p t v m p' \<longleftrightarrow> files p' = t \<and> p_vfs p' = v \<and> p_mem p' = m \<and> p_console p' = p_console p \<and>
     print_buffer_index p' = print_buffer_index p \<and>
     (2 \<le> length (file_descriptors t) \<and> length (file_descriptors t) < 2 ^ 31 \<longrightarrow> proc_ok M p')"

lemma entered_simps [simp]:
  "get_descriptor (entered p) = get_descriptor (files p)" "bad_fd (entered p) = bad_fd (files p)" "cwd (entered p) = cwd (files p)"
  "file_descriptors (entered p) = file_descriptors (files p)" "fd_inv (entered p) = fd_inv (files p)" "fd_room (entered p) = fd_room (files p)"
  by (simp_all add: entered_def fun_eq_iff get_descriptor_def bad_fd_def fd_inv_def fd_room_def open_count_def)

lemma current_kernel_view: "pr_user p = (g, s) \<Longrightarrow> current (kernel_view g s) = entered p"
  by (simp add: kernel_view_def Let_def entered_def files_def caller_def current_def sys_swapgs_def running_def set_current_def)

definition home :: "Task \<Rightarrow> vfs \<Rightarrow> kbd \<Rightarrow> memory \<Rightarrow> InterruptState \<Rightarrow> system \<Rightarrow> system" where
  "home t v k m g s = sys_swapgs ((set_current t (kernel_view g s))\<lparr>sy_vfs := v, sy_kbd := k, sy_mem := m\<rparr>)"

lemma home_simps:
  "caller (home t v k m g s) = t" "sy_vfs (home t v k m g s) = v" "sy_mem (home t v k m g s) = m"
  "sy_console (home t v k m g s) = sy_console s" "star (home t v k m g s) = star s"
  by (simp_all add: home_def caller_def sys_swapgs_def set_current_def running_def star_def)

lemma after_home:
  assumes "proc_ok M p" "pr_user p = (g, s)" "r_cs g' = r_cs g" "r_ss g' = r_ss g"
  shows "after M p t v m (p\<lparr>pr_user := (g', home t v k m g s)\<rparr>)"
  using assms by (simp add: after_def files_def p_vfs_def p_mem_def p_console_def home_simps proc_ok_def user_mode_def)

lemma proc_table: "proc_ok M p \<Longrightarrow> pr_user p = (g, s) \<Longrightarrow> \<exists>tab. me_table M = init_syscall_table tab \<and> user_mode g s"
  by (auto simp: proc_ok_def)

text \<open>One rule for each of the calls that the file tests make.\<close>

lemma calls_after:
  assumes ok: "proc_ok M p"
  shows open_after: "c_string (p_mem p) path = Some name \<Longrightarrow> syscall_open (p_vfs p) (entered p) name = Some (Returns (fd, t)) \<Longrightarrow>
      \<exists>p'. on_user_val (api_open M path) p = rret (fd, p') \<and> after M p t (p_vfs p) (p_mem p) p'"
    and write_after: "syscall_write (ce_display (me_env M)) (ce_fill (me_env M)) (p_vfs p) (entered p) (p_console p) (p_mem p) fd buf cnt =
        Some (Returns (v, t, p_console p)) \<Longrightarrow>
      \<exists>p'. on_user (api_write M fd buf cnt) p = rret p' \<and> after M p t v (p_mem p) p'"
    and seek_after: "\<exists>p'. on_user (api_seek M fd offset) p = rret p' \<and> after M p (syscall_seek (entered p) fd offset) (p_vfs p) (p_mem p) p'"
    and read_after: "syscall_read (p_vfs p) (entered p) (sy_kbd (snd (pr_user p))) fd cnt (ce_irqs (me_env M)) = Some (Returns (bytes, t, k)) \<Longrightarrow>
      \<exists>p'. on_user (api_read M fd buf cnt) p = rret p' \<and> after M p t (p_vfs p) (store_bytes (p_mem p) buf bytes) p'"
    and close_after: "\<exists>p'. on_user (api_close M fd) p = rret p' \<and> after M p (syscall_close (entered p) fd) (p_vfs p) (p_mem p) p'"
proof -
  obtain g s where u: "pr_user p = (g, s)" by fastforce
  obtain tab where tab: "me_table M = init_syscall_table tab" "user_mode g s" using proc_table [OF ok u] by blast
  note task = current_kernel_view [OF u]
  have regs: "r_cs (user_view x h) = r_cs h" "r_ss (user_view x h) = r_ss h" for x h by (simp_all add: user_view_def)
  have found: "\<exists>p'. f = rret p' \<and> after M p t v m p'"
    if "f = rret (p\<lparr>pr_user := (g', home t v k m g s)\<rparr>)" "r_cs g' = r_cs g" "r_ss g' = r_ss g" for f g' t v k m
    using that after_home [OF ok u] by blast
  have found_val: "\<exists>p'. f = rret (x, p') \<and> after M p t v m p'"
    if "f = rret (x, p\<lparr>pr_user := (g', home t v k m g s)\<rparr>)" "r_cs g' = r_cs g" "r_ss g' = r_ss g"
    for f :: "('b \<times> process) run" and x g' t v k m
    using that after_home [OF ok u] by blast
  have p: "p_mem p = sy_mem s" "p_vfs p = sy_vfs s" "p_console p = sy_console s" "sy_kbd (snd (pr_user p)) = sy_kbd s"
    by (simp_all add: u p_mem_def p_vfs_def p_console_def)
  have h: "home t (sy_vfs s) (sy_kbd s) (sy_mem s) g s = sys_swapgs (set_current t (kernel_view g s))" for t
    by (simp add: home_def set_current_def kernel_view_def Let_def sys_swapgs_def)
  have hw: "home t v (sy_kbd s) (sy_mem s) g s = sys_swapgs ((set_current t (kernel_view g s))\<lparr>sy_vfs := v, sy_console := sy_console s\<rparr>)" for t v
    by (simp add: home_def set_current_def kernel_view_def Let_def sys_swapgs_def)
  have hr: "home t (sy_vfs s) k m g s = sys_swapgs ((set_current t (kernel_view g s))\<lparr>sy_kbd := k, sy_mem := m\<rparr>)" for t k m
    by (simp add: home_def set_current_def kernel_view_def Let_def sys_swapgs_def)
  show "\<exists>p'. on_user_val (api_open M path) p = rret (fd, p') \<and> after M p t (p_vfs p) (p_mem p) p'"
    if "c_string (p_mem p) path = Some name" "syscall_open (p_vfs p) (entered p) name = Some (Returns (fd, t))" for path name fd t
  proof (rule found_val)
    show "on_user_val (api_open M path) p = rret (fd, p\<lparr>pr_user := (user_view (ret_rax (ce_rax (me_env M)) (Ret_int fd))
        (g\<lparr>r_rax := 1, r_rdi := path\<rparr>), home t (p_vfs p) (sy_kbd s) (p_mem p) g s)\<rparr>)"
      using that by (simp add: on_user_val_def u api_open_def api_rules tab task p h lift_run_def rret_def [symmetric])
  qed (simp_all add: regs)
  show "\<exists>p'. on_user (api_write M fd buf cnt) p = rret p' \<and> after M p t v (p_mem p) p'"
    if "syscall_write (ce_display (me_env M)) (ce_fill (me_env M)) (p_vfs p) (entered p) (p_console p) (p_mem p) fd buf cnt =
        Some (Returns (v, t, p_console p))" for fd buf cnt v t
  proof (rule found)
    show "on_user (api_write M fd buf cnt) p = rret (p\<lparr>pr_user := (user_view (ret_rax (ce_rax (me_env M)) Ret_void)
        (g\<lparr>r_rax := 6, r_rdi := scast fd, r_rsi := buf, r_rdx := cnt\<rparr>), home t v (sy_kbd s) (p_mem p) g s)\<rparr>)"
      using that by (simp add: on_user_def u api_write_def api_rules tab task p hw lift_run_def rret_def [symmetric])
  qed (simp_all add: regs)
  show "\<exists>p'. on_user (api_seek M fd offset) p = rret p' \<and> after M p (syscall_seek (entered p) fd offset) (p_vfs p) (p_mem p) p'" for fd offset
  proof (rule found)
    show "on_user (api_seek M fd offset) p = rret (p\<lparr>pr_user := (user_view (ret_rax (ce_rax (me_env M)) Ret_void)
        (g\<lparr>r_rax := 8, r_rdi := scast fd, r_rsi := offset\<rparr>), home (syscall_seek (entered p) fd offset) (p_vfs p) (sy_kbd s) (p_mem p) g s)\<rparr>)"
      by (simp add: on_user_def u api_seek_def api_rules tab task p h)
  qed (simp_all add: regs)
  show "\<exists>p'. on_user (api_read M fd buf cnt) p = rret p' \<and> after M p t (p_vfs p) (store_bytes (p_mem p) buf bytes) p'"
    if "syscall_read (p_vfs p) (entered p) (sy_kbd (snd (pr_user p))) fd cnt (ce_irqs (me_env M)) = Some (Returns (bytes, t, k))" for fd buf cnt bytes t k
  proof (rule found)
    show "on_user (api_read M fd buf cnt) p = rret (p\<lparr>pr_user := (user_view (ret_rax (ce_rax (me_env M)) Ret_void)
        (g\<lparr>r_rax := 4, r_rdi := scast fd, r_rsi := buf, r_rdx := cnt\<rparr>), home t (p_vfs p) k (store_bytes (p_mem p) buf bytes) g s)\<rparr>)"
      using that by (simp add: on_user_def u api_read_def api_rules tab task p hr lift_run_def rret_def [symmetric])
  qed (simp_all add: regs)
  show "\<exists>p'. on_user (api_close M fd) p = rret p' \<and> after M p (syscall_close (entered p) fd) (p_vfs p) (p_mem p) p'" for fd
  proof (rule found)
    show "on_user (api_close M fd) p = rret (p\<lparr>pr_user := (user_view (ret_rax (ce_rax (me_env M)) Ret_void)
        (g\<lparr>r_rax := 3, r_rdi := scast fd\<rparr>), home (syscall_close (entered p) fd) (p_vfs p) (sy_kbd s) (p_mem p) g s)\<rparr>)"
      by (simp add: on_user_def u api_close_def api_rules tab task p h)
  qed (simp_all add: regs)
qed

section \<open>An open file\<close>

text \<open>Descriptor \<open>fd\<close> of the process stands at \<open>pos\<close> in the regular file \<open>n\<close>, whose contents are \<open>bs\<close>.\<close>

definition opened :: "machine_env \<Rightarrow> process \<Rightarrow> u32 \<Rightarrow> node_ref \<Rightarrow> nat \<Rightarrow> u8 list \<Rightarrow> bool" where
  "opened M p fd n pos bs \<longleftrightarrow> proc_ok M p \<and> get_descriptor (files p) fd = Some \<lparr>fd_node = n, fd_cursor = of_nat pos\<rparr> \<and> fd \<noteq> 0 \<and> fd \<noteq> 1 \<and>
     n \<noteq> 0 \<and> nd_type (vs_node (p_vfs p) n) = FILE \<and> file_bytes (nd_data (vs_node (p_vfs p) n)) = bs"

text \<open>What does not change: memory and output; the other descriptors and nodes.\<close>

definition silent :: "process \<Rightarrow> process \<Rightarrow> bool" where
  "silent p p' \<longleftrightarrow> p_console p' = p_console p \<and> print_buffer_index p' = print_buffer_index p"

definition others :: "u32 \<Rightarrow> node_ref \<Rightarrow> process \<Rightarrow> process \<Rightarrow> bool" where
  "others fd n p p' \<longleftrightarrow> (\<forall>fd'. fd' \<noteq> fd \<longrightarrow> get_descriptor (files p') fd' = get_descriptor (files p) fd') \<and>
     (\<forall>n'. n' \<noteq> n \<longrightarrow> vs_node (p_vfs p') n' = vs_node (p_vfs p) n')"

lemma others_trans: "others fd n p p1 \<Longrightarrow> others fd n p1 p2 \<Longrightarrow> others fd n p p2"
  by (simp add: others_def)

lemma silent_trans: "silent p p1 \<Longrightarrow> silent p1 p2 \<Longrightarrow> silent p p2"
  by (simp add: silent_def)

lemma proc_lengths: "proc_ok M p \<Longrightarrow> 2 \<le> length (file_descriptors (files p)) \<and> length (file_descriptors (files p)) < 2 ^ 31"
  by (simp add: proc_ok_def files_def)

lemma after_set_descriptor:
  assumes o: "opened M p fd n pos bs" and a: "after M p (set_descriptor (entered p) fd (Some \<lparr>fd_node = n, fd_cursor = of_nat pos'\<rparr>)) v m p'"
    and v: "nd_type (vs_node v n) = FILE" "file_bytes (nd_data (vs_node v n)) = bs'" "\<forall>n'. n' \<noteq> n \<longrightarrow> vs_node v n' = vs_node (p_vfs p) n'"
  shows "opened M p' fd n pos' bs' \<and> silent p p' \<and> others fd n p p' \<and> p_mem p' = m"
proof -
  have ok: "proc_ok M p" and d: "get_descriptor (files p) fd = Some \<lparr>fd_node = n, fd_cursor = of_nat pos\<rparr>" using o by (simp_all add: opened_def)
  note l = proc_lengths [OF ok]
  have "get_descriptor (set_descriptor (entered p) fd x) fd' = (if fd' = fd then x else get_descriptor (files p) fd')" for x fd'
    using get_set_descriptor [of "entered p" fd x fd'] get_descriptor_Some [OF d] l by simp
  then show ?thesis using a v l o by (simp add: after_def opened_def silent_def others_def)
qed

lemma api_open_opens:
  assumes ok: "proc_ok M p" and t: "fd_inv (files p)" "fd_room (files p)" "get_descriptor (files p) 0 \<noteq> None" "get_descriptor (files p) 1 \<noteq> None"
    and name: "c_string (p_mem p) path = Some name" and r: "path_to_node (p_vfs p) name (if first_char name \<noteq> slash then cwd (files p) else 0) = Some r"
    and n: "target r \<noteq> 0" "nd_type (vs_node (p_vfs p) (target r)) = FILE"
  shows "\<exists>fd p'. on_user_val (api_open M path) p = rret (fd, p') \<and> get_descriptor (files p) fd = None \<and>
     opened M p' fd (target r) 0 (file_bytes (nd_data (vs_node (p_vfs p) (target r)))) \<and> silent p p' \<and> others fd (target r) p p' \<and> p_mem p' = p_mem p"
proof -
  obtain fd t1 where a: "allocate_fdnum (entered p) = (fd, t1)" by fastforce
  let ?d = "\<lparr>fd_node = target r, fd_cursor = 0\<rparr>"
  let ?t = "t1\<lparr>file_descriptors := (file_descriptors t1)[unat fd := Some ?d]\<rparr>"
  note o = open_slot [OF _ _ a, of ?t ?d, simplified entered_simps, OF t(1,2) refl]
  have "starting_point (p_vfs p) (entered p) AT_FDCWD name = Returns (Inr (if first_char name \<noteq> slash then cwd (files p) else 0))"
    by (simp add: starting_point_def)
  then have s: "syscall_open (p_vfs p) (entered p) name = Some (Returns (fd, ?t))"
    using r n(1) a by (simp add: syscall_open_def openat_inner_def)
  obtain p' where p': "on_user_val (api_open M path) p = rret (fd, p')" "after M p ?t (p_vfs p) (p_mem p) p'"
    using open_after [OF ok name s] by blast
  have "length (file_descriptors ?t) < 2 ^ 31" using o(1) by (simp only: fd_inv_def)
  moreover have "2 \<le> length (file_descriptors ?t)" using o(6) proc_lengths [OF ok] by linarith
  ultimately have "proc_ok M p'" using p'(2) by (simp only: after_def simp_thms)
  moreover have "fd \<noteq> 0" "fd \<noteq> 1" using o(2) t(3,4) by auto
  ultimately show ?thesis using p' o(2,3,4) n by (auto simp: after_def opened_def silent_def others_def)
qed

lemma write_str_appends:
  assumes o: "opened M p fd n (length bs) bs" and lit: "cstr (p_mem p) a xs" and fits: "length bs + length xs < 2 ^ 64"
  shows "\<exists>p'. write_str M fd a p = rret p' \<and> opened M p' fd n (length (bs @ xs)) (bs @ xs) \<and> silent p p' \<and> others fd n p p' \<and> p_mem p' = p_mem p"
proof -
  let ?n = "of_nat (length xs) :: usize" and ?pos = "of_nat (length bs) :: usize" and ?fill = "ce_fill (me_env M)"
  have ok: "proc_ok M p" and d: "get_descriptor (files p) fd = Some \<lparr>fd_node = n, fd_cursor = ?pos\<rparr>" and fd: "fd \<noteq> 0" "fd \<noteq> 1" "n \<noteq> 0"
    and reg: "nd_type (vs_node (p_vfs p) n) = FILE" "file_bytes (nd_data (vs_node (p_vfs p) n)) = bs" using o by (simp_all add: opened_def)
  have pos: "unat ?pos = length bs" using fits by (intro unat_of_nat_small) simp
  have len: "u_strlen (p_mem p) a = Some ?n" using lit by (simp add: u_strlen_def strlen_cstr)
  let ?v = "tmpfs_write ?fill (p_vfs p) n (buffer xs) ?n ?pos"
  have buf: "\<forall>i<length xs. p_mem p (a + of_nat i) = xs ! i" using lit by (simp add: cstr_nth)
  have v: "tmpfs_write ?fill (p_vfs p) n (\<lambda>i. p_mem p (a + i)) ?n ?pos = ?v" using fits by (intro user_buffer [OF buf]) linarith
  have "\<not> bad_fd (files p) fd" using get_descriptor_Some [OF d] by simp
  then have "syscall_write (ce_display (me_env M)) ?fill (p_vfs p) (entered p) (p_console p) (p_mem p) fd a ?n =
      Some (Returns (?v, set_descriptor (entered p) fd (Some \<lparr>fd_node = n, fd_cursor = of_nat (length (bs @ xs))\<rparr>), p_console p))"
    using fd d v by (simp add: syscall_write_def)
  then obtain p' where p': "on_user (api_write M fd a ?n) p = rret p'"
      "after M p (set_descriptor (entered p) fd (Some \<lparr>fd_node = n, fd_cursor = of_nat (length (bs @ xs))\<rparr>)) ?v (p_mem p) p'"
    using write_after [OF ok] by blast
  have node: "nd_type (vs_node ?v n) = FILE" "\<forall>n'. n' \<noteq> n \<longrightarrow> vs_node ?v n' = vs_node (p_vfs p) n'"
    using reg(1) by (simp_all add: tmpfs_write_def set_data_def)
  have "unat ?pos \<le> length (file_bytes (nd_data (vs_node (p_vfs p) n)))" "unat ?pos + length xs < 2 ^ 64"
    using pos reg(2) fits by simp_all
  then have "file_bytes (nd_data (vs_node ?v n)) = bs @ xs"
    using tmpfs_write_read [OF reg(1), of ?pos xs ?fill] by (simp only: reg(2) pos) (simp add: splice_bytes_def)
  from after_set_descriptor [OF o p'(2) node(1) this node(2)] show ?thesis using p'(1) len by (simp add: write_str_def)
qed

lemma api_seek_moves:
  assumes o: "opened M p fd n pos bs"
  shows "\<exists>p'. on_user (api_seek M fd (of_nat pos')) p = rret p' \<and> opened M p' fd n pos' bs \<and> silent p p' \<and> others fd n p p' \<and> p_mem p' = p_mem p"
proof -
  have ok: "proc_ok M p" and d: "get_descriptor (files p) fd = Some \<lparr>fd_node = n, fd_cursor = of_nat pos\<rparr>"
    and reg: "nd_type (vs_node (p_vfs p) n) = FILE" "file_bytes (nd_data (vs_node (p_vfs p) n)) = bs" using o by (simp_all add: opened_def)
  have "syscall_seek (entered p) fd (of_nat pos') = set_descriptor (entered p) fd (Some \<lparr>fd_node = n, fd_cursor = of_nat pos'\<rparr>)"
    using d by (simp add: syscall_seek_def)
  then obtain p' where p': "on_user (api_seek M fd (of_nat pos')) p = rret p'"
      "after M p (set_descriptor (entered p) fd (Some \<lparr>fd_node = n, fd_cursor = of_nat pos'\<rparr>)) (p_vfs p) (p_mem p) p'"
    using seek_after [OF ok, of fd "of_nat pos'"] by auto
  from after_set_descriptor [OF o p'(2) reg] show ?thesis using p'(1) by simp
qed

lemma api_read_all:
  assumes o: "opened M p fd n 0 bs" and fits: "length bs < 2 ^ 64"
  shows "\<exists>p'. on_user (api_read M fd buf (of_nat (length bs))) p = rret p' \<and> opened M p' fd n (length bs) bs \<and> silent p p' \<and> others fd n p p' \<and>
     p_mem p' = store_bytes (p_mem p) buf bs"
proof -
  let ?n = "of_nat (length bs) :: usize"
  have ok: "proc_ok M p" and d: "get_descriptor (files p) fd = Some \<lparr>fd_node = n, fd_cursor = 0\<rparr>" and fd: "fd \<noteq> 0" "fd \<noteq> 1" "n \<noteq> 0"
    and reg: "nd_type (vs_node (p_vfs p) n) = FILE" "file_bytes (nd_data (vs_node (p_vfs p) n)) = bs" using o by (simp_all add: opened_def)
  have n: "unat ?n = length bs" using fits by (intro unat_of_nat_small) simp
  have "snd (tmpfs_read (vs_node (p_vfs p) n) ?n 0) = bs" using tmpfs_read_bytes(1) [OF reg(1), of 0 ?n] n reg(2) fits by simp
  moreover have "\<not> bad_fd (files p) fd" using get_descriptor_Some [OF d] by simp
  ultimately have "syscall_read (p_vfs p) (entered p) (sy_kbd (snd (pr_user p))) fd ?n (ce_irqs (me_env M)) =
      Some (Returns (bs, set_descriptor (entered p) fd (Some \<lparr>fd_node = n, fd_cursor = of_nat (length bs)\<rparr>), sy_kbd (snd (pr_user p))))"
    using fd d by (simp add: syscall_read_def Let_def)
  then obtain p' where p': "on_user (api_read M fd buf ?n) p = rret p'"
      "after M p (set_descriptor (entered p) fd (Some \<lparr>fd_node = n, fd_cursor = of_nat (length bs)\<rparr>)) (p_vfs p) (store_bytes (p_mem p) buf bs) p'"
    using read_after [OF ok] by blast
  from after_set_descriptor [OF o p'(2) reg] show ?thesis using p'(1) by simp
qed

lemma api_close_closes:
  assumes ok: "proc_ok M p" and d: "get_descriptor (files p) fd = Some d"
  shows "\<exists>p'. on_user (api_close M fd) p = rret p' \<and> get_descriptor (files p') = (get_descriptor (files p))(fd := None) \<and> silent p p' \<and>
     p_vfs p' = p_vfs p \<and> p_mem p' = p_mem p"
proof -
  let ?t = "syscall_close (entered p) fd"
  obtain p' where p': "on_user (api_close M fd) p = rret p'" "after M p ?t (p_vfs p) (p_mem p) p'" using close_after [OF ok] by blast
  have "get_descriptor ?t fd' = get_descriptor (set_descriptor (entered p) fd None) fd'" for fd'
    using d by (simp add: syscall_close_def get_descriptor_def bad_fd_def)
  then have "get_descriptor ?t = (get_descriptor (files p))(fd := None)"
    using get_set_descriptor [of "entered p" fd None] get_descriptor_Some [OF d] proc_lengths [OF ok] by (auto simp: fun_eq_iff)
  then show ?thesis using p' by (simp add: after_def silent_def)
qed

section \<open>Printing what was read\<close>

lemma say_ok:
  assumes ok: "proc_ok M p" and out: "vprintf_loop (p_mem p) format 0 args = Some (out, n)"
    and cs: "conversions format 0 args = Some cs" "\<forall>conv \<in> set cs. outside_buffer pb (p_mem p) conv"
  shows "\<exists>p'. say M pb format args p = rret p' \<and> put_ok M pb p out p'"
  using u_vprintf_loop_ok [OF ok out cs] by (auto simp: say_def u_printf_def u_vprintf_def)

lemma put_ok_files:
  assumes "put_ok M pb p cs p'"
  shows "get_descriptor (files p') = get_descriptor (files p)" "p_vfs p' = p_vfs p"
  using assms by (simp_all add: put_ok_def printing_only_def files_def p_vfs_def get_descriptor_def bad_fd_def fun_eq_iff)

text \<open>\<^verbatim>\<open>printf("%.*s\n", cnt, buf)\<close>\<close>

lemma say_counted:
  assumes ok: "proc_ok M p" and cnt: "cnt \<noteq> 0" and buf: "\<forall>i \<le> unat cnt. 1024 \<le> buf + of_nat i - pb"
  shows "\<exists>p'. say M pb (line ''%.*s'') [cnt, buf] p = rret p' \<and> put_ok M pb p (bytes_at (p_mem p) buf (unat cnt) @ [10]) p'"
proof -
  let ?f = "line ''%.*s''" and ?m = "p_mem p"
  have eq: "?f = [37, 46, 42, 115, 10]" by (simp add: line_def asc_def of_char_def)
  have f: "fch ?f 0 = Some 37" "fch ?f (Suc 0) = Some 46" "fch ?f 2 = Some 42" "fch ?f 3 = Some 115" "fch ?f 4 = Some 10" "fch ?f 5 = Some 0"
    by (simp_all add: fch_def eq)
  have u: "u_spec_loop ?f (Suc 0) no_flags [cnt, buf] = Some (Conv_string cnt buf, 3, [])"
    by (simp add: u_spec_loop.simps [of ?f "Suc 0"] u_spec_loop.simps [of ?f 3] f numeral_3_eq_3 [symmetric] numeral_2_eq_2 [symmetric] no_flags_def)
  have e: "emit_string ?m cnt buf = Some (bytes_at ?m buf (unat cnt), ucast cnt)" using cnt by (simp add: emit_string_def bytes_at_def)
  then have "spec_loop ?m ?f (Suc 0) no_flags [cnt, buf] = Some (bytes_at ?m buf (unat cnt), ucast cnt, 3, [])"
    using u by (simp add: spec_loop_split conv_out_def)
  then have v: "vprintf_loop ?m ?f 0 [cnt, buf] = Some (bytes_at ?m buf (unat cnt) @ [10], ucast cnt + 1)"
    by (simp add: vprintf_loop.simps [of ?m ?f 0] vprintf_loop.simps [of ?m ?f 4] vprintf_loop.simps [of ?m ?f 5] f)
  have c: "conversions ?f 0 [cnt, buf] = Some [Conv_string cnt buf, Conv_chars [10] 1]"
    using u by (simp add: conversions.simps [of ?f 0] conversions.simps [of ?f 4] conversions.simps [of ?f 5] f)
  show ?thesis using say_ok [OF ok v c] buf e by (simp add: outside_buffer_def)
qed

text \<open>Writing to an array outside the print buffer.\<close>

lemma store_outside:
  assumes "\<forall>i < length bs. 1024 \<le> a + of_nat i - pb" "x - pb < 1024"
  shows "store_bytes m a bs x = m x"
proof -
  have "\<not> unat (x - a) < length bs"
  proof
    assume "unat (x - a) < length bs"
    then have "1024 \<le> a + of_nat (unat (x - a)) - pb" using assms(1) by blast
    then show False using assms(2) by simp
  qed
  then show ?thesis by (simp add: store_bytes_def)
qed

lemma unflushed_cong:
  assumes "unat (print_buffer_index p) < 1024" "print_buffer_index p' = print_buffer_index p" "\<And>x. x - pb < 1024 \<Longrightarrow> p_mem p' x = p_mem p x"
  shows "unflushed pb p' = unflushed pb p"
proof -
  have "p_mem p' (pb + of_nat i) = p_mem p (pb + of_nat i)" if "i < unat (print_buffer_index p)" for i
  proof (rule assms(3))
    have "unat (of_nat i :: usize) = i" using that assms(1) by (intro unat_of_nat_small) simp
    then show "pb + of_nat i - pb < 1024" using that assms(1) by (simp add: word_less_nat_alt)
  qed
  then show ?thesis by (simp add: unflushed_def assms(2))
qed

lemma set_mem_simps [simp]:
  "p_mem (set_mem m p) = m" "files (set_mem m p) = files p" "p_vfs (set_mem m p) = p_vfs p" "p_console (set_mem m p) = p_console p"
  "print_buffer_index (set_mem m p) = print_buffer_index p" "proc_ok M (set_mem m p) = proc_ok M p" "opened M (set_mem m p) = opened M p"
  by (cases "pr_user p"; simp add: set_mem_def p_mem_def files_def p_vfs_def p_console_def proc_ok_def user_mode_def opened_def fun_eq_iff)+

section \<open>The memory test\<close>

definition slot :: "uptr \<Rightarrow> u32 \<Rightarrow> uptr" where
  "slot ptr i = ptr + 4 * ucast i"

text \<open>The bytes of different elements are different, wherever the array is: the indices have 32 bits.\<close>

lemma int_slot_byte:
  assumes "k < 4"
  shows "unat (slot ptr j + of_nat k - slot ptr i) < 4 \<longleftrightarrow> j = i" and "unat (slot ptr i + of_nat k - slot ptr i) = k"
proof -
  have b: "unat i < 2 ^ 32" "unat j < 2 ^ 32" using unsigned_less [of i, where ?'a = nat] unsigned_less [of j, where ?'a = nat] by simp_all
  have k: "unat (of_nat k :: uptr) = k" using assms by (intro unat_of_nat_small) simp
  have four: "unat (4 * ucast x :: uptr) = 4 * unat x" for x :: u32
    using unsigned_less [of x, where ?'a = nat] by (subst unat_mult_nowrap) (simp_all add: unat_ucast_32_64)
  have B: "unat (4 * ucast j + of_nat k :: uptr) = 4 * unat j + k" using b k assms four by (subst unat_add_nowrap) simp_all
  have e: "slot ptr j + of_nat k - slot ptr i = 4 * ucast j + of_nat k - 4 * ucast i" for j i by (simp add: slot_def)
  have "unat (4 * ucast j + of_nat k - 4 * ucast i :: uptr) =
      (if 4 * unat i \<le> 4 * unat j + k then 4 * unat j + k - 4 * unat i else 4 * unat j + k + 2 ^ 64 - 4 * unat i)"
    using unat_sub_if' [of "4 * ucast j + of_nat k" "4 * ucast i :: uptr"] B four by (simp add: word_le_nat_alt)
  then show "unat (slot ptr j + of_nat k - slot ptr i) < 4 \<longleftrightarrow> j = i"
    unfolding e using b assms by (auto simp: word_unat_eq_iff split: if_splits)
  show "unat (slot ptr i + of_nat k - slot ptr i) = k" using k by simp
qed

lemma bytes_of_u32:
  "ucast (ucast v :: u8) OR push_bit 8 (ucast (ucast (drop_bit 8 v) :: u8)) OR push_bit 16 (ucast (ucast (drop_bit 16 v) :: u8)) OR
     push_bit 24 (ucast (ucast (drop_bit 24 v) :: u8)) = v" for v :: u32
proof (rule bit_word_eqI)
  fix n :: nat assume n: "n < LENGTH(32)"
  consider "n < 8" | "8 \<le> n" "n < 16" | "16 \<le> n" "n < 24" | "24 \<le> n" by linarith
  then show "bit (ucast (ucast v :: u8) OR push_bit 8 (ucast (ucast (drop_bit 8 v) :: u8)) OR push_bit 16 (ucast (ucast (drop_bit 16 v) :: u8)) OR
     push_bit 24 (ucast (ucast (drop_bit 24 v) :: u8)) :: u32) n = bit v n" using n by cases (auto simp: bit_simps)
qed

lemma read32_cong: "(\<And>k. k < 4 \<Longrightarrow> m' (a + of_nat k) = m (a + of_nat k)) \<Longrightarrow> read32 m' a = read32 m a"
proof -
  assume h: "\<And>k. k < 4 \<Longrightarrow> m' (a + of_nat k) = m (a + of_nat k)"
  show ?thesis using h [of 0] h [of 1] h [of 2] h [of 3] by (simp add: read32_def)
qed

lemma read32_store32: "read32 (store32 m (slot ptr i) v) (slot ptr j) = (if j = i then v else read32 m (slot ptr j))"
proof (cases "j = i")
  case True
  have e: "store32 m (slot ptr i) v (slot ptr i + of_nat k) = ucast (drop_bit (8 * k) v)" if "k < 4" for k
    using that int_slot_byte(2) [OF that, of ptr i] by (simp add: store32_def store_bytes_def)
  have "store32 m (slot ptr i) v (slot ptr i) = ucast v" using e [of 0] by simp
  moreover have "store32 m (slot ptr i) v (slot ptr i + 1) = ucast (drop_bit 8 v)" using e [of 1] by simp
  moreover have "store32 m (slot ptr i) v (slot ptr i + 2) = ucast (drop_bit 16 v)" using e [of 2] by simp
  moreover have "store32 m (slot ptr i) v (slot ptr i + 3) = ucast (drop_bit 24 v)" using e [of 3] by simp
  ultimately show ?thesis unfolding True read32_def by (simp only: bytes_of_u32 simp_thms if_True)
next
  case False
  have "store32 m (slot ptr i) v (slot ptr j + of_nat k) = m (slot ptr j + of_nat k)" if "k < 4" for k
    using int_slot_byte(1) [OF that, of ptr j i] False by (simp add: store32_def store_bytes_def)
  then have "read32 (store32 m (slot ptr i) v) (slot ptr j) = read32 m (slot ptr j)" by (rule read32_cong)
  then show ?thesis by (simp only: False if_False)
qed

lemma fill_ints_spec:
  assumes "a \<le> n"
  shows "\<forall>i. a \<le> i \<and> i < n \<longrightarrow> read32 (fill_ints ptr a n m) (slot ptr i) = i * 10"
proof -
  let ?P = "\<lambda>j m. \<forall>i. a \<le> i \<and> i < j \<longrightarrow> read32 m (slot ptr i) = i * 10"
  have "?P n (for_range (\<lambda>i m. store32 m (slot ptr i) (i * 10)) a n m)"
  proof (rule for_range_inv [OF assms, where P = ?P])
    fix j m assume j: "a \<le> j" "j < n" "?P j m"
    have "i < j + 1 \<longleftrightarrow> i < j \<or> i = j" for i using unat_inc [OF j(2)] by (auto simp: word_less_nat_alt word_unat_eq_iff)
    then show "?P (j + 1) (store32 m (slot ptr j) (j * 10))" using j(3) by (auto simp: read32_store32)
  qed auto
  then show ?thesis by (simp add: fill_ints_def slot_def)
qed

lemma fill_ints_frame:
  assumes "a \<le> n" "\<And>i. a \<le> i \<Longrightarrow> i < n \<Longrightarrow> 4 \<le> unat (x - slot ptr i)"
  shows "fill_ints ptr a n m x = m x"
proof -
  have "for_range (\<lambda>i m. store32 m (slot ptr i) (i * 10)) a n m x = m x"
  proof (rule for_range_inv [OF assms(1), where P = "\<lambda>_ m'. m' x = m x"])
    fix j m' assume j: "a \<le> j" "j < n" "m' x = m x"
    show "store32 m' (slot ptr j) (j * 10) x = m x" using assms(2) [OF j(1,2)] j(3) by (simp add: store32_def store_bytes_def)
  qed simp
  then show ?thesis by (simp add: fill_ints_def slot_def)
qed

lemma check_intsI: "\<forall>j. i \<le> j \<and> j < n \<longrightarrow> read32 m (slot ptr j) = j * 10 \<Longrightarrow> check_ints m ptr i n"
proof (induction m ptr i n rule: check_ints.induct)
  case (1 m ptr i n)
  have "i \<le> j" if "i < n" "i + 1 \<le> j" for j using unat_inc [OF that(1)] that(2) by (simp add: word_le_nat_alt)
  then show ?case using 1 by (subst check_ints.simps) (auto simp: slot_def)
qed

lemma filled_ints_check: "check_ints (fill_ints ptr 0 n m) ptr 0 n"
  by (rule check_intsI) (rule fill_ints_spec, simp)

text \<open>A text without conversions is printed as it is.\<close>

lemma plain_format:
  assumes "\<forall>c \<in> set f. c \<noteq> 37 \<and> c \<noteq> 0" "i \<le> length f"
  shows "vprintf_loop m f i args = Some (drop i f, of_nat (length f - i)) \<and>
    conversions f i args = Some (map (\<lambda>c. Conv_chars [c] 1) (drop i f))"
  using assms(2)
proof (induction "length f - i" arbitrary: i)
  case 0
  then show ?case by (simp add: vprintf_loop.simps [of m f i] conversions.simps [of f i] fch_def)
next
  case (Suc k)
  then have i: "i < length f" "k = length f - Suc i" "length f - i = Suc (length f - Suc i)" by simp_all
  have "f ! i \<noteq> 37" "f ! i \<noteq> 0" using assms(1) nth_mem [OF i(1)] by auto
  moreover have "drop i f = f ! i # drop (Suc i) f" by (rule Cons_nth_drop_Suc [OF i(1), symmetric])
  ultimately show ?case using Suc.hyps(1) [OF i(2)] i(1,3) by (simp add: vprintf_loop.simps [of m f i] conversions.simps [of f i] fch_def)
qed

lemma say_plain:
  assumes "proc_ok M p" "\<forall>c \<in> set f. c \<noteq> 37 \<and> c \<noteq> 0"
  shows "\<exists>p'. say M pb f [] p = rret p' \<and> put_ok M pb p f p'"
  using say_ok [of M p f "[]"] plain_format [OF assms(2), of 0 "p_mem p" "[]"] assms(1) by (auto simp: outside_buffer_def)

text \<open>The elements of the array written stay clear of the print buffer.\<close>

definition clear_of :: "uptr \<Rightarrow> uptr \<Rightarrow> u32 \<Rightarrow> u32 \<Rightarrow> bool" where
  "clear_of pb ptr a n \<longleftrightarrow> (\<forall>i k. a \<le> i \<and> i < n \<and> k < 4 \<longrightarrow> 1024 \<le> slot ptr i + of_nat k - pb)"

lemma fill_ints_outside:
  assumes "a \<le> n" "clear_of pb ptr a n" "x - pb < 1024"
  shows "fill_ints ptr a n m x = m x"
proof (rule fill_ints_frame [OF assms(1)])
  fix i assume i: "a \<le> i" "i < n"
  show "4 \<le> unat (x - slot ptr i)"
  proof (rule ccontr)
    assume "\<not> 4 \<le> unat (x - slot ptr i)"
    then have "1024 \<le> slot ptr i + of_nat (unat (x - slot ptr i)) - pb" using assms(2) i unfolding clear_of_def by (meson not_le)
    then show False using assms(3) by simp
  qed
qed

lemma fill_and_check_done:
  assumes ok: "proc_ok M p" and range: "a \<le> n" "clear_of pb ptr a n"
  shows "\<exists>p'. fill_and_check M pb ptr a n p = rret (True, p') \<and> proc_ok M p' \<and> unflushed pb p' = [] \<and>
    printed p' = printed p @ unflushed pb p @ line ''checking'' @ line ''done''"
proof -
  let ?p = "set_mem (fill_ints ptr a n (p_mem p)) p"
  have plain: "\<forall>c \<in> set (line ''checking''). c \<noteq> 37 \<and> c \<noteq> 0" "\<forall>c \<in> set (line ''done''). c \<noteq> 37 \<and> c \<noteq> 0"
    by (simp_all add: line_def asc_def of_char_def)
  have nl: "last (line s) = 10" "line s \<noteq> []" for s by (simp_all add: line_def)
  have u: "unflushed pb ?p = unflushed pb p"
    using ok fill_ints_outside [OF range] by (intro unflushed_cong) (auto simp: proc_ok_def)
  have pr: "printed ?p = printed p" by (simp add: printed_def set_mem_def split: prod.split)
  obtain p1 where p1: "say M pb (line ''checking'') [] ?p = rret p1" "put_ok M pb ?p (line ''checking'') p1"
    using say_plain [of M ?p, OF _ plain(1)] ok by auto
  have keep: "p_mem p1 x = fill_ints ptr a n (p_mem p) x" if "1024 \<le> x - pb" for x
    using p1(2) that by (simp add: put_ok_def printing_only_def)
  have "read32 (p_mem p1) (slot ptr j) = j * 10" if "a \<le> j" "j < n" for j
  proof -
    have "read32 (p_mem p1) (slot ptr j) = read32 (fill_ints ptr a n (p_mem p)) (slot ptr j)"
      using range(2) that by (intro read32_cong keep) (simp add: clear_of_def)
    then show ?thesis using fill_ints_spec [OF range(1)] that by simp
  qed
  then have chk: "check_ints (p_mem p1) ptr a n" by (intro check_intsI) simp
  obtain p2 where p2: "say M pb (line ''done'') [] p1 = rret p2" "put_ok M pb p1 (line ''done'') p2"
    using say_plain [of M p1, OF _ plain(2)] p1(2) by (auto simp: put_ok_def)
  have "fill_and_check M pb ptr a n p = rret (True, p2)" by (simp add: fill_and_check_def p1(1) p2(1) chk)
  then show ?thesis using p1(2) p2(2) u pr nl by (intro exI [of _ p2]) (auto simp: put_ok_def)
qed

section \<open>The file test\<close>

lemma asc_simps: "asc '''' = []" "asc (c # s) = of_char c # asc s"
  by (simp_all add: asc_def)

text \<open>The test up to the read.\<close>

lemma test_fd_session:
  assumes ok: "proc_ok M p" and t: "fd_inv (files p)" "fd_room (files p)" "get_descriptor (files p) 0 \<noteq> None" "get_descriptor (files p) 1 \<noteq> None"
    and path: "cstr (p_mem p) (ly_str ly test_txt) test_txt" "path_to_node (p_vfs p) test_txt 0 = Some r" "target r = n" "n \<noteq> 0"
    and reg: "nd_type (vs_node (p_vfs p) n) = FILE" "file_bytes (nd_data (vs_node (p_vfs p) n)) = []"
    and texts: "\<forall>s \<in> {''Hello'', '', '', ''world!''}. cstr (p_mem p) (ly_str ly (asc s)) (asc s)"
  obtains fd p6 where "test_fd M pb ly p = rbind (say M pb (line ''%.*s'') [13, ly_buf ly] p6) (on_user (api_close M fd))"
    and "get_descriptor (files p) fd = None" and "opened M p6 fd n 13 (asc ''Hello, world!'')" and "silent p p6" and "others fd n p p6"
    and "p_mem p6 = store_bytes (store_bytes (p_mem p) (ly_buf ly) (replicate 13 0)) (ly_buf ly) (asc ''Hello, world!'')"
proof -
  let ?text = "asc ''Hello, world!''" and ?b = "ly_buf ly"
  have abs: "first_char test_txt = slash" "length test_txt < 2 ^ 64"
    by (simp_all add: test_txt_def asc_simps of_char_def first_char_def slash_def)
  have name: "c_string (p_mem p) (ly_str ly test_txt) = Some test_txt" by (rule c_string_cstr [OF path(1) abs(2)])
  obtain fd p1 where p1: "on_user_val (api_open M (ly_str ly test_txt)) p = rret (fd, p1)" "get_descriptor (files p) fd = None"
      "opened M p1 fd n 0 []" "silent p p1" "others fd n p p1" "p_mem p1 = p_mem p"
    using api_open_opens [OF ok t name, of r] abs(1) path(2-4) reg by auto
  obtain p2 where p2: "write_str M fd (ly_str ly (asc ''Hello'')) p1 = rret p2" "opened M p2 fd n (length (asc ''Hello'')) (asc ''Hello'')"
      "silent p1 p2" "others fd n p1 p2" "p_mem p2 = p_mem p"
    using write_str_appends [of M p1 fd n "[]" "ly_str ly (asc ''Hello'')" "asc ''Hello''"] p1(3,6) texts by (auto simp: asc_simps)
  obtain p3 where p3: "write_str M fd (ly_str ly (asc '', '')) p2 = rret p3" "opened M p3 fd n (length (asc ''Hello, '')) (asc ''Hello, '')"
      "silent p2 p3" "others fd n p2 p3" "p_mem p3 = p_mem p"
    using write_str_appends [OF p2(2), of "ly_str ly (asc '', '')" "asc '', ''"] p2(5) texts by (auto simp: asc_simps)
  obtain p4 where p4: "write_str M fd (ly_str ly (asc ''world!'')) p3 = rret p4" "opened M p4 fd n (length ?text) ?text"
      "silent p3 p4" "others fd n p3 p4" "p_mem p4 = p_mem p"
    using write_str_appends [OF p3(2), of "ly_str ly (asc ''world!'')" "asc ''world!''"] p3(5) texts by (auto simp: asc_simps)
  obtain p5 where p5: "on_user (api_seek M fd 0) p4 = rret p5" "opened M p5 fd n 0 ?text" "silent p4 p5" "others fd n p4 p5" "p_mem p5 = p_mem p"
    using api_seek_moves [OF p4(2), of 0] p4(5) by auto
  let ?z = "zero_array ?b 13 p5"
  have z: "opened M ?z fd n 0 ?text" "silent p5 ?z" "others fd n p5 ?z" "p_mem ?z = store_bytes (p_mem p) ?b (replicate 13 0)"
    using p5(2,5) by (simp_all add: zero_array_def silent_def others_def)
  have l: "length ?text = 13" by (simp add: asc_simps)
  obtain p6 where p6: "on_user (api_read M fd ?b 13) ?z = rret p6" "opened M p6 fd n 13 ?text" "silent ?z p6" "others fd n ?z p6"
      "p_mem p6 = store_bytes (p_mem ?z) ?b ?text"
    using api_read_all [OF z(1), of ?b] l by auto
  show ?thesis
  proof (rule that)
    show "test_fd M pb ly p = rbind (say M pb (line ''%.*s'') [13, ?b] p6) (on_user (api_close M fd))"
      using p1(1) p2(1) p3(1) p4(1) p5(1) p6(1) by (simp add: test_fd_def)
    show "silent p p6" using p1(4) p2(3) p3(3) p4(3) p5(3) z(2) p6(3) by (meson silent_trans)
    show "others fd n p p6" using p1(5) p2(4) p3(4) p4(4) p5(4) z(3) p6(4) by (meson others_trans)
  qed (use p1(2) p6(2,5) z(4) in simp_all)
qed


text \<open>A file system with the directory \<^verbatim>\<open>hello\<close> and the file \<^verbatim>\<open>test.txt\<close>, and the program's literals in memory.\<close>

definition small_map :: "(key \<times> node_ref) list \<Rightarrow> node_ref HashMap" where
  "small_map cs = foldr (\<lambda>(k, n) m. the (hm_insert m k n)) cs (hm_new 16)"

lemma small_map_ok:
  "distinct (map fst cs) \<Longrightarrow> length cs \<le> 8 \<Longrightarrow> hm_wf (small_map cs) \<and> keys_distinct (small_map cs) \<and> m_capacity (small_map cs) = 16 \<and>
     m_size (small_map cs) = of_nat (length cs) \<and> hm_get (small_map cs) = map_of cs"
proof (induction cs)
  case Nil
  note e = new_dir_map [OF refl]
  then show ?case by (simp add: small_map_def fun_eq_iff) (simp add: hm_new_def)
next
  case (Cons e cs)
  obtain k n where e: "e = (k, n)" by fastforce
  let ?m = "small_map cs"
  have IH: "hm_wf ?m" "keys_distinct ?m" "m_capacity ?m = 16" "m_size ?m = of_nat (length cs)" "hm_get ?m = map_of cs"
    using Cons by auto
  have "unat (of_nat (length cs) :: usize) = length cs" using Cons.prems(2) by (intro unat_of_nat_small) simp
  then have "hm_insert ?m k n = Some (?m\<lparr>m_array := insert_loop k n (attempts 16 k) (m_array ?m), m_size := m_size ?m + 1\<rparr>)" (is "_ = Some ?m'")
    using insert_no_grow(1) [OF IH(1), of _ k n] IH(3,4) Cons.prems(2) by (simp add: hm_insert_def)
  moreover have "hm_get ?m k = None" "hm_room ?m" using Cons.prems(1) IH(3,5) by (simp_all add: e map_of_eq_None_iff hm_room_def)
  then obtain m' where "hm_insert ?m k n = Some m'" "hm_wf m' \<and> keys_distinct m'" "hm_get m' = (hm_get ?m)(k \<mapsto> n)"
    using dir.ins_fresh [of ?m k n] IH(1,2) by blast
  moreover have "small_map (e # cs) = the (hm_insert ?m k n)" by (simp add: small_map_def e)
  ultimately show ?case using IH(3-5) by (simp add: e add.commute)
qed

definition dir_node :: "(key \<times> node_ref) list \<Rightarrow> Node" where
  "dir_node cs = \<lparr>nd_type = DIRECTORY, nd_data = empty_data, nd_redirect = 0, nd_parent = 0, nd_name = [], nd_children = small_map cs\<rparr>"

definition test_tree :: vfs where
  "test_tree = \<lparr>vs_node = (\<lambda>r. if r = 1 then dir_node [(dot_name, 1), (dotdot_name, 1), (asc ''hello'', 2), (asc ''test.txt'', 3)]
       else if r = 2 then dir_node [(dot_name, 2), (dotdot_name, 1)] else data_node empty_data), vs_next = 4, vs_root = 1, vs_junk = 0\<rparr>"

lemma test_tree_path: "path_to_node test_tree test_txt 0 = Some \<lparr>target_parent = 1, target = 3, basename = Some (asc ''test.txt'')\<rparr>"
proof -
  let ?cs = "[dot_name, asc ''hello'', dotdot_name, dot_name, dotdot_name, dot_name, asc ''test.txt'']"
  have names: "dot_name = [46]" "dotdot_name = [46, 46]" "asc ''hello'' = [104, 101, 108, 108, 111]"
    "asc ''test.txt'' = [116, 101, 115, 116, 46, 116, 120, 116]"
    by (simp_all add: dot_name_def dotdot_name_def asc_simps of_char_def)
  have "vs_root test_tree = 1" by (simp add: test_tree_def)
  then have gen: "path_to_node test_tree (slash # j) 0 = resolve test_tree 1 (components j)" if "j \<noteq> []" for j
    using that by (simp add: path_to_node_def path_loop_resolve)
  have "components (join ?cs) = ?cs" by (rule components_join) (simp_all add: names slash_def)
  moreover have "test_txt = slash # join ?cs" by (simp add: test_txt_def asc_simps of_char_def names slash_def)
  moreover have "join ?cs \<noteq> []" by (simp add: names)
  ultimately have "path_to_node test_tree test_txt 0 = resolve test_tree 1 ?cs" using gen by metis
  moreover have "hm_get (nd_children (vs_node test_tree 1)) = map_of [(dot_name, 1), (dotdot_name, 1), (asc ''hello'', 2), (asc ''test.txt'', 3)]"
    "hm_get (nd_children (vs_node test_tree 2)) = map_of [(dot_name, 2), (dotdot_name, 1)]"
    using small_map_ok by (simp_all add: test_tree_def dir_node_def names)
  moreover have "nd_type (vs_node test_tree 1) = DIRECTORY" "nd_type (vs_node test_tree 2) = DIRECTORY"
    "reduce_node test_tree n = Some n" for n by (simp_all add: test_tree_def dir_node_def reduce_node.simps data_node_def)
  ultimately show ?thesis by (simp add: names)
qed

definition test_layout :: layout where
  "test_layout = \<lparr>ly_str = (\<lambda>s. if s = test_txt then 0x1000 else if s = asc ''Hello'' then 0x1100 else if s = asc '', '' then 0x1200 else 0x1300),
     ly_buf = 0x2000, ly_buf2 = 0x2100, ly_main = 0x400000\<rparr>"

definition test_memory :: memory where
  "test_memory = store_bytes (store_bytes (store_bytes (store_bytes (\<lambda>_. 0) 0x1000 test_txt) 0x1100 (asc ''Hello'')) 0x1200 (asc '', ''))
     0x1300 (asc ''world!'')"

definition test_process :: process where
  "test_process = \<lparr>pr_user = (demo_regs, demo_system\<lparr>sy_vfs := test_tree, sy_mem := test_memory\<rparr>), print_buffer_index = 0\<rparr>"

lemma test_memory_literals: "cstr test_memory 0x1000 test_txt" "cstr test_memory 0x1100 (asc ''Hello'')" "cstr test_memory 0x1200 (asc '', '')"
  "cstr test_memory 0x1300 (asc ''world!'')"
  by (simp_all add: test_memory_def store_bytes_def test_txt_def asc_simps of_char_def nth_Cons')


end
