(* ===== verification/Acpi.thy ===== *)
theory Acpi
  imports Sched
begin

text \<open>
  The ACPI tables of \<^verbatim>\<open>src/acpi/tables.cpp\<close>. The tables are bytes of memory, read field by field at the offsets of the packed
  structures of \<^verbatim>\<open>tables.hpp\<close>. \<open>devices\<close> gives the registers of the interrupt controller at a physical address. The
  messages are left out, and a comparison with a string literal is a comparison of lists. \<open>None\<close> means that the call does not
  return: the walk over the entries of a table never ends at an entry of size 0.
\<close>

section \<open>Definitions\<close>

record acpi =
  ac_irq :: irq_state
  ac_lapics :: "LAPIC list"
  ac_reg_base :: uptr
  ac_vmm :: vmm
  ac_kernel_pagemap :: Pagemap
  ac_cpu :: cpu_regs
  ac_hpet :: hpet
  ac_mem :: memory

definition do_checksum :: "memory \<Rightarrow> uptr \<Rightarrow> usize \<Rightarrow> bool" where
  "do_checksum m table sz = (for_range (\<lambda>i sum. sum + m (table + i)) 0 sz 0 = 0)"

text \<open>\<^verbatim>\<open>RSDP1\<close>, \<^verbatim>\<open>RSDP2\<close> and \<^verbatim>\<open>SDT\<close>.\<close>

definition sizeof_RSDP1 :: usize where "sizeof_RSDP1 = 20"
definition sizeof_SDT :: usize where "sizeof_SDT = 36"
definition sizeof_MADT :: usize where "sizeof_MADT = 44"

definition rsdp_signature :: "memory \<Rightarrow> uptr \<Rightarrow> u8 list" where "rsdp_signature m a = bytes_at m a 8"
definition rsdp_revision :: "memory \<Rightarrow> uptr \<Rightarrow> u8" where "rsdp_revision m a = m (a + 15)"
definition rsdp_rsdt_addr :: "memory \<Rightarrow> uptr \<Rightarrow> u32" where "rsdp_rsdt_addr m a = read32 m (a + 16)"
definition rsdp_size :: "memory \<Rightarrow> uptr \<Rightarrow> u32" where "rsdp_size m a = read32 m (a + 20)"
definition rsdp_xsdt_addr :: "memory \<Rightarrow> uptr \<Rightarrow> u64" where "rsdp_xsdt_addr m a = read64 m (a + 24)"
definition sdt_signature :: "memory \<Rightarrow> uptr \<Rightarrow> u8 list" where "sdt_signature m a = bytes_at m a 4"
definition sdt_size :: "memory \<Rightarrow> uptr \<Rightarrow> u32" where "sdt_size m a = read32 m (a + 4)"

text \<open>The address structure of the \<^verbatim>\<open>HPET\<close> table, after the header and three fields.\<close>

definition hpet_address :: "memory \<Rightarrow> uptr \<Rightarrow> GenericAddr" where
  "hpet_address m table = \<lparr>ga_space = m (table + 40), ga_bit_width = m (table + 41), ga_bit_offset = m (table + 42),
     ga_access_size = m (table + 43), ga_addr = read64 m (table + 44)\<rparr>"

text \<open>The entries of the interrupt controller table, by their type.\<close>

datatype madt_entry =
    EntryLAPIC u8 u8 u32
  | EntryIOAPIC u8 u32 u32
  | EntryIOAPICIRQSourceOverride u8 u32 u16
  | EntryLAPICNMI u8 u16 u8
  | EntryLAPICAddressOverride u64
  | EntryOther u8

definition entry_type :: "memory \<Rightarrow> uptr \<Rightarrow> u8" where "entry_type m e = m e"
definition entry_size :: "memory \<Rightarrow> uptr \<Rightarrow> u8" where "entry_size m e = m (e + 1)"

definition decode_entry :: "memory \<Rightarrow> uptr \<Rightarrow> madt_entry" where
  "decode_entry m e =
     (if entry_type m e = 0 then EntryLAPIC (m (e + 2)) (m (e + 3)) (read32 m (e + 4))
      else if entry_type m e = 1 then EntryIOAPIC (m (e + 2)) (read32 m (e + 4)) (read32 m (e + 8))
      else if entry_type m e = 2 then EntryIOAPICIRQSourceOverride (m (e + 3)) (read32 m (e + 4)) (read16 m (e + 8))
      else if entry_type m e = 4 then EntryLAPICNMI (m (e + 2)) (read16 m (e + 3)) (m (e + 5))
      else if entry_type m e = 5 then EntryLAPICAddressOverride (read64 m (e + 4))
      else EntryOther (entry_type m e))"

text \<open>\<^verbatim>\<open>for (entry = first; entry < end; entry += entry->size)\<close>, left by a panic.\<close>

partial_function (option) each_entry :: "(uptr \<Rightarrow> 's \<Rightarrow> 's outcome) \<Rightarrow> memory \<Rightarrow> uptr \<Rightarrow> uptr \<Rightarrow> 's \<Rightarrow> 's outcome option" where
  "each_entry body m end_addr e s =
     (if e < end_addr then
        (case body e s of
           Panics msg \<Rightarrow> Some (Panics msg)
         | Returns s' \<Rightarrow> each_entry body m end_addr (e + ucast (entry_size m e)) s')
      else Some (Returns s))"

declare each_entry.simps [code]

text \<open>The first pass collects the processors, the controllers and the overrides.\<close>

definition ioapic_flags :: u64 where
  "ioapic_flags = PAGE_PRESENT OR PAGE_WRITABLE OR PAGE_NO_EXECUTE OR PAGE_CACHE_DISABLE"

definition collect_entry :: "(uptr \<Rightarrow> u32 \<Rightarrow> u32) \<Rightarrow> uptr \<Rightarrow> acpi \<Rightarrow> acpi outcome" where
  "collect_entry devices e s =
     (case decode_entry (ac_mem s) e of
        EntryLAPIC processor_id ident flags \<Rightarrow>
          Returns (if flags AND 0b1 \<noteq> 0 then s\<lparr>ac_lapics := ac_lapics s @ [\<lparr>la_id = ident, la_acpi_id = processor_id\<rparr>]\<rparr> else s)
      | EntryIOAPIC ident addr base \<Rightarrow>
          obind (map_page (ac_kernel_pagemap s) (ucast addr) (ucast addr + v_hhdm (ac_vmm s)) ioapic_flags (ac_vmm s)) (\<lambda>v.
            Returns (s\<lparr>ac_vmm := v, ac_irq := (ac_irq s)\<lparr>ir_ioapics := ir_ioapics (ac_irq s) @
              [new_IOAPIC (ucast ident) (devices (ucast addr)) (ucast base)]\<rparr>\<rparr>))
      | EntryIOAPICIRQSourceOverride irq gsi flags \<Rightarrow> Returns (s\<lparr>ac_irq := override_irq_source irq gsi flags (ac_irq s)\<rparr>)
      | EntryLAPICNMI _ _ _ \<Rightarrow> Returns s
      | EntryLAPICAddressOverride _ \<Rightarrow> Returns s
      | EntryOther _ \<Rightarrow> Returns s)"

text \<open>The second pass sets the pin of non-maskable interrupts.\<close>

definition find_bsp :: "acpi \<Rightarrow> LAPIC" where
  "find_bsp s = (case find (\<lambda>l. ucast (la_id l) = ir_lapic (ac_irq s) LAPIC_ID) (ac_lapics s) of
     Some l \<Rightarrow> l | None \<Rightarrow> \<lparr>la_id = 0, la_acpi_id = 0\<rparr>)"

definition set_lapic :: "(lapic \<Rightarrow> lapic) \<Rightarrow> acpi \<Rightarrow> acpi" where
  "set_lapic f s = s\<lparr>ac_irq := (ac_irq s)\<lparr>ir_lapic := f (ir_lapic (ac_irq s))\<rparr>\<rparr>"

definition nmi_entry :: "uptr \<Rightarrow> acpi \<Rightarrow> acpi outcome" where
  "nmi_entry e s =
     (case decode_entry (ac_mem s) e of
        EntryLAPICNMI processor_id flags lint \<Rightarrow>
          let bsp = find_bsp s
          in Returns (if processor_id = 0xFF \<or> processor_id = la_acpi_id bsp then
               let active_low = (flags AND 0b11 = 0b11); level_trigger = (flags AND 0b1100 = 0b1100);
                   s1 = set_lapic (lapic_set_vector (if lint \<noteq> 0 then LVT_LINT1 else LVT_LINT0) 0xFE True active_low level_trigger False) s
               in set_lapic (lapic_set_vector (if lint \<noteq> 0 then LVT_LINT0 else LVT_LINT1) 0 False False False True) s1
             else s)
      | _ \<Rightarrow> Returns s)"

definition mask_lvt :: "acpi \<Rightarrow> acpi" where
  "mask_lvt s = fold (\<lambda>reg. set_lapic (lapic_set_vector reg 0 False False False True))
     [LVT_CMCI, LVT_TIMER, LVT_PERF, LVT_THERMAL, LVT_ERROR] s"

text \<open>Runs that may panic or not return, one after the other.\<close>

definition abind :: "'a outcome option \<Rightarrow> ('a \<Rightarrow> 'b outcome option) \<Rightarrow> 'b outcome option" where
  "abind r f = Option.bind r (\<lambda>x. case x of Panics msg \<Rightarrow> Some (Panics msg) | Returns a \<Rightarrow> f a)"

definition madt_pass :: "(uptr \<Rightarrow> acpi \<Rightarrow> acpi outcome) \<Rightarrow> uptr \<Rightarrow> acpi \<Rightarrow> acpi outcome option" where
  "madt_pass body madt s = each_entry body (ac_mem s) (madt + ucast (sdt_size (ac_mem s) madt)) (madt + sizeof_MADT) s"

definition parse_madt :: "(uptr \<Rightarrow> u32 \<Rightarrow> u32) \<Rightarrow> uptr \<Rightarrow> acpi \<Rightarrow> acpi outcome option" where
  "parse_madt devices madt s =
     abind (madt_pass (collect_entry devices) madt s) (\<lambda>s1.
     abind (Some (lapic_prepare (ac_kernel_pagemap s1) (ac_cpu s1) (ac_vmm s1))) (\<lambda>(reg_base, v).
     abind (madt_pass nmi_entry madt (s1\<lparr>ac_reg_base := reg_base, ac_vmm := v\<rparr>)) (\<lambda>s2.
       let s3 = mask_lvt s2
       in abind (Some (lapic_enable (ac_cpu s3) (ir_idt (ac_irq s3)) (ir_lapic (ac_irq s3)))) (\<lambda>(c, i, l).
            Some (Returns (s3\<lparr>ac_cpu := c, ac_irq := (ac_irq s3)\<lparr>ir_idt := i, ir_lapic := l\<rparr>\<rparr>))))))"

definition parse_hpet :: "uptr \<Rightarrow> acpi \<Rightarrow> acpi outcome" where
  "parse_hpet table s =
     obind (hpet_init (v_hhdm (ac_vmm s)) (hpet_address (ac_mem s) table) (ac_mem s)) (\<lambda>(h, m). Returns (s\<lparr>ac_hpet := h, ac_mem := m\<rparr>))"

definition parse_sdt :: "(uptr \<Rightarrow> u32 \<Rightarrow> u32) \<Rightarrow> uptr \<Rightarrow> acpi \<Rightarrow> acpi outcome option" where
  "parse_sdt devices sdt s =
     (if \<not> do_checksum (ac_mem s) sdt (ucast (sdt_size (ac_mem s) sdt)) then Some (Panics ''ACPI table has incorrect checksum'')
      else if sdt_signature (ac_mem s) sdt = [65, 80, 73, 67] then parse_madt devices sdt s
      else if sdt_signature (ac_mem s) sdt = [72, 80, 69, 84] then Some (parse_hpet sdt s)
      else Some (Returns s))"

text \<open>The tables a root table lists, by 4-byte or 8-byte pointers; the bound is read again in every round.\<close>

partial_function (option) each_table :: "(uptr \<Rightarrow> u32 \<Rightarrow> u32) \<Rightarrow> (memory \<Rightarrow> uptr \<Rightarrow> u64) \<Rightarrow> usize \<Rightarrow> uptr \<Rightarrow> usize \<Rightarrow> acpi \<Rightarrow> acpi outcome option" where
  "each_table devices pointer width root i s =
     (if i < (ucast (sdt_size (ac_mem s) root) - sizeof_SDT) div width then
        Option.bind (parse_sdt devices (pointer (ac_mem s) (root + sizeof_SDT + width * i) + v_hhdm (ac_vmm s)) s) (\<lambda>r.
          case r of Panics msg \<Rightarrow> Some (Panics msg) | Returns s' \<Rightarrow> each_table devices pointer width root (i + 1) s')
      else Some (Returns s))"

definition parse_root :: "(uptr \<Rightarrow> u32 \<Rightarrow> u32) \<Rightarrow> (memory \<Rightarrow> uptr \<Rightarrow> u64) \<Rightarrow> usize \<Rightarrow> u8 list \<Rightarrow> uptr \<Rightarrow> acpi \<Rightarrow> acpi outcome option" where
  "parse_root devices pointer width signature root s =
     (if sdt_signature (ac_mem s) root \<noteq> signature then Some (Panics ''root table signature incorrect'')
      else if \<not> do_checksum (ac_mem s) root (ucast (sdt_size (ac_mem s) root)) then Some (Panics ''root table checksum incorrect'')
      else each_table devices pointer width root 0 s)"

definition parse_rsdp :: "(uptr \<Rightarrow> u32 \<Rightarrow> u32) \<Rightarrow> uptr \<Rightarrow> acpi \<Rightarrow> acpi outcome option" where
  "parse_rsdp devices rsdp s =
     (if rsdp_signature (ac_mem s) rsdp \<noteq> [82, 83, 68, 32, 80, 84, 82, 32] then Some (Panics ''RSDP signature incorrect'')
      else if \<not> do_checksum (ac_mem s) rsdp sizeof_RSDP1 then Some (Panics ''RSDP1 checksum incorrect'')
      else
        abind (if rsdp_revision (ac_mem s) rsdp = 0
               then parse_root devices (\<lambda>m a. ucast (read32 m a)) 4 [82, 83, 68, 84] (ucast (rsdp_rsdt_addr (ac_mem s) rsdp) + v_hhdm (ac_vmm s)) s
               else Some (Returns s)) (\<lambda>s1.
          if rsdp_revision (ac_mem s1) rsdp = 2 then
            if \<not> do_checksum (ac_mem s1) (rsdp + sizeof_RSDP1) (ucast (rsdp_size (ac_mem s1) rsdp) - sizeof_RSDP1)
            then Some (Panics ''RSDP2 checksum incorrect'')
            else parse_root devices read64 8 [88, 83, 68, 84] (rsdp_xsdt_addr (ac_mem s1) rsdp + v_hhdm (ac_vmm s1)) s1
          else Some (Returns s1)))"

section \<open>Checksums\<close>

lemma checksum_loop:
  "for_range (\<lambda>i sum. sum + m (table + i)) i n acc = acc + (\<Sum>k = unat i..<unat n. m (table + of_nat k))" for m :: memory
proof (induction "\<lambda>i sum. sum + m (table + i)" i n acc rule: for_range.induct)
  case (1 i n acc)
  show ?case
  proof (cases "i < n")
    case True
    then have "{unat i..<unat n} = insert (unat i) {unat (i + 1)..<unat n}" by (auto simp: word_less_nat_alt unat_inc)
    moreover have "unat i \<notin> {unat (i + 1)..<unat n}" using True by (simp add: unat_inc)
    ultimately show ?thesis using True 1 by (simp add: for_range_step add.assoc)
  qed (simp add: word_less_nat_alt)
qed

text \<open>A table passes exactly when its bytes add up to a multiple of 256.\<close>

lemma do_checksum_iff: "do_checksum m table n \<longleftrightarrow> (\<Sum>k<unat n. unat (m (table + of_nat k))) mod 256 = 0"
proof -
  have "for_range (\<lambda>i sum. sum + m (table + i)) 0 n 0 = of_nat (\<Sum>k<unat n. unat (m (table + of_nat k)))"
    by (simp add: checksum_loop atLeast0LessThan)
  moreover have "(of_nat j :: u8) = 0 \<longleftrightarrow> j mod 256 = 0" for j by (simp add: word_of_nat_eq_0_iff mod_eq_0_iff_dvd)
  ultimately show ?thesis by (simp only: do_checksum_def)
qed

section \<open>Walking over entries\<close>

fun run_all :: "('e \<Rightarrow> 's \<Rightarrow> 's outcome) \<Rightarrow> 'e list \<Rightarrow> 's \<Rightarrow> 's outcome" where
  "run_all body [] s = Returns s"
| "run_all body (x # xs) s = obind (body x s) (run_all body xs)"

text \<open>The addresses of the entries from \<open>e\<close> up to the end of the table.\<close>

fun walk_at :: "memory \<Rightarrow> uptr \<Rightarrow> uptr \<Rightarrow> uptr list \<Rightarrow> bool" where
  "walk_at m end_addr e [] \<longleftrightarrow> \<not> e < end_addr"
| "walk_at m end_addr e (x # xs) \<longleftrightarrow> x = e \<and> e < end_addr \<and> walk_at m end_addr (e + ucast (entry_size m e)) xs"

lemma each_entry_walk: "walk_at m end_addr e xs \<Longrightarrow> each_entry body m end_addr e s = Some (run_all body xs s)"
proof (induction xs arbitrary: e s)
  case (Cons x xs)
  then show ?case by (subst each_entry.simps) (cases "body x s", auto)
qed (simp add: each_entry.simps)

text \<open>At an entry of size 0 the walk stays for ever.\<close>

lemma each_entry_stuck:
  assumes "e < end_addr" "entry_size m e = 0" "\<And>s. P s \<Longrightarrow> \<exists>s'. body e s = Returns s' \<and> P s'" "P s"
  shows "each_entry body m end_addr e s = None"
proof (cases "each_entry body m end_addr e s")
  case (Some r)
  then have "body = body \<and> m = m \<and> end_addr = end_addr \<and> e = e \<and> P s \<longrightarrow> False"
  proof (rule each_entry.raw_induct [where P = "\<lambda>b m' en e' s r. b = body \<and> m' = m \<and> en = end_addr \<and> e' = e \<and> P s \<longrightarrow> False", rotated])
    fix rec :: "(uptr \<Rightarrow> 'a \<Rightarrow> 'a outcome) \<Rightarrow> memory \<Rightarrow> uptr \<Rightarrow> uptr \<Rightarrow> 'a \<Rightarrow> 'a outcome option" and b m' en e' s r
    assume IH: "\<And>b m' en e' s r. rec b m' en e' s = Some r \<Longrightarrow> b = body \<and> m' = m \<and> en = end_addr \<and> e' = e \<and> P s \<longrightarrow> False"
      and r: "(if e' < en then case b e' s of Panics msg \<Rightarrow> Some (Panics msg)
          | Returns s' \<Rightarrow> rec b m' en (e' + ucast (entry_size m' e')) s' else Some (Returns s)) = Some r"
    show "b = body \<and> m' = m \<and> en = end_addr \<and> e' = e \<and> P s \<longrightarrow> False"
      using r IH [of body m end_addr e] assms(1,2) assms(3) [of s] by auto
  qed
  then show ?thesis using assms(4) by simp
qed

lemma run_all_inv:
  assumes "\<And>x s s'. body x s = Returns s' \<Longrightarrow> Q s s'" "\<And>s. Q s s" "\<And>s s' s''. Q s s' \<Longrightarrow> Q s' s'' \<Longrightarrow> Q s s''"
  shows "run_all body xs s = Returns s' \<Longrightarrow> Q s s'"
proof (induction xs arbitrary: s)
  case (Cons x xs)
  then obtain s1 where "body x s = Returns s1" "run_all body xs s1 = Returns s'" by (auto simp: obind_Returns)
  then show ?case using assms(1,3) Cons.IH by blast
qed (use assms(2) in simp)

section \<open>What the interrupt controller table sets up\<close>

fun lapic_of :: "madt_entry \<Rightarrow> LAPIC list" where
  "lapic_of (EntryLAPIC processor_id ident flags) = (if bit flags 0 then [\<lparr>la_id = ident, la_acpi_id = processor_id\<rparr>] else [])"
| "lapic_of _ = []"

fun ioapic_of :: "(uptr \<Rightarrow> u32 \<Rightarrow> u32) \<Rightarrow> madt_entry \<Rightarrow> IOAPIC list" where
  "ioapic_of devices (EntryIOAPIC ident addr base) = [new_IOAPIC (ucast ident) (devices (ucast addr)) (ucast base)]"
| "ioapic_of devices _ = []"

fun override_of :: "madt_entry \<Rightarrow> (u8 \<times> u32 \<times> u16) list" where
  "override_of (EntryIOAPICIRQSourceOverride irq gsi flags) = [(irq, gsi, flags)]"
| "override_of _ = []"

lemma and_1_bit: "w AND 1 \<noteq> 0 \<longleftrightarrow> bit w 0" for w :: u32
  by (simp add: bit_0 and_one_eq odd_iff_mod_2_eq_one)

lemma collect_entry_effect:
  assumes "collect_entry devices e s = Returns s'" and "decode_entry (ac_mem s) e = d"
  shows "ac_mem s' = ac_mem s \<and> ac_cpu s' = ac_cpu s \<and> ir_lapic (ac_irq s') = ir_lapic (ac_irq s) \<and> ac_kernel_pagemap s' = ac_kernel_pagemap s \<and>
     ac_lapics s' = ac_lapics s @ lapic_of d \<and> ir_ioapics (ac_irq s') = ir_ioapics (ac_irq s) @ ioapic_of devices d \<and>
     irq_to_gsi (ac_irq s') = fold (\<lambda>(irq, gsi, flags) l. l[unat irq := gsi]) (override_of d) (irq_to_gsi (ac_irq s))"
  using assms
  by (cases d) (auto simp: collect_entry_def obind_Returns override_irq_source_def and_1_bit [symmetric])

lemma collect_all:
  "run_all (collect_entry devices) xs s = Returns s' \<Longrightarrow> ds = map (decode_entry (ac_mem s)) xs \<Longrightarrow>
     ac_mem s' = ac_mem s \<and> ac_lapics s' = ac_lapics s @ concat (map lapic_of ds) \<and>
     ir_ioapics (ac_irq s') = ir_ioapics (ac_irq s) @ concat (map (ioapic_of devices) ds) \<and>
     irq_to_gsi (ac_irq s') = fold (\<lambda>(irq, gsi, flags) l. l[unat irq := gsi]) (concat (map override_of ds)) (irq_to_gsi (ac_irq s))"
proof (induction xs arbitrary: s ds)
  case (Cons x xs)
  obtain s1 where s1: "collect_entry devices x s = Returns s1" "run_all (collect_entry devices) xs s1 = Returns s'"
    using Cons.prems(1) by (auto simp: obind_Returns)
  note eff = collect_entry_effect [OF s1(1) refl]
  show ?case using Cons.IH [OF s1(2) refl] eff Cons.prems(2) by simp
qed simp

definition only_lapic :: "acpi \<Rightarrow> acpi \<Rightarrow> bool" where
  "only_lapic s s' \<longleftrightarrow> (\<exists>l. s' = s\<lparr>ac_irq := (ac_irq s)\<lparr>ir_lapic := l\<rparr>\<rparr>)"

lemma only_lapic_refl [simp]: "only_lapic s s" "only_lapic s (set_lapic f s)"
  by (auto simp: only_lapic_def set_lapic_def intro: exI [of _ "ir_lapic (ac_irq s)"])

lemma only_lapic_trans: "only_lapic s s1 \<Longrightarrow> only_lapic s1 s2 \<Longrightarrow> only_lapic s s2"
  by (auto simp: only_lapic_def)

lemma only_lapicD: "only_lapic s s' \<Longrightarrow> ac_lapics s' = ac_lapics s \<and> ac_mem s' = ac_mem s \<and> ac_cpu s' = ac_cpu s \<and>
    ir_ioapics (ac_irq s') = ir_ioapics (ac_irq s) \<and> irq_to_gsi (ac_irq s') = irq_to_gsi (ac_irq s)"
  by (auto simp: only_lapic_def)

lemma nmi_entry_only: "nmi_entry e s = Returns s' \<Longrightarrow> only_lapic s s'"
  by (auto simp: nmi_entry_def Let_def split: madt_entry.splits if_splits intro: only_lapic_trans [OF only_lapic_refl(2) only_lapic_refl(2)])

lemmas lvt_registers = LVT_CMCI_def LVT_TIMER_def LVT_PERF_def LVT_THERMAL_def LVT_ERROR_def LVT_LINT0_def LVT_LINT1_def LAPIC_SPURIOUS_def

lemma mask_lvt_effect:
  "only_lapic s (mask_lvt s)"
  "reg \<in> {LVT_CMCI, LVT_TIMER, LVT_PERF, LVT_THERMAL, LVT_ERROR} \<Longrightarrow> ir_lapic (ac_irq (mask_lvt s)) reg = 0x10000"
  by (auto simp: mask_lvt_def only_lapic_def set_lapic_def)
     (auto simp: mask_lvt_def set_lapic_def lapic_set_vector_def bool_bit_def lvt_registers)

lemma lapic_enable_effect:
  assumes "lapic_enable c i l = Returns (c', i', l')"
  shows "bit (msr_read IA32_APIC_BASE c') 11" "bit (l' LAPIC_SPURIOUS) 8" "reg \<noteq> LAPIC_SPURIOUS \<Longrightarrow> l' reg = l reg"
  using assms by (auto simp: lapic_enable_def Let_def obind_Returns msr_read_write bit_simps)

lemma abind_simps [simp]: "abind None f = None" "abind (Some (Panics msg)) f = Some (Panics msg)" "abind (Some (Returns a)) f = f a"
  by (simp_all add: abind_def)

lemma abind_obind: "(\<And>a. r = Returns a \<Longrightarrow> f a = Some (g a)) \<Longrightarrow> abind (Some r) f = Some (obind r g)"
  by (cases r) simp_all

definition finish_madt :: "acpi \<Rightarrow> acpi outcome" where
  "finish_madt s =
     obind (lapic_enable (ac_cpu s) (ir_idt (ac_irq s)) (ir_lapic (ac_irq s))) (\<lambda>(c, i, l).
       Returns (s\<lparr>ac_cpu := c, ac_irq := (ac_irq s)\<lparr>ir_idt := i, ir_lapic := l\<rparr>\<rparr>))"

text \<open>On a table that can be walked, parsing returns: its steps one after the other.\<close>

lemma parse_madt_steps:
  assumes w: "walk_at (ac_mem s) (madt + ucast (sdt_size (ac_mem s) madt)) (madt + sizeof_MADT) xs"
  shows "parse_madt devices madt s =
     Some (obind (run_all (collect_entry devices) xs s) (\<lambda>s1.
           obind (lapic_prepare (ac_kernel_pagemap s1) (ac_cpu s1) (ac_vmm s1)) (\<lambda>(reg_base, v).
           obind (run_all nmi_entry xs (s1\<lparr>ac_reg_base := reg_base, ac_vmm := v\<rparr>)) (\<lambda>s2. finish_madt (mask_lvt s2)))))"
proof -
  have pass: "madt_pass body madt t = Some (run_all body xs t)" if "ac_mem t = ac_mem s" for body t
    using each_entry_walk [OF w] that by (simp add: madt_pass_def)
  have fin: "(let s3 = mask_lvt s2
       in abind (Some (lapic_enable (ac_cpu s3) (ir_idt (ac_irq s3)) (ir_lapic (ac_irq s3)))) (\<lambda>(c, i, l).
            Some (Returns (s3\<lparr>ac_cpu := c, ac_irq := (ac_irq s3)\<lparr>ir_idt := i, ir_lapic := l\<rparr>\<rparr>)))) = Some (finish_madt (mask_lvt s2))" for s2
    unfolding Let_def finish_madt_def by (rule abind_obind) (simp split: prod.splits)
  have "ac_mem s1 = ac_mem s" if "run_all (collect_entry devices) xs s = Returns s1" for s1 using collect_all [OF that refl] by simp
  then show ?thesis unfolding parse_madt_def fin pass [OF refl]
    by (intro abind_obind) (auto intro!: abind_obind simp: pass split: prod.splits)
qed

text \<open>What the table asks for: its enabled processors, its controllers and the last override of every interrupt; the local
  controller on, and its interrupts masked except for the two pins.\<close>

definition madt_configured :: "(uptr \<Rightarrow> u32 \<Rightarrow> u32) \<Rightarrow> memory \<Rightarrow> uptr list \<Rightarrow> acpi \<Rightarrow> acpi \<Rightarrow> bool" where
  "madt_configured devices m xs s s' \<longleftrightarrow>
     ac_lapics s' = ac_lapics s @ concat (map (\<lambda>e. lapic_of (decode_entry m e)) xs) \<and>
     ir_ioapics (ac_irq s') = ir_ioapics (ac_irq s) @ concat (map (\<lambda>e. ioapic_of devices (decode_entry m e)) xs) \<and>
     irq_to_gsi (ac_irq s') = fold (\<lambda>(irq, gsi, flags) l. l[unat irq := gsi])
       (concat (map (\<lambda>e. override_of (decode_entry m e)) xs)) (irq_to_gsi (ac_irq s)) \<and>
     (\<forall>reg \<in> {LVT_CMCI, LVT_TIMER, LVT_PERF, LVT_THERMAL, LVT_ERROR}. ir_lapic (ac_irq s') reg = 0x10000) \<and>
     bit (ir_lapic (ac_irq s') LAPIC_SPURIOUS) 8 \<and> bit (msr_read IA32_APIC_BASE (ac_cpu s')) 11"


text \<open>A corrupted table is not used: when the bytes of the root pointer, of the root table or of a listed table do not add up
  to a multiple of 256, the kernel panics; a sound table of an unknown kind changes nothing.\<close>

theorem acpi_checksums:
  "((\<Sum>k<20. unat (ac_mem s (rsdp + of_nat k))) mod 256 \<noteq> 0 \<longrightarrow> (\<exists>msg. parse_rsdp devices rsdp s = Some (Panics msg))) \<and>
   ((\<Sum>k<unat (sdt_size (ac_mem s) t). unat (ac_mem s (t + of_nat k))) mod 256 \<noteq> 0 \<longrightarrow>
      (\<exists>msg. parse_sdt devices t s = Some (Panics msg)) \<and> (\<forall>pointer width sig. \<exists>msg. parse_root devices pointer width sig t s = Some (Panics msg))) \<and>
   ((\<Sum>k<unat (sdt_size (ac_mem s) t). unat (ac_mem s (t + of_nat k))) mod 256 = 0 \<and>
      sdt_signature (ac_mem s) t \<notin> {[65, 80, 73, 67], [72, 80, 69, 84]} \<longrightarrow> parse_sdt devices t s = Some (Returns s))"
proof -
  have "unat (ucast (sdt_size (ac_mem s) t) :: usize) = unat (sdt_size (ac_mem s) t)" by (rule unat_ucast_32_64)
  then show ?thesis
    by (auto simp: parse_rsdp_def parse_sdt_def parse_root_def do_checksum_iff sizeof_RSDP1_def)
qed

section \<open>A table with one processor\<close>

definition demo_tables :: memory where
  "demo_tables = (\<lambda>_. 0)(0x1004 := 0x34, 0x102D := 8, 0x102E := 3, 0x102F := 5, 0x1030 := 1)"

definition demo_acpi :: acpi where
  "demo_acpi = \<lparr>ac_irq = \<lparr>ir_idt = demo_idt, ir_lapic = (\<lambda>_. 0), ir_ioapics = [], irq_to_gsi = map of_nat [0..<16], irq_flags = replicate 16 0\<rparr>,
     ac_lapics = [], ac_reg_base = 0, ac_vmm = demo_vmm, ac_kernel_pagemap = demo_pagemap, ac_cpu = demo_cpu,
     ac_hpet = \<lparr>hp_initialized = False, hp_period = 0, hp_freq = 0,
       hp_regs = \<lparr>ga_space = 0, ga_bit_width = 0, ga_bit_offset = 0, ga_access_size = 0, ga_addr = 0\<rparr>\<rparr>, ac_mem = demo_tables\<rparr>"


theorem acpi_checksums_witness: "\<exists>msg. parse_sdt (\<lambda>_ _. 0) 0x1000 demo_acpi = Some (Panics msg)"
proof -
  have size: "sdt_size (ac_mem demo_acpi) 0x1000 = 0x34" by (simp add: sdt_size_def read32_def demo_tables_def demo_acpi_def)
  have "(\<Sum>k<52. unat (ac_mem demo_acpi (0x1000 + of_nat k))) mod 256 \<noteq> 0"
    by (simp add: demo_acpi_def demo_tables_def lessThan_nat_numeral lessThan_Suc)
  then show ?thesis using acpi_checksums [of demo_acpi 0 "\<lambda>_ _. 0" "0x1000"] by (simp add: size)
qed

end
