(* ===== verification/Initramfs.thy ===== *)
theory Initramfs
  imports Vfs Printf
begin

text \<open>
  The loader of the initial file tree, \<^verbatim>\<open>src/fs/initramfs.cpp\<close>: it walks a tar archive in memory and creates its files and
  directories. String literals are lists of bytes, and a comparison with one is a comparison of lists; the progress
  messages are left out. \<open>None\<close> means that the call does not return.
\<close>

section \<open>Definitions\<close>

text \<open>The fields of \<^verbatim>\<open>USTARHeader\<close> (\<^verbatim>\<open>initramfs.hpp\<close>) with their sizes, packed.\<close>

definition USTARHeader :: "(string \<times> nat) list" where
  "USTARHeader = [(''name'', 100), (''mode'', 8), (''uid'', 8), (''gid'', 8), (''size'', 12), (''mtime'', 12), (''chksum'', 8),
     (''typeflag'', 1), (''linkname'', 100), (''magic'', 6), (''version'', 2), (''uname'', 32), (''gname'', 32), (''devmajor'', 8),
     (''devminor'', 8), (''prefix'', 155)]"

definition field_offset :: "string \<Rightarrow> usize" where
  "field_offset f = of_nat (sum_list (map snd (takeWhile (\<lambda>x. fst x \<noteq> f) USTARHeader)))"

definition ustar_magic :: "u8 list" where
  "ustar_magic = [117, 115, 116, 97, 114, 0]"

fun octal_to_bin :: "memory \<Rightarrow> uptr \<Rightarrow> nat \<Rightarrow> usize \<Rightarrow> usize" where
  "octal_to_bin m str 0 val = val"
| "octal_to_bin m str (Suc len) val =
     (if m str \<noteq> 0 then octal_to_bin m (str + 1) len (val * 8 + scast (char_digit (m str))) else val)"

text \<open>Adding one node: both assertions, then the node by the type flag.\<close>

definition add_node :: "(usize \<Rightarrow> u8) \<Rightarrow> node_ref \<Rightarrow> key \<Rightarrow> u8 \<Rightarrow> (usize \<Rightarrow> u8) \<Rightarrow> usize \<Rightarrow> vfs \<Rightarrow> vfs outcome option" where
  "add_node fill dir name typeflag data sz v =
     do {
       result \<leftarrow> path_to_node v name dir;
       if Vfs.target result \<noteq> 0 then Some (Panics ''Assertion failed'')
       else case basename result of
         None \<Rightarrow> Some (Panics ''Assertion failed'')
       | Some base \<Rightarrow>
           if typeflag = 48 \<or> typeflag = 0 then
             do {
               (node, v1) \<leftarrow> fs_create instantiate v (target_parent result) base FILE;
               Some (Returns (fs_write instantiate fill v1 node data sz 0))
             }
           else if typeflag = 53 then
             do { (_, v1) \<leftarrow> fs_create instantiate v (target_parent result) base DIRECTORY; Some (Returns v1) }
           else Some (Panics ''Unimplemented node type in initramfs'')
     }"

definition load_entry :: "(usize \<Rightarrow> u8) \<Rightarrow> node_ref \<Rightarrow> memory \<Rightarrow> uptr \<Rightarrow> usize \<Rightarrow> vfs \<Rightarrow> vfs outcome option" where
  "load_entry fill dir m current sz v =
     do {
       name \<leftarrow> c_string m (current + field_offset ''name'');
       if name \<noteq> [46, 47]
       then add_node fill dir name (m (current + field_offset ''typeflag'')) (\<lambda>i. m (current + 512 + i)) sz v
       else Some (Returns v)
     }"

partial_function (option) load_loop :: "(usize \<Rightarrow> u8) \<Rightarrow> node_ref \<Rightarrow> memory \<Rightarrow> uptr \<Rightarrow> uptr \<Rightarrow> vfs \<Rightarrow> vfs outcome option" where
  "load_loop fill dir m end_addr current v =
     (if bytes_at m (current + field_offset ''magic'') 6 \<noteq> ustar_magic then Some (Returns v)
      else
        let sz = octal_to_bin m (current + field_offset ''size'') 12 0
        in Option.bind (load_entry fill dir m current sz v) (\<lambda>r. case r of
             Panics msg \<Rightarrow> Some (Panics msg)
           | Returns v1 \<Rightarrow>
               let next_entry = current + 512 + align_up 512 sz
               in if next_entry \<ge> end_addr then Some (Returns v1) else load_loop fill dir m end_addr next_entry v1))"

declare load_loop.simps [code]

definition load_into :: "(usize \<Rightarrow> u8) \<Rightarrow> node_ref \<Rightarrow> memory \<Rightarrow> uptr \<Rightarrow> usize \<Rightarrow> vfs \<Rightarrow> vfs outcome option" where
  "load_into fill dir m file_addr file_size v = load_loop fill dir m (file_addr + file_size) file_addr v"

section \<open>Archives\<close>

text \<open>An archive as a list of members, and its bytes, as \<^verbatim>\<open>tar --format=ustar\<close> writes them: for each member a header block with the name, the
  length in octal, the type and the magic, then the contents in whole blocks; at the end a block of zeros.\<close>

record member =
  mb_name :: key
  mb_type :: u8
  mb_data :: "u8 list"

fun octal :: "nat \<Rightarrow> nat \<Rightarrow> u8 list" where
  "octal 0 n = []"
| "octal (Suc k) n = octal k (n div 8) @ [48 + of_nat (n mod 8)]"

definition blocks :: "nat \<Rightarrow> nat" where
  "blocks n = (n + 511) div 512 * 512"

text \<open>What the loader reads of a member and of an archive.\<close>

definition member_at :: "memory \<Rightarrow> uptr \<Rightarrow> member \<Rightarrow> bool" where
  "member_at m a e \<longleftrightarrow> cstr m a (mb_name e) \<and> length (mb_name e) < 100 \<and> length (mb_data e) < 8 ^ 11 \<and>
     bytes_at m (a + 124) 12 = octal 11 (length (mb_data e)) @ [0] \<and> m (a + 156) = mb_type e \<and>
     bytes_at m (a + 257) 6 = ustar_magic \<and> bytes_at m (a + 512) (length (mb_data e)) = mb_data e"

fun archive_at :: "memory \<Rightarrow> uptr \<Rightarrow> member list \<Rightarrow> bool" where
  "archive_at m a [] \<longleftrightarrow> bytes_at m (a + 257) 6 \<noteq> ustar_magic"
| "archive_at m a (e # es) \<longleftrightarrow> member_at m a e \<and> archive_at m (a + of_nat (512 + blocks (length (mb_data e)))) es"

definition header_bytes :: "member \<Rightarrow> u8 list" where
  "header_bytes e = mb_name e @ replicate (124 - length (mb_name e)) 0 @ octal 11 (length (mb_data e)) @ [0] @ replicate 20 0 @
     [mb_type e] @ replicate 100 0 @ ustar_magic @ replicate 249 0"

definition member_bytes :: "member \<Rightarrow> u8 list" where
  "member_bytes e = header_bytes e @ mb_data e @ replicate (blocks (length (mb_data e)) - length (mb_data e)) 0"

definition archive_bytes :: "member list \<Rightarrow> u8 list" where
  "archive_bytes es = concat (map member_bytes es) @ replicate 512 0"

text \<open>Names and lengths that fit their fields.\<close>

definition member_ok :: "member \<Rightarrow> bool" where
  "member_ok e \<longleftrightarrow> length (mb_name e) < 100 \<and> 0 \<notin> set (mb_name e) \<and> length (mb_data e) < 8 ^ 11"

definition archive_size :: "member list \<Rightarrow> nat" where
  "archive_size es = (\<Sum>e\<leftarrow>es. 512 + blocks (length (mb_data e))) + 512"

text \<open>The meaning of an archive: its members are added in order, the entry of the top directory is passed over.\<close>

fun add_members :: "(usize \<Rightarrow> u8) \<Rightarrow> node_ref \<Rightarrow> member list \<Rightarrow> vfs \<Rightarrow> vfs outcome option" where
  "add_members fill dir [] v = Some (Returns v)"
| "add_members fill dir (e # es) v =
     (if mb_name e = [46, 47] then add_members fill dir es v
      else Option.bind (add_node fill dir (mb_name e) (mb_type e) (buffer (mb_data e)) (of_nat (length (mb_data e))) v) (\<lambda>r. case r of
        Panics msg \<Rightarrow> Some (Panics msg) | Returns v1 \<Rightarrow> add_members fill dir es v1))"

section \<open>Reading the headers\<close>

lemma field_offsets [simp]: "field_offset ''name'' = 0" "field_offset ''size'' = 124" "field_offset ''typeflag'' = 156"
  "field_offset ''magic'' = 257"
  by (simp_all add: field_offset_def USTARHeader_def)

definition octal_value :: "u8 list \<Rightarrow> nat" where
  "octal_value ds = foldl (\<lambda>v d. v * 8 + (unat d - 48)) 0 ds"

lemma length_octal [simp]: "length (octal k n) = k"
  by (induction k n rule: octal.induct) simp_all

lemma octal_digit: "n < 8 \<Longrightarrow> unat (48 + of_nat n :: u8) = 48 + n \<and> (scast (char_digit (48 + of_nat n)) :: usize) = of_nat n"
proof -
  assume "n < 8"
  then consider "n = 0" | "n = 1" | "n = 2" | "n = 3" | "n = 4" | "n = 5" | "n = 6" | "n = 7" by linarith
  then show ?thesis by cases (simp_all add: char_digit_def)
qed

lemma octal_digits: "d \<in> set (octal k n) \<Longrightarrow> \<exists>j<8. d = 48 + of_nat j"
proof (induction k n rule: octal.induct)
  case (2 k n)
  then show ?case by (cases "d \<in> set (octal k (n div 8))") (simp, auto intro!: exI [of _ "n mod 8"])
qed simp

lemma octal_value_octal: "n < 8 ^ k \<Longrightarrow> octal_value (octal k n) = n"
proof (induction k n rule: octal.induct)
  case (2 k n)
  then have "octal_value (octal k (n div 8)) = n div 8" by (simp add: div_less_iff_less_mult mult.commute)
  then show ?case using octal_digit [of "n mod 8"] by (simp add: octal_value_def)
qed (simp add: octal_value_def)

text \<open>The loop reads digits up to a zero byte or the end of the field.\<close>

lemma octal_to_bin_digits:
  "length ds \<le> len \<Longrightarrow> bytes_at m str (length ds) = ds \<Longrightarrow> len = length ds \<or> m (str + of_nat (length ds)) = 0 \<Longrightarrow>
   \<forall>d \<in> set ds. \<exists>j<8. d = 48 + of_nat j \<Longrightarrow>
   octal_to_bin m str len (of_nat val) = of_nat (foldl (\<lambda>v d. v * 8 + (unat d - 48)) val ds)"
proof (induction ds arbitrary: str len val)
  case Nil
  then show ?case by (cases len) auto
next
  case (Cons d ds)
  then obtain l where l: "len = Suc l" by (cases len) auto
  have bytes: "m str = d" "bytes_at m (str + 1) (length ds) = ds"
    using Cons.prems(2) by (simp_all add: bytes_at_def upt_conv_Cons map_Suc_upt [symmetric] comp_def add.assoc del: upt_Suc)
  obtain j where j: "j < 8" "d = 48 + of_nat j" using Cons.prems(4) by auto
  note oj = octal_digit [OF j(1)]
  have "unat d \<noteq> 0" using oj j(2) by simp
  then have nz: "d \<noteq> 0" by auto
  have end': "l = length ds \<or> m (str + 1 + of_nat (length ds)) = 0" using Cons.prems(3) l by (simp add: add.assoc)
  have "octal_to_bin m str len (of_nat val) = octal_to_bin m (str + 1) l (of_nat (val * 8 + j))"
    using l bytes(1) nz oj j(2) by simp
  also have "\<dots> = of_nat (foldl (\<lambda>v d. v * 8 + (unat d - 48)) (val * 8 + j) ds)"
    by (rule Cons.IH [OF _ bytes(2) end']) (use Cons.prems(1,4) l in simp_all)
  finally show ?case using oj j(2) by simp
qed

lemma member_size:
  assumes "member_at m a e"
  shows "octal_to_bin m (a + 124) 12 0 = of_nat (length (mb_data e))"
proof -
  let ?ds = "octal 11 (length (mb_data e))"
  have b: "bytes_at m (a + 124) 12 = ?ds @ [0]" and n: "length (mb_data e) < 8 ^ 11" using assms by (simp_all add: member_at_def)
  have "bytes_at m (a + 124) (length ?ds) = ?ds" using bytes_at_take [OF b, of 11] by simp
  moreover have "m (a + 124 + of_nat (length ?ds)) = 0" using bytes_at_nth [OF b, of 11] by (simp add: nth_append)
  ultimately have "octal_to_bin m (a + 124) 12 (of_nat 0) = of_nat (octal_value ?ds)"
    unfolding octal_value_def by (intro octal_to_bin_digits) (auto dest: octal_digits)
  then show ?thesis using octal_value_octal [OF n] by simp
qed

lemma round_up_512: "(n + 511) div 512 = (if n mod 512 = 0 then n div 512 else n div 512 + 1)" for n :: nat
proof -
  have "n + 511 = (n mod 512 + 511) + n div 512 * 512" using div_mult_mod_eq [of n 512] by linarith
  then have "(n + 511) div 512 = n div 512 + (n mod 512 + 511) div 512" by (metis add.commute div_mult_self1 zero_neq_numeral)
  moreover have "(n mod 512 + 511) div 512 = 1" if "n mod 512 \<noteq> 0"
    using that by (intro div_nat_eqI) simp_all
  ultimately show ?thesis by simp
qed

lemma align_up_blocks:
  assumes "n < 2 ^ 33"
  shows "align_up 512 (of_nat n :: usize) = of_nat (blocks n)"
proof -
  have u: "unat (of_nat n :: usize) = n" using assms by (intro unat_of_nat_small) simp
  have "unat (of_nat (n div 512) :: usize) = n div 512" using assms by (intro unat_of_nat_small) simp
  moreover have "unat ((of_nat n :: usize) div 512) = n div 512" by (simp add: unat_div u)
  ultimately have d: "(of_nat n :: usize) div 512 = of_nat (n div 512)" by (simp only: word_unat_eq_iff)
  have "unat ((of_nat n :: usize) mod 512) = n mod 512" by (simp add: unat_mod u)
  then have nz: "(of_nat n :: usize) mod 512 = 0 \<longleftrightarrow> n mod 512 = 0" by (metis unsigned_eq_0_iff)
  show ?thesis
  proof (cases "n mod 512 = 0")
    case True
    then have "blocks n = n" using div_mult_mod_eq [of n 512] by (simp add: blocks_def round_up_512)
    moreover have "align_up 512 (of_nat n :: usize) = of_nat n" using nz True by (simp only: align_up_def if_False simp_thms)
    ultimately show ?thesis by simp
  next
    case False
    then have "blocks n = (n div 512 + 1) * 512" by (simp only: blocks_def round_up_512 if_False)
    moreover have "align_up 512 (of_nat n :: usize) = (of_nat n div 512 + 1) * 512"
      using nz False by (simp only: align_up_def if_True simp_thms)
    ultimately show ?thesis using d by (simp only: of_nat_mult of_nat_add) simp
  qed
qed

lemma add_node_cong:
  assumes "\<And>i. i < sz \<Longrightarrow> data i = data' i"
  shows "add_node fill dir name t data sz v = add_node fill dir name t data' sz v"
proof -
  have "write_data fill d data sz 0 = write_data fill d data' sz 0" for d using assms by (rule write_data_cong)
  then have w: "tmpfs_write fill v n data sz 0 = tmpfs_write fill v n data' sz 0" for v n by (simp add: tmpfs_write_def)
  show ?thesis unfolding add_node_def instantiate_simps w by (rule refl)
qed

lemma load_member:
  assumes e: "member_at m a e"
  shows "load_entry fill dir m a (of_nat (length (mb_data e))) v =
     (if mb_name e = [46, 47] then Some (Returns v)
      else add_node fill dir (mb_name e) (mb_type e) (buffer (mb_data e)) (of_nat (length (mb_data e))) v)"
proof -
  have n: "length (mb_data e) < 8 ^ 11" and b: "bytes_at m (a + 512) (length (mb_data e)) = mb_data e" using e by (simp_all add: member_at_def)
  have u: "unat (of_nat (length (mb_data e)) :: usize) = length (mb_data e)" using n by (intro unat_of_nat_small) simp
  have "m (a + 512 + i) = buffer (mb_data e) i" if "i < of_nat (length (mb_data e))" for i
    using bytes_at_nth [OF b, of "unat i"] that u by (simp add: buffer_def word_less_nat_alt)
  moreover have "c_string m a = Some (mb_name e)" using e by (intro c_string_cstr) (auto simp: member_at_def)
  ultimately show ?thesis using e
    by (auto simp: load_entry_def member_at_def intro: add_node_cong)
qed

lemma load_archive:
  "archive_at m a es \<Longrightarrow> unat a + archive_size es \<le> unat end_addr \<Longrightarrow> load_loop fill dir m end_addr a v = add_members fill dir es v"
proof (induction es arbitrary: a v)
  case Nil
  then show ?case by (simp add: load_loop.simps [of fill dir m])
next
  case (Cons e es)
  let ?n = "length (mb_data e)" and ?step = "512 + blocks (length (mb_data e))"
  let ?next = "a + of_nat ?step"
  have e: "member_at m a e" using Cons.prems(1) by simp
  then have n: "?n < 2 ^ 33" by (simp add: member_at_def)
  have fits: "unat a + ?step + archive_size es \<le> unat end_addr" "512 \<le> archive_size es"
    using Cons.prems(2) by (simp_all add: archive_size_def)
  have s: "unat (of_nat ?step :: usize) = ?step" using fits unat_64 [of end_addr] by (intro unat_of_nat_small) simp
  have nx: "unat ?next = unat a + ?step" using fits unat_64 [of end_addr] s by (subst unat_add_nowrap) simp_all
  then have lt: "?next < end_addr" using fits by (simp add: word_less_nat_alt)
  have nle: "(end_addr \<le> ?next) = False" using lt by simp
  have next': "a + 512 + align_up 512 (of_nat ?n) = ?next" using align_up_blocks [OF n] by simp
  have IH: "load_loop fill dir m end_addr ?next w = add_members fill dir es w" for w
    using Cons.IH [of ?next w] Cons.prems(1) fits(1) nx by simp
  have magic: "bytes_at m (a + 257) 6 = ustar_magic" using e by (simp add: member_at_def)
  have "load_loop fill dir m end_addr a v =
      Option.bind (load_entry fill dir m a (of_nat ?n) v) (\<lambda>r. case r of Panics msg \<Rightarrow> Some (Panics msg)
        | Returns v1 \<Rightarrow> load_loop fill dir m end_addr ?next v1)"
    using magic member_size [OF e]
    by (subst load_loop.simps) (simp add: Let_def next' nle del: of_nat_add)
  note step = this [unfolded IH load_member [OF e]]
  show ?case unfolding step by (cases "mb_name e = [46, 47]") simp_all
qed

section \<open>What the archiver writes is what the loader reads\<close>

lemma octal_length [simp]: "length (octal k n) = k"
  by (induction k n rule: octal.induct) simp_all

lemma ustar_magic_length [simp]: "length ustar_magic = 6" by (simp add: ustar_magic_def)

lemma header_length [simp]: "member_ok e \<Longrightarrow> length (header_bytes e) = 512"
  by (simp add: header_bytes_def member_ok_def)

lemma blocks_ge: "n \<le> blocks n"
  by (simp add: blocks_def)

lemma member_length [simp]: "member_ok e \<Longrightarrow> length (member_bytes e) = 512 + blocks (length (mb_data e))"
  using blocks_ge by (simp add: member_bytes_def)

lemma header_at:
  assumes ok: "member_ok e" and b: "bytes_at m a (length (member_bytes e)) = member_bytes e"
  shows "member_at m a e"
proof -
  let ?n = "mb_name e" and ?d = "mb_data e" and ?l = "length (mb_name e)"
  let ?pad = "replicate (blocks (length ?d) - length ?d) 0" and ?h = "?n @ replicate (124 - ?l) 0"
  have l: "?l < 100" using ok by (simp add: member_ok_def)
  have all: "bytes_at m a (length (member_bytes e)) =
      ?h @ (octal 11 (length ?d) @ [0]) @ replicate 20 0 @ [mb_type e] @ replicate 100 0 @ ustar_magic @ replicate 249 0 @ ?d @ ?pad"
    using b by (simp add: member_bytes_def header_bytes_def)
  have "124 - ?l = Suc (123 - ?l)" using l by simp
  then have "replicate (124 - ?l) (0 :: u8) = 0 # replicate (123 - ?l) 0" by simp
  then have "bytes_at m a (length (?n @ [0])) = ?n @ [0]"
    using all by (intro bytes_at_split(1) [of m a "length (member_bytes e)"]) simp
  then have name: "cstr m a ?n" using cstr_bytes [of m a ?n] ok by (simp add: member_ok_def)
  have sz: "bytes_at m (a + 124) 12 = octal 11 (length ?d) @ [0]" using bytes_at_middle [OF all] l by simp
  have "bytes_at m (a + 156) 1 = [mb_type e]"
    using bytes_at_middle [of m a _ "?h @ (octal 11 (length ?d) @ [0]) @ replicate 20 0" "[mb_type e]"] all l by simp
  then have ty: "m (a + 156) = mb_type e" by (simp add: bytes_at_def)
  have magic: "bytes_at m (a + 257) 6 = ustar_magic"
    using bytes_at_middle [of m a _ "?h @ (octal 11 (length ?d) @ [0]) @ replicate 20 0 @ [mb_type e] @ replicate 100 0" ustar_magic] all l by simp
  have "bytes_at m (a + 512) (length ?d) = ?d"
    using bytes_at_middle [of m a _ "?h @ (octal 11 (length ?d) @ [0]) @ replicate 20 0 @ [mb_type e] @ replicate 100 0 @ ustar_magic @ replicate 249 0" ?d ?pad]
      all l by simp
  then show ?thesis using name sz ty magic ok by (simp add: member_at_def member_ok_def)
qed

lemma archive_bytes_at:
  "\<forall>e \<in> set es. member_ok e \<Longrightarrow> bytes_at m a (length (archive_bytes es)) = archive_bytes es \<Longrightarrow> archive_at m a es"
proof (induction es arbitrary: a)
  case Nil
  then have "bytes_at m a (257 + 255) = replicate 257 0 @ replicate 255 0" by (simp add: archive_bytes_def replicate_add [symmetric])
  then have "bytes_at m (a + 257) 255 = replicate 255 0" using bytes_at_split [of m a "257 + 255" "replicate 257 0" "replicate 255 0"] by simp
  then have "bytes_at m (a + 257) 6 = replicate 6 0" using bytes_at_take [of m "a + 257" 255 "replicate 255 0" 6] by simp
  then have "hd (bytes_at m (a + 257) 6) \<noteq> hd ustar_magic" by (simp add: ustar_magic_def)
  then show ?case by auto
next
  case (Cons e es)
  have b: "bytes_at m a (length (archive_bytes (e # es))) = member_bytes e @ archive_bytes es" using Cons.prems(2) by (simp add: archive_bytes_def)
  note sp = bytes_at_split [OF b]
  show ?case using header_at [of e m a] Cons.IH [of "a + of_nat (512 + blocks (length (mb_data e)))"] Cons.prems(1) sp by simp
qed

lemma archive_length: "\<forall>e \<in> set es. member_ok e \<Longrightarrow> length (archive_bytes es) = archive_size es"
  by (induction es) (simp_all add: archive_bytes_def archive_size_def)

section \<open>Loading an archive\<close>

lemma load_into_members:
  assumes "\<forall>e \<in> set es. member_ok e" and "bytes_at m file_addr (length (archive_bytes es)) = archive_bytes es"
    and "length (archive_bytes es) \<le> unat file_size" and "unat file_addr + unat file_size < 2 ^ 64"
  shows "load_into fill dir m file_addr file_size v = add_members fill dir es v"
proof -
  have "unat (file_addr + file_size) = unat file_addr + unat file_size" using assms(4) by (intro unat_add_nowrap) simp
  then show ?thesis unfolding load_into_def using assms(3) archive_length [OF assms(1)]
    by (intro load_archive [OF archive_bytes_at [OF assms(1,2)]]) simp
qed


section \<open>Adding one member\<close>

lemma add_node_new:
  assumes "path_to_node v name dir = Some \<lparr>target_parent = d, target = 0, basename = Some base\<rparr>"
  shows "add_node fill dir name t data sz v =
     (if t = 48 \<or> t = 0 then do { (node, v1) \<leftarrow> tmpfs_create v d base FILE; Some (Returns (tmpfs_write fill v1 node data sz 0)) }
      else if t = 53 then do { (_, v1) \<leftarrow> tmpfs_create v d base DIRECTORY; Some (Returns v1) }
      else Some (Panics ''Unimplemented node type in initramfs''))"
  using assms by (simp add: add_node_def)

text \<open>A path that resolves goes on resolving to the same node when a new name is added to a directory.\<close>

lemma resolve_extends:
  assumes wf: "vfs_wf s" and ext: "extends s s' d name n" and fresh: "hm_get (nd_children (vs_node s d)) name = None"
  shows "is_node s x \<Longrightarrow> resolve s x cs = Some r \<Longrightarrow> Vfs.target r \<noteq> 0 \<Longrightarrow> resolve s' x cs = Some r"
proof (induction cs arbitrary: x)
  case (Cons c cs)
  have dir: "nd_type (vs_node s x) = DIRECTORY" using Cons.prems by (auto simp: no_result_def split: if_splits)
  then obtain y z where y: "hm_get (nd_children (vs_node s x)) c = Some y" "reduce_node s y = Some z"
      "(if cs = [] then Some \<lparr>target_parent = x, target = z, basename = Some c\<rparr> else resolve s z cs) = Some r"
    using Cons.prems by (auto simp: bind_eq_Some_conv split: option.splits if_splits)
  have "child s x c = Some z" using y by (simp add: child_def)
  moreover have "\<not> (x = d \<and> c = name)" using y(1) fresh by auto
  ultimately have c': "child s' x c = Some z" using extends_child [OF wf ext Cons.prems(1) dir] by simp
  have dir': "nd_type (vs_node s' x) = DIRECTORY" using ext Cons.prems(1) dir by (simp add: extends_def)
  have "is_node s y" using wf_node(1) [OF wf Cons.prems(1) dir] y(1) by (auto simp: dir_ok_def is_node_def)
  then have "is_node s z" using reduce_node_returns [OF wf, of y] y(2) by auto
  then show ?case using Cons.IH [of z] Cons.prems(3) y(3) resolve_child [OF dir' c', of cs] by (cases "cs = []") auto
qed simp

lemma path_to_node_path:
  assumes "dir \<noteq> 0" "cs \<noteq> []" "\<forall>c \<in> set cs. slash \<notin> set c \<and> c \<noteq> []" "path \<in> {join cs, join cs @ [slash]}"
  shows "path_to_node v path dir = resolve v dir cs"
  using assms join_nonempty [of cs] by (auto simp: path_to_node_def path_loop_resolve components_join components_trailing)

definition parent_of :: "vfs \<Rightarrow> node_ref \<Rightarrow> key list \<Rightarrow> node_ref \<Rightarrow> bool" where
  "parent_of v dir cs d \<longleftrightarrow> (if cs = [] then d = dir else \<exists>r. resolve v dir cs = Some r \<and> Vfs.target r = d)"

lemma resolve_parent: "parent_of v dir cs d \<Longrightarrow> d \<noteq> 0 \<Longrightarrow> resolve v dir (cs @ [base]) = resolve v d [base]"
  by (auto simp: parent_of_def resolve_append split: if_splits)

text \<open>What both kinds of member share: the new name in the parent, and where the path then leads.\<close>

lemma created_member:
  assumes wf: "vfs_wf v" and dir: "is_node v dir" and parent: "parent_of v dir cs d" and d: "is_node v d" "nd_type (vs_node v d) = DIRECTORY"
    and fresh: "hm_get (nd_children (vs_node v d)) base = None" and ext: "extends v v' d base n" and c: "child v' d base = Some n"
  shows "resolve v' dir (cs @ [base]) = Some \<lparr>target_parent = d, target = n, basename = Some base\<rparr>"
proof -
  have "d \<noteq> 0" using d(1) by (simp add: is_node_def)
  have "parent_of v' dir cs d"
    using parent resolve_extends [OF wf ext fresh dir] \<open>d \<noteq> 0\<close> by (auto simp: parent_of_def split: if_splits)
  moreover have "nd_type (vs_node v' d) = DIRECTORY" using ext d by (simp add: extends_def)
  ultimately show ?thesis using resolve_parent [of v' dir cs d base] \<open>d \<noteq> 0\<close> resolve_child [of v' d base n "[]"] c by simp
qed

text \<open>A new file and a new directory under an existing parent.\<close>

lemma added_file:
  assumes wf: "vfs_wf v" and dir: "is_node v dir" and parent: "parent_of v dir cs d"
    and d: "is_node v d" "nd_type (vs_node v d) = DIRECTORY" "hm_room (nd_children (vs_node v d))"
    and names: "\<forall>c \<in> set (cs @ [base]). slash \<notin> set c \<and> c \<noteq> []" and path: "path \<in> {join (cs @ [base]), join (cs @ [base]) @ [slash]}"
    and xs: "length xs < 2 ^ 64" and fresh: "hm_get (nd_children (vs_node v d)) base = None"
  shows "\<exists>v'. add_node fill dir path 48 (buffer xs) (of_nat (length xs)) v = Some (Returns v') \<and> vfs_wf v' \<and> vs_root v' = vs_root v \<and>
     (\<forall>as. parent_of v dir as d \<longrightarrow> resolve v' dir (as @ [base]) = Some \<lparr>target_parent = d, target = vs_next v, basename = Some base\<rparr>) \<and>
     nd_type (vs_node v' (vs_next v)) = FILE \<and> file_bytes (nd_data (vs_node v' (vs_next v))) = xs"
proof -
  let ?n = "vs_next v"
  have "dir \<noteq> 0" "d \<noteq> 0" using dir d(1) by (simp_all add: is_node_def)
  have "path_to_node v path dir = resolve v d [base]"
    using path_to_node_path [OF \<open>dir \<noteq> 0\<close> _ names path] resolve_parent [OF parent \<open>d \<noteq> 0\<close>] by simp
  then have r0: "path_to_node v path dir = Some \<lparr>target_parent = d, target = 0, basename = Some base\<rparr>" using d(2) fresh by simp
  obtain f where f: "tmpfs_create v d base FILE = Some (?n, f)" "vfs_wf f" "extends v f d base ?n" "nd_type (vs_node f ?n) = FILE"
      "nd_data (vs_node f ?n) = empty_data" "child f d base = Some ?n" "vs_root f = vs_root v"
    using create_file_ok [OF wf d fresh] by blast
  let ?w = "tmpfs_write fill f ?n (buffer xs) (of_nat (length xs)) 0"
  have w: "?w = set_data f ?n (write_data fill empty_data (buffer xs) (of_nat (length xs)) 0)"
    using f(4,5) by (simp add: tmpfs_write_def)
  have "file_bytes (nd_data (vs_node ?w ?n)) = xs"
    using tmpfs_write_read [of f ?n 0 xs fill] f(4,5) xs by (simp add: splice_bytes_def file_bytes_def empty_data_def)
  moreover have "resolve ?w dir (as @ [base]) = Some \<lparr>target_parent = d, target = ?n, basename = Some base\<rparr>" if "parent_of v dir as d" for as
    using created_member [OF wf dir that d(1,2) fresh f(3,6)] w by simp
  moreover have "nd_type (vs_node ?w ?n) = FILE" "vs_root ?w = vs_root v" using f(4,7) w by (simp_all add: set_data_def)
  ultimately show ?thesis using vfs_wf_set_data [OF f(2)] w f(1) by (intro exI [of _ ?w]) (simp add: add_node_new [OF r0])
qed

lemma added_dir:
  assumes wf: "vfs_wf v" and dir: "is_node v dir" and parent: "parent_of v dir cs d"
    and d: "is_node v d" "nd_type (vs_node v d) = DIRECTORY" "hm_room (nd_children (vs_node v d))"
    and names: "\<forall>c \<in> set (cs @ [base]). slash \<notin> set c \<and> c \<noteq> []" and path: "path \<in> {join (cs @ [base]), join (cs @ [base]) @ [slash]}"
    and fresh: "hm_get (nd_children (vs_node v d)) base = None"
  shows "\<exists>v'. add_node fill dir path 53 data sz v = Some (Returns v') \<and> vfs_wf v' \<and> extends v v' d base (vs_next v) \<and> vs_root v' = vs_root v \<and>
     (\<forall>as. parent_of v dir as d \<longrightarrow> resolve v' dir (as @ [base]) = Some \<lparr>target_parent = d, target = vs_next v, basename = Some base\<rparr>) \<and> is_node v' (vs_next v) \<and>
     nd_type (vs_node v' (vs_next v)) = DIRECTORY \<and> hm_room (nd_children (vs_node v' (vs_next v))) \<and>
     dom (hm_get (nd_children (vs_node v' (vs_next v)))) = {dot_name, dotdot_name}"
proof -
  let ?n = "vs_next v"
  have "dir \<noteq> 0" "d \<noteq> 0" using dir d(1) by (simp_all add: is_node_def)
  have "path_to_node v path dir = resolve v d [base]"
    using path_to_node_path [OF \<open>dir \<noteq> 0\<close> _ names path] resolve_parent [OF parent \<open>d \<noteq> 0\<close>] by simp
  then have r0: "path_to_node v path dir = Some \<lparr>target_parent = d, target = 0, basename = Some base\<rparr>" using d(2) fresh by simp
  obtain g where g: "tmpfs_create v d base DIRECTORY = Some (?n, g)" "vfs_wf g" "extends v g d base ?n" "nd_type (vs_node g ?n) = DIRECTORY"
      "child g d base = Some ?n" "hm_room (nd_children (vs_node g ?n))" "vs_next v < vs_next g" "vs_root g = vs_root v"
      "hm_get (nd_children (vs_node g ?n)) = [dot_name \<mapsto> ?n + 1, dotdot_name \<mapsto> ?n + 2]"
    using create_dir_ok [OF wf d fresh] by blast
  have "is_node g ?n" using g(7) d(1) by (simp add: is_node_def)
  then show ?thesis using g created_member [OF wf dir _ d(1,2) fresh g(3,5)]
    by (intro exI [of _ g]) (auto simp: add_node_new [OF r0])
qed

text \<open>A member of the archive whose parent directory is there and whose name is new becomes a file with exactly its
  contents, or a directory, found under its path (with or without a final slash) in a tree that stays well-formed. A member
  whose name is taken makes the kernel panic, and so does one of an unknown type.\<close>

theorem archive_member_added:
  assumes wf: "vfs_wf v" and dir: "is_node v dir" and parent: "parent_of v dir cs d"
    and d: "is_node v d" "nd_type (vs_node v d) = DIRECTORY" "hm_room (nd_children (vs_node v d))"
    and names: "\<forall>c \<in> set (cs @ [base]). slash \<notin> set c \<and> c \<noteq> []" and path: "path \<in> {join (cs @ [base]), join (cs @ [base]) @ [slash]}"
    and xs: "length xs < 2 ^ 64"
  shows "if hm_get (nd_children (vs_node v d)) base = None then
       (\<exists>v' n. add_node fill dir path 48 (buffer xs) (of_nat (length xs)) v = Some (Returns v') \<and> vfs_wf v' \<and>
          path_to_node v' path dir = Some \<lparr>target_parent = d, target = n, basename = Some base\<rparr> \<and>
          nd_type (vs_node v' n) = FILE \<and> file_bytes (nd_data (vs_node v' n)) = xs) \<and>
       (\<exists>v' n. add_node fill dir path 53 (buffer xs) (of_nat (length xs)) v = Some (Returns v') \<and> vfs_wf v' \<and>
          path_to_node v' path dir = Some \<lparr>target_parent = d, target = n, basename = Some base\<rparr> \<and> nd_type (vs_node v' n) = DIRECTORY) \<and>
       (\<forall>t. t \<notin> {0, 48, 53} \<longrightarrow>
          add_node fill dir path t (buffer xs) (of_nat (length xs)) v = Some (Panics ''Unimplemented node type in initramfs''))
     else \<forall>t. add_node fill dir path t (buffer xs) (of_nat (length xs)) v = Some (Panics ''Assertion failed'')"
proof -
  have "dir \<noteq> 0" "d \<noteq> 0" using dir d(1) by (simp_all add: is_node_def)
  have p: "path_to_node w path dir = resolve w dir (cs @ [base])" for w
    using path_to_node_path [OF \<open>dir \<noteq> 0\<close> _ names path] by simp
  have r: "path_to_node v path dir = resolve v d [base]" using p resolve_parent [OF parent \<open>d \<noteq> 0\<close>] by simp
  show ?thesis
  proof (cases "hm_get (nd_children (vs_node v d)) base")
    case None
    have r0: "path_to_node v path dir = Some \<lparr>target_parent = d, target = 0, basename = Some base\<rparr>" using r d(2) None by simp
    have 1: "\<exists>v' n. add_node fill dir path 48 (buffer xs) (of_nat (length xs)) v = Some (Returns v') \<and> vfs_wf v' \<and>
          path_to_node v' path dir = Some \<lparr>target_parent = d, target = n, basename = Some base\<rparr> \<and>
          nd_type (vs_node v' n) = FILE \<and> file_bytes (nd_data (vs_node v' n)) = xs"
      using added_file [OF wf dir parent d names path xs None, of fill] parent unfolding p by blast
    have 2: "\<exists>v' n. add_node fill dir path 53 (buffer xs) (of_nat (length xs)) v = Some (Returns v') \<and> vfs_wf v' \<and>
          path_to_node v' path dir = Some \<lparr>target_parent = d, target = n, basename = Some base\<rparr> \<and> nd_type (vs_node v' n) = DIRECTORY"
      using added_dir [OF wf dir parent d names path None, of fill] parent unfolding p by blast
    show ?thesis using None 1 2 by (simp add: add_node_new [OF r0])
  next
    case (Some y)
    then have "is_node v y" using wf_node(1) [OF wf d(1,2)] by (simp add: dir_ok_def is_node_def)
    then obtain z where "reduce_node v y = Some z" "is_node v z" using reduce_node_returns [OF wf] by blast
    then have "path_to_node v path dir = Some \<lparr>target_parent = d, target = z, basename = Some base\<rparr>" "z \<noteq> 0"
      using r d(2) Some by (simp_all add: is_node_def)
    then show ?thesis using Some by (simp add: add_node_def)
  qed
qed

section \<open>A small archive\<close>

definition demo_member :: member where
  "demo_member = \<lparr>mb_name = [97], mb_type = 48, mb_data = [7]\<rparr>"

lemma demo_member_ok: "\<forall>e \<in> set [demo_member]. member_ok e"
  by (simp add: demo_member_def member_ok_def)


theorem archive_member_added_witness:
  "\<exists>v' n. add_node (\<lambda>_. 0) 1 [97] 48 (buffer [7]) 1 boot_vfs = Some (Returns v') \<and>
     path_to_node v' [97] 1 = Some \<lparr>target_parent = 1, target = n, basename = Some [97]\<rparr> \<and> file_bytes (nd_data (vs_node v' n)) = [7]"
proof -
  have "parent_of boot_vfs 1 [] 1" by (simp add: parent_of_def)
  moreover have "hm_get (nd_children (vs_node boot_vfs 1)) [97] = None" using boot_vfs_ok by (simp add: dot_name_def dotdot_name_def)
  ultimately show ?thesis
    using archive_member_added [of boot_vfs 1 "[]" 1 "[97]" "[97]" "[7]" "\<lambda>_. 0"] boot_vfs_ok by (auto simp: slash_def)
qed

end
