(* ===== verification/Cpu_Init.thy ===== *)
theory Cpu_Init
  imports Syscalls
begin

text \<open>
  Bringing up the processors, \<^verbatim>\<open>src/cpu/cpu.cpp\<close>: \<^verbatim>\<open>early_init\<close> on the boot processor, \<^verbatim>\<open>smp_init\<close>, which hands every processor its
  \<^verbatim>\<open>Local\<close> block, and \<^verbatim>\<open>init\<close>, which each of them runs. The descriptor tables and the memory managers are shared, the registers are
  those of the processor that executes. What \<^verbatim>\<open>init\<close> establishes is what the system call entry relies on: the segment selectors
  in \<^verbatim>\<open>IA32_STAR\<close>, the entry point, and interrupts off on entry. The progress messages are left out.
\<close>

unbundle bit_operations_syntax

section \<open>Definitions\<close>

record limine_smp_info =
  si_processor_id :: u32
  si_lapic_id :: u32
  si_goto_address :: uptr
  si_extra_argument :: u64

record limine_smp_response =
  sr_bsp_lapic_id :: u32
  sr_cpus :: "limine_smp_info list"

text \<open>Addresses of static objects and functions.\<close>

record statics =
  st_gdt :: uptr
  st_idt :: uptr
  st_idt_raw_bitmap :: uptr
  st_idt_wrappers :: "u8 \<Rightarrow> uptr"
  st_syscall_entry :: uptr
  st_cpu_init :: uptr
  st_kernel_pagemap :: Pagemap

record cpu_setup =
  cs_regs :: cpu_regs
  cs_gdt :: "GDTEntry list"
  cs_idt :: idt_state
  cs_vmm :: vmm
  cs_local :: "uptr \<Rightarrow> Local"

definition cpu_stack_size :: usize where "cpu_stack_size = 0x10000"

text \<open>\<^verbatim>\<open>&local->tss\<close> in the packed struct.\<close>

definition local_tss :: "uptr \<Rightarrow> uptr" where "local_tss local = local + 9"

definition PAT_value :: u64 where "PAT_value = 0x501040600070406"

definition early_init :: "statics \<Rightarrow> cpu_setup \<Rightarrow> cpu_setup" where
  "early_init st s =
     (case load_gdt (st_gdt st) (cs_gdt s) (cs_regs s) of (gdt, c1) \<Rightarrow>
      case load_idt (st_idt_wrappers st) (st_idt_raw_bitmap st) (st_idt st) c1 (cs_idt s) of (c2, gates) \<Rightarrow>
        s\<lparr>cs_gdt := gdt, cs_idt := gates, cs_regs := msr_write IA32_PAT PAT_value c2\<rparr>)"

definition init_msrs :: "statics \<Rightarrow> cpu_regs \<Rightarrow> cpu_regs" where
  "init_msrs st c =
     (let c1 = msr_write IA32_PAT PAT_value c;
          c2 = msr_write IA32_EFER (msr_read IA32_EFER c1 OR 1) c1;
          c3 = msr_write IA32_FMASK (msr_read IA32_FMASK c2 OR 0x200) c2;
          c4 = msr_write IA32_STAR star_value c3
      in msr_write IA32_LSTAR (st_syscall_entry st) c4)"

definition set_local :: "uptr \<Rightarrow> (Local \<Rightarrow> Local) \<Rightarrow> cpu_setup \<Rightarrow> cpu_setup" where
  "set_local a f s = s\<lparr>cs_local := (cs_local s)(a := f (cs_local s a))\<rparr>"

text \<open>The result says whether the call comes back: every processor but the boot processor halts at the end, with interrupts off.\<close>

definition cpu_init :: "statics \<Rightarrow> limine_smp_info \<Rightarrow> cpu_setup \<Rightarrow> (bool \<times> cpu_setup) outcome" where
  "cpu_init st info s =
     (case load_idt (st_idt_wrappers st) (st_idt_raw_bitmap st) (st_idt st) (reload_gdt (st_gdt st) (cs_regs s)) (cs_idt s) of (c1, gates) \<Rightarrow>
      let local = si_extra_argument info;
          s1 = s\<lparr>cs_idt := gates, cs_vmm := activate (st_kernel_pagemap st) (cs_vmm s)\<rparr>;
          s2 = set_local local (\<lambda>l. l\<lparr>lapic_id := ucast (si_lapic_id info)\<rparr>) s1
      in case load_tss (local_tss local) (cs_gdt s2) c1 of (gdt, c2) \<Rightarrow>
         obind (alloc_pages (cpu_stack_size div 0x1000) (v_pmm (cs_vmm s2))) (\<lambda>(int_stack_phy, p1).
         let s3 = set_local local (\<lambda>l. l\<lparr>lc_tss := (lc_tss l)\<lparr>ts_rsp0 := int_stack_phy + cpu_stack_size + v_hhdm (cs_vmm s2)\<rparr>\<rparr>) s2
         in obind (alloc_pages (cpu_stack_size div 0x1000) p1) (\<lambda>(sched_stack_phy, p2).
            let s4 = set_local local (\<lambda>l. l\<lparr>lc_tss := (lc_tss l)\<lparr>ts_ist1 := sched_stack_phy + cpu_stack_size + v_hhdm (cs_vmm s2)\<rparr>\<rparr>) s3;
                c3 = init_msrs st c2;
                c4 = (if is_bsp (cs_local s4 local) then c3 else c3\<lparr>interrupt_flag := False\<rparr>)
            in Returns (is_bsp (cs_local s4 local),
                 s4\<lparr>cs_gdt := gdt, cs_regs := c4, cs_vmm := (cs_vmm s4)\<lparr>v_pmm := p2\<rparr>\<rparr>))))"

text \<open>One round of the loop of \<^verbatim>\<open>smp_init\<close>; \<open>addr\<close> is the block that \<^verbatim>\<open>new Local()\<close> returns. The other processors start at
  \<^verbatim>\<open>goto_address\<close> as soon as it is stored.\<close>

definition smp_cpu :: "statics \<Rightarrow> u32 \<Rightarrow> nat \<Rightarrow> uptr \<Rightarrow> limine_smp_info \<Rightarrow> cpu_setup \<Rightarrow> (limine_smp_info \<times> cpu_setup) outcome" where
  "smp_cpu st bsp_lapic_id i addr info s =
     (let s1 = s\<lparr>cs_local := (cs_local s)(addr := new_Local\<lparr>cpu_number := of_nat i\<rparr>)\<rparr>;
          info1 = info\<lparr>si_extra_argument := addr\<rparr>
      in if si_lapic_id info \<noteq> bsp_lapic_id then Returns (info1\<lparr>si_goto_address := st_cpu_init st\<rparr>, s1)
         else obind (cpu_init st info1 (set_local addr (\<lambda>l. l\<lparr>is_bsp := True\<rparr>) s1)) (\<lambda>(_, s2). Returns (info1, s2)))"

fun smp_loop :: "statics \<Rightarrow> u32 \<Rightarrow> nat \<Rightarrow> uptr list \<Rightarrow> limine_smp_info list \<Rightarrow> cpu_setup \<Rightarrow> (limine_smp_info list \<times> cpu_setup) outcome" where
  "smp_loop st bsp i (addr # addrs) (info # infos) s =
     obind (smp_cpu st bsp i addr info s) (\<lambda>(info', s1).
     obind (smp_loop st bsp (Suc i) addrs infos s1) (\<lambda>(infos', s2). Returns (info' # infos', s2)))"
| "smp_loop st bsp i addrs infos s = Returns ([], s)"

definition smp_init :: "statics \<Rightarrow> uptr list \<Rightarrow> limine_smp_response \<Rightarrow> cpu_setup \<Rightarrow> (limine_smp_response \<times> cpu_setup) outcome" where
  "smp_init st addrs res s =
     obind (smp_loop st (sr_bsp_lapic_id res) 0 addrs (sr_cpus res) s) (\<lambda>(infos, s'). Returns (res\<lparr>sr_cpus := infos\<rparr>, s'))"

section \<open>The model specific registers\<close>

lemmas msr_numbers = IA32_PAT_def IA32_EFER_def IA32_FMASK_def IA32_STAR_def IA32_LSTAR_def

lemma init_msrs_read:
  "msr_read r (init_msrs st c) =
     (if r = IA32_PAT then PAT_value else if r = IA32_EFER then msr_read IA32_EFER c OR 1
      else if r = IA32_FMASK then msr_read IA32_FMASK c OR 0x200 else if r = IA32_STAR then star_value
      else if r = IA32_LSTAR then st_syscall_entry st else msr_read r c)"
  by (simp add: init_msrs_def Let_def msr_read_write msr_numbers)

lemma init_msrs_other [simp]:
  "gdtr (init_msrs st c) = gdtr c" "idtr (init_msrs st c) = idtr c" "task_register (init_msrs st c) = task_register c"
  "interrupt_flag (init_msrs st c) = interrupt_flag c"
  by (simp_all add: init_msrs_def Let_def msr_write_def)

text \<open>The memory type of a page is the byte of the attribute table that its three flag bits select.\<close>

definition pat_entry :: "u64 \<Rightarrow> nat \<Rightarrow> u64" where
  "pat_entry v i = drop_bit (8 * i) v AND 0xFF"

definition pat_index :: "u64 \<Rightarrow> nat" where
  "pat_index flags = (if flags AND PAGE_ATTRIBUTE_TABLE \<noteq> 0 then 4 else 0) + (if flags AND PAGE_CACHE_DISABLE \<noteq> 0 then 2 else 0) +
     (if flags AND 8 \<noteq> 0 then 1 else 0)"

lemma pat_types:
  "map (pat_entry PAT_value) [0..<8] = [6, 4, 7, 0, 6, 4, 1, 5]" "pat_entry PAT_value (pat_index PAGE_WRITE_COMBINING) = 1"
  "pat_entry PAT_value (pat_index (PAGE_PRESENT OR PAGE_WRITABLE)) = 6"
  by (simp_all add: pat_entry_def PAT_value_def pat_index_def PAGE_WRITE_COMBINING_def PAGE_ATTRIBUTE_TABLE_def PAGE_CACHE_DISABLE_def
      PAGE_PRESENT_def PAGE_WRITABLE_def upt_rec drop_bit_eq_div)

section \<open>Room for several stacks\<close>

text \<open>A run of free pages that lies on one side of the search index. Taking \<open>n\<close> pages, wherever they are, leaves such a run of \<open>k\<close> pages
  when there were \<open>2 * k + n\<close>.\<close>

definition side_run :: "pmm \<Rightarrow> nat \<Rightarrow> nat \<Rightarrow> bool" where
  "side_run p n b \<longleftrightarrow> (unat (page_bitmap_index p) \<le> b \<or> b + n \<le> unat (page_bitmap_index p)) \<and> b + n \<le> unat (Bitmap.m_size (page_bitmap p)) \<and>
     (\<forall>j. b \<le> unat j \<and> unat j < b + n \<longrightarrow> \<not> page_used p j)"

lemma free_run_side_run: "free_run p (page_bitmap_index p) (Bitmap.m_size (page_bitmap p)) n b \<Longrightarrow> side_run p (unat n) b"
  by (simp add: free_run_def side_run_def)

lemma alloc_side_run:
  assumes wf: "pmm_wf p" and n: "n \<noteq> 0" and run: "side_run p m b" and m: "2 * k + unat n \<le> m"
  shows "\<exists>f p' b'. alloc_pages n p = Returns (f, p') \<and> pmm_wf p' \<and> side_run p' k b'"
proof -
  have r: "b + m \<le> unat (Bitmap.m_size (page_bitmap p))" "\<And>j. b \<le> unat j \<Longrightarrow> unat j < b + m \<Longrightarrow> \<not> page_used p j"
    using run by (auto simp: side_run_def)
  have "free_run p (page_bitmap_index p) (Bitmap.m_size (page_bitmap p)) n b \<or> free_run p 0 (page_bitmap_index p) n b"
    using run m by (auto simp: side_run_def free_run_def)
  with wf have "\<exists>k. alloc_pages n p = Returns (k * 0x1000, marked k n p) \<and> free_run p 0 (Bitmap.m_size (page_bitmap p)) n (unat k)"
  proof (cases rule: alloc_pages_cases [of p n])
    case (found c)
    then show ?thesis using free_run_side [OF wf found(2)] by blast
  qed (use n in auto)
  then obtain c where c: "alloc_pages n p = Returns (c * 0x1000, marked c n p)" and cr: "free_run p 0 (Bitmap.m_size (page_bitmap p)) n (unat c)"
    by blast
  note nz = free_run_nonzero [OF wf n order_refl cr]
  let ?q = "marked c n p"
  have idx: "unat (page_bitmap_index ?q) = unat c + unat n" using nz by simp
  have used: "page_used ?q j \<longleftrightarrow> page_used p j \<or> unat c \<le> unat j \<and> unat j < unat c + unat n" for j
    using nz by (simp add: page_used_marked word_le_nat_alt word_less_nat_alt)
  have "side_run ?q k (b + k + unat n) \<or> side_run ?q k b"
  proof (cases "unat c < b + k")
    case True
    then show ?thesis using r m idx used by (intro disjI1) (auto simp: side_run_def)
  next
    case False
    then show ?thesis using r m idx used by (intro disjI2) (auto simp: side_run_def)
  qed
  moreover have "pmm_wf ?q" using alloc_pages_Returns [OF wf c] by blast
  ultimately show ?thesis using c by blast
qed

lemma page_address: "unat f = unat b * 4096 \<Longrightarrow> f = b * 0x1000" for b f :: uptr
  using unat_mult_nowrap [of b "0x1000"] unat_bound [of f] by (simp add: word_unat_eq_iff)

section \<open>Properties\<close>

text \<open>Two stacks of sixteen pages are cut from one free run of forty-eight.\<close>

lemma two_stacks:
  assumes wf: "pmm_wf p" and run: "free_run p (page_bitmap_index p) (Bitmap.m_size (page_bitmap p)) 48 b"
  obtains f1 f2 p1 p2 b1 b2 where "alloc_pages 16 p = Returns (f1, p1)" "alloc_pages 16 p1 = Returns (f2, p2)"
    "f1 = b1 * 0x1000" "f2 = b2 * 0x1000" "{b1..<b1 + 16} \<inter> {b2..<b2 + 16} = {}"
    "\<forall>j \<in> {b1..<b1 + 16} \<union> {b2..<b2 + 16}. \<not> page_used p j \<and> page_used p2 j"
proof -
  have "side_run p 48 b" using free_run_side_run [OF run] by simp
  then obtain f1 p1 b' where a1: "alloc_pages 16 p = Returns (f1, p1)" "pmm_wf p1" "side_run p1 16 b'"
    using alloc_side_run [OF wf, of 16 48 b 16] by auto
  obtain f2 p2 where a2: "alloc_pages 16 p1 = Returns (f2, p2)" using alloc_side_run [OF a1(2) _ a1(3), of 16 0] by auto
  obtain b1 where b1: "unat f1 = unat b1 * 4096" "\<forall>j. b1 \<le> j \<and> j < b1 + 16 \<longrightarrow> \<not> page_used p j"
    "\<forall>j. page_used p1 j \<longleftrightarrow> page_used p j \<or> b1 \<le> j \<and> j < b1 + 16" "pmm_wf p1" using alloc_pages_Returns [OF wf a1(1)] by blast
  obtain b2 where b2: "unat f2 = unat b2 * 4096" "\<forall>j. b2 \<le> j \<and> j < b2 + 16 \<longrightarrow> \<not> page_used p1 j"
    "\<forall>j. page_used p2 j \<longleftrightarrow> page_used p1 j \<or> b2 \<le> j \<and> j < b2 + 16" using alloc_pages_Returns [OF b1(4) a2] by blast
  have "\<not> (b1 \<le> j \<and> j < b1 + 16 \<and> b2 \<le> j \<and> j < b2 + 16)" for j using b1(3) b2(2) by blast
  then have "{b1..<b1 + 16} \<inter> {b2..<b2 + 16} = {}" by (auto simp: set_eq_iff)
  moreover have "\<forall>j \<in> {b1..<b1 + 16} \<union> {b2..<b2 + 16}. \<not> page_used p j \<and> page_used p2 j" using b1 b2 by auto
  ultimately show ?thesis using that a1(1) a2 page_address [OF b1(1)] page_address [OF b2(1)] by blast
qed

text \<open>What \<^verbatim>\<open>cpu::init\<close> leaves on a processor, given 48 free pages in a row: the kernel's page map is active; the task state segment
  descriptor leads to the task state of the processor's own block, whose interrupt and scheduler stacks end two distinct runs of sixteen
  pages that were free before; \<^verbatim>\<open>syscall\<close> is enabled, enters the kernel at \<^verbatim>\<open>__syscall_entry\<close> with interrupts off and with the
  selectors \<^verbatim>\<open>sysret\<close> needs; the framebuffer's page flag selects write combining; no other model specific register and no other
  processor's block changes. The boot processor comes back with interrupts on, every other one halts with interrupts off.\<close>

theorem cpu_init_correct:
  assumes wf: "pmm_wf (v_pmm (cs_vmm s))" and gdt: "length (cs_gdt s) = 7"
    and run: "free_run (v_pmm (cs_vmm s)) (page_bitmap_index (v_pmm (cs_vmm s))) (Bitmap.m_size (page_bitmap (v_pmm (cs_vmm s)))) 48 b"
    and l: "l = si_extra_argument info"
  shows "\<exists>s' f1 f2. cpu_init st info s = Returns (is_bsp (cs_local s l), s') \<and>
     msr_read IA32_STAR (cs_regs s') = star_value \<and> msr_read IA32_LSTAR (cs_regs s') = st_syscall_entry st \<and>
     bit (msr_read IA32_EFER (cs_regs s')) 0 \<and> bit (msr_read IA32_FMASK (cs_regs s')) 9 \<and>
     pat_entry (msr_read IA32_PAT (cs_regs s')) (pat_index PAGE_WRITE_COMBINING) = 1 \<and>
     (\<forall>r. r \<notin> {IA32_STAR, IA32_LSTAR, IA32_EFER, IA32_FMASK, IA32_PAT} \<longrightarrow> msr_read r (cs_regs s') = msr_read r (cs_regs s)) \<and>
     interrupt_flag (cs_regs s') = is_bsp (cs_local s l) \<and> task_register (cs_regs s') = ucast TSS_SEGMENT \<and>
     system_base (cs_gdt s' ! 5) (cs_gdt s' ! 6) = local_tss l \<and> take 5 (cs_gdt s') = take 5 (cs_gdt s) \<and>
     v_cr3 (cs_vmm s') = pml4 (st_kernel_pagemap st) - v_hhdm (cs_vmm s) \<and>
     (\<forall>k. k \<noteq> l \<longrightarrow> cs_local s' k = cs_local s k) \<and> lapic_id (cs_local s' l) = ucast (si_lapic_id info) \<and>
     ts_rsp0 (lc_tss (cs_local s' l)) = f1 * 0x1000 + cpu_stack_size + v_hhdm (cs_vmm s) \<and>
     ts_ist1 (lc_tss (cs_local s' l)) = f2 * 0x1000 + cpu_stack_size + v_hhdm (cs_vmm s) \<and>
     {f1..<f1 + 16} \<inter> {f2..<f2 + 16} = {} \<and>
     (\<forall>j \<in> {f1..<f1 + 16} \<union> {f2..<f2 + 16}. \<not> page_used (v_pmm (cs_vmm s)) j \<and> page_used (v_pmm (cs_vmm s')) j)"
proof -
  let ?p = "v_pmm (cs_vmm s)"
  have sixteen: "cpu_stack_size div 0x1000 = 16" by (simp add: cpu_stack_size_def)
  obtain f1 f2 p1 p2 b1 b2 where a: "alloc_pages 16 ?p = Returns (f1, p1)" "alloc_pages 16 p1 = Returns (f2, p2)"
    and f: "f1 = b1 * 0x1000" "f2 = b2 * 0x1000" and apart: "{b1..<b1 + 16} \<inter> {b2..<b2 + 16} = {}"
    and stacks: "\<forall>j \<in> {b1..<b1 + 16} \<union> {b2..<b2 + 16}. \<not> page_used ?p j \<and> page_used p2 j"
    by (rule two_stacks [OF wf run])
  let ?c = "(cs_regs s)\<lparr>gdtr := \<lparr>tr_limit = 55, tr_base = st_gdt st\<rparr>, idtr := \<lparr>tr_limit = 4095, tr_base = st_idt st\<rparr>,
      interrupt_flag := True, task_register := ucast TSS_SEGMENT\<rparr>"
  obtain s' where run: "cpu_init st info s = Returns (is_bsp (cs_local s l), s')"
    and regs: "cs_regs s' = (if is_bsp (cs_local s l) then init_msrs st ?c else (init_msrs st ?c)\<lparr>interrupt_flag := False\<rparr>)"
    and rest: "cs_gdt s' = fst (load_tss (local_tss l) (cs_gdt s) undefined)" "v_cr3 (cs_vmm s') = pml4 (st_kernel_pagemap st) - v_hhdm (cs_vmm s)"
      "v_pmm (cs_vmm s') = p2" "\<forall>k. k \<noteq> l \<longrightarrow> cs_local s' k = cs_local s k" "lapic_id (cs_local s' l) = ucast (si_lapic_id info)"
      "ts_rsp0 (lc_tss (cs_local s' l)) = f1 + cpu_stack_size + v_hhdm (cs_vmm s)"
      "ts_ist1 (lc_tss (cs_local s' l)) = f2 + cpu_stack_size + v_hhdm (cs_vmm s)"
    using a by (auto simp: cpu_init_def Let_def sixteen load_tss_def load_idt_def activate_def set_local_def reload_gdt_def l)
  have msr: "msr_read r (cs_regs s') = msr_read r (init_msrs st ?c)" "msr_read r ?c = msr_read r (cs_regs s)" for r
    using regs by (simp_all add: msr_read_def)
  note read = init_msrs_read [of _ st ?c, unfolded msr(2), folded msr(1)]
  have "bit (msr_read IA32_EFER (cs_regs s')) 0" "bit (msr_read IA32_FMASK (cs_regs s')) 9"
    unfolding read by (simp_all add: msr_numbers bit_simps)
  moreover have "msr_read IA32_STAR (cs_regs s') = star_value" "msr_read IA32_LSTAR (cs_regs s') = st_syscall_entry st"
    "pat_entry (msr_read IA32_PAT (cs_regs s')) (pat_index PAGE_WRITE_COMBINING) = 1"
    unfolding read by (simp_all add: msr_numbers pat_types)
  moreover have "\<forall>r. r \<notin> {IA32_STAR, IA32_LSTAR, IA32_EFER, IA32_FMASK, IA32_PAT} \<longrightarrow> msr_read r (cs_regs s') = msr_read r (cs_regs s)"
    unfolding read by simp
  moreover have "interrupt_flag (cs_regs s') = is_bsp (cs_local s l)" "task_register (cs_regs s') = ucast TSS_SEGMENT" using regs by simp_all
  moreover have "system_base (cs_gdt s' ! 5) (cs_gdt s' ! 6) = local_tss l" unfolding rest(1) by (rule system_base_tss [OF gdt])
  moreover have "take 5 (cs_gdt s') = take 5 (cs_gdt s)" unfolding rest(1) by (simp add: load_tss_def)
  moreover have "\<forall>j \<in> {b1..<b1 + 16} \<union> {b2..<b2 + 16}. \<not> page_used ?p j \<and> page_used (v_pmm (cs_vmm s')) j" unfolding rest(3) by (rule stacks)
  ultimately show ?thesis using run rest(2,4,5) rest(6,7) [unfolded f] apart
    by (intro exI [of _ s'] exI [of _ b1] exI [of _ b2] conjI)
qed

lemma cpu_init_local:
  assumes "cpu_init st info s = Returns (r, s')"
  shows "k \<noteq> si_extra_argument info \<Longrightarrow> cs_local s' k = cs_local s k"
    and "cpu_number (cs_local s' k) = cpu_number (cs_local s k)" and "is_bsp (cs_local s' k) = is_bsp (cs_local s k)"
  using assms by (auto simp: cpu_init_def Let_def load_tss_def load_idt_def obind_Returns set_local_def split: if_splits)

lemma smp_cpu_local:
  assumes "smp_cpu st bsp i addr info s = Returns (info', s')"
  shows "k \<noteq> addr \<Longrightarrow> cs_local s' k = cs_local s k" and "cpu_number (cs_local s' addr) = of_nat i"
    and "is_bsp (cs_local s' addr) \<longleftrightarrow> si_lapic_id info = bsp"
    and "info' = info\<lparr>si_extra_argument := addr, si_goto_address := (if si_lapic_id info = bsp then si_goto_address info else st_cpu_init st)\<rparr>"
  using assms cpu_init_local
  by (auto simp: smp_cpu_def Let_def obind_Returns set_local_def new_Local_def split: if_splits)

lemma smp_loop_local:
  "smp_loop st bsp i addrs infos s = Returns (infos', s') \<Longrightarrow> k \<notin> set addrs \<Longrightarrow> cs_local s' k = cs_local s k"
proof (induction st bsp i addrs infos s arbitrary: infos' rule: smp_loop.induct)
  case (1 st bsp i addr addrs info infos s)
  then show ?case using smp_cpu_local(1) by (fastforce simp: obind_Returns)
qed simp_all

lemma smp_loop_assigns:
  "smp_loop st bsp i addrs infos s = Returns (infos', s') \<Longrightarrow> length addrs = length infos \<Longrightarrow> distinct addrs \<Longrightarrow>
     length infos' = length infos \<and> (\<forall>n < length infos.
       infos' ! n = (infos ! n)\<lparr>si_extra_argument := addrs ! n,
         si_goto_address := (if si_lapic_id (infos ! n) = bsp then si_goto_address (infos ! n) else st_cpu_init st)\<rparr> \<and>
       cpu_number (cs_local s' (addrs ! n)) = of_nat (i + n) \<and>
       (is_bsp (cs_local s' (addrs ! n)) \<longleftrightarrow> si_lapic_id (infos ! n) = bsp))"
proof (induction st bsp i addrs infos s arbitrary: infos' rule: smp_loop.induct)
  case (1 st bsp i addr addrs info infos s)
  obtain info1 s1 infos1 where r: "smp_cpu st bsp i addr info s = Returns (info1, s1)"
    "smp_loop st bsp (Suc i) addrs infos s1 = Returns (infos1, s')" "infos' = info1 # infos1" using "1.prems"(1) by (auto simp: obind_Returns)
  note first = smp_cpu_local [OF r(1)]
  have IH: "length infos1 = length infos \<and> (\<forall>n < length infos.
       infos1 ! n = (infos ! n)\<lparr>si_extra_argument := addrs ! n,
         si_goto_address := (if si_lapic_id (infos ! n) = bsp then si_goto_address (infos ! n) else st_cpu_init st)\<rparr> \<and>
       cpu_number (cs_local s' (addrs ! n)) = of_nat (Suc i + n) \<and>
       (is_bsp (cs_local s' (addrs ! n)) \<longleftrightarrow> si_lapic_id (infos ! n) = bsp))"
    using "1.IH" r(1,2) "1.prems"(2,3) by simp
  have keep: "cs_local s' addr = cs_local s1 addr" using smp_loop_local [OF r(2)] "1.prems"(3) by simp
  show ?case using IH first(2-4) keep r(3) "1.prems"(2) by (auto simp: nth_Cons split: nat.split)
qed simp_all

text \<open>\<^verbatim>\<open>smp_init\<close> gives every processor a block of its own, numbered in order, and marks as the boot processor exactly the
  one the boot loader names; that one is initialised in place and keeps its start address, all others are sent to \<^verbatim>\<open>init\<close>.\<close>

theorem smp_init_assigns:
  assumes "smp_init st addrs res s = Returns (res', s')" and "length addrs = length (sr_cpus res)" and "distinct addrs" and "n < length addrs"
  shows "si_extra_argument (sr_cpus res' ! n) = addrs ! n \<and> cpu_number (cs_local s' (addrs ! n)) = of_nat n \<and>
     (is_bsp (cs_local s' (addrs ! n)) \<longleftrightarrow> si_lapic_id (sr_cpus res ! n) = sr_bsp_lapic_id res) \<and>
     si_goto_address (sr_cpus res' ! n) =
       (if si_lapic_id (sr_cpus res ! n) = sr_bsp_lapic_id res then si_goto_address (sr_cpus res ! n) else st_cpu_init st) \<and>
     (\<forall>a. a \<notin> set addrs \<longrightarrow> cs_local s' a = cs_local s a)"
proof -
  obtain infos where r: "smp_loop st (sr_bsp_lapic_id res) 0 addrs (sr_cpus res) s = Returns (infos, s')" "res' = res\<lparr>sr_cpus := infos\<rparr>"
    using assms(1) by (auto simp: smp_init_def obind_Returns)
  show ?thesis using smp_loop_assigns [OF r(1) assms(2,3)] smp_loop_local [OF r(1)] assms(2,4) by (simp add: r(2))
qed

section \<open>A boot processor and another one\<close>

definition demo_statics :: statics where
  "demo_statics = \<lparr>st_gdt = 0x100, st_idt = 0x200, st_idt_raw_bitmap = 0x300, st_idt_wrappers = (\<lambda>_. 0), st_syscall_entry = 0x400,
     st_cpu_init = 0x500, st_kernel_pagemap = demo_pagemap\<rparr>"

definition demo_setup :: cpu_setup where
  "demo_setup = \<lparr>cs_regs = demo_cpu, cs_gdt = demo_gdt, cs_idt = demo_idt, cs_vmm = large_vmm,
     cs_local = (\<lambda>_. new_Local\<lparr>is_bsp := True\<rparr>)\<rparr>"

lemma demo_setup_run:
  "pmm_wf (v_pmm (cs_vmm demo_setup))" "length (cs_gdt demo_setup) = 7"
  "free_run (v_pmm (cs_vmm demo_setup)) (page_bitmap_index (v_pmm (cs_vmm demo_setup)))
     (Bitmap.m_size (page_bitmap (v_pmm (cs_vmm demo_setup)))) 48 8"
proof -
  show "pmm_wf (v_pmm (cs_vmm demo_setup))" using large_frames(2) by (simp add: frames_ok_def demo_setup_def)
  show "length (cs_gdt demo_setup) = 7" by (simp add: demo_setup_def demo_gdt_def load_gdt_def)
  have "\<not> page_used (v_pmm large_vmm) j" if "8 \<le> unat j" for j using that large_frames(1) [of j] by (auto simp: word_less_nat_alt)
  then show "free_run (v_pmm (cs_vmm demo_setup)) (page_bitmap_index (v_pmm (cs_vmm demo_setup)))
     (Bitmap.m_size (page_bitmap (v_pmm (cs_vmm demo_setup)))) 48 8"
    by (auto simp: free_run_def demo_setup_def) (simp_all add: large_vmm_def demo_vmm_def demo_pmm_def)
qed

theorem cpu_init_correct_witness:
  "\<exists>s'. cpu_init demo_statics \<lparr>si_processor_id = 0, si_lapic_id = 3, si_goto_address = 0, si_extra_argument = 0x9000\<rparr> demo_setup = Returns (True, s') \<and>
     msr_read IA32_STAR (cs_regs s') = star_value \<and> msr_read IA32_LSTAR (cs_regs s') = 0x400 \<and> lapic_id (cs_local s' 0x9000) = 3 \<and>
     interrupt_flag (cs_regs s')"
  using cpu_init_correct [OF demo_setup_run, of "0x9000" "\<lparr>si_processor_id = 0, si_lapic_id = 3, si_goto_address = 0, si_extra_argument = 0x9000\<rparr>" demo_statics]
  by (auto simp: demo_setup_def demo_statics_def)

theorem smp_init_assigns_witness:
  "\<exists>res' s'. smp_init demo_statics [0x9000] \<lparr>sr_bsp_lapic_id = 1, sr_cpus = [\<lparr>si_processor_id = 0, si_lapic_id = 3, si_goto_address = 0, si_extra_argument = 0\<rparr>]\<rparr>
       demo_setup = Returns (res', s') \<and> si_goto_address (sr_cpus res' ! 0) = 0x500 \<and> \<not> is_bsp (cs_local s' 0x9000)"
proof -
  let ?res = "\<lparr>sr_bsp_lapic_id = 1, sr_cpus = [\<lparr>si_processor_id = 0, si_lapic_id = 3, si_goto_address = 0, si_extra_argument = 0\<rparr>]\<rparr>"
  obtain res' s' where r: "smp_init demo_statics [0x9000] ?res demo_setup = Returns (res', s')"
    by (simp add: smp_init_def smp_cpu_def Let_def)
  show ?thesis using smp_init_assigns [OF r, of 0] r by (auto simp: demo_statics_def)
qed

end
