(* ===== verification/Boot.thy ===== *)
theory Boot
  imports Acpi Initramfs Buddy_Alloc Cpu_Init
begin

text \<open>
  From the boot loader to the first user program: \<^verbatim>\<open>_start\<close>, \<^verbatim>\<open>kernel_thread\<close> and \<^verbatim>\<open>panic\<close> of \<^verbatim>\<open>src/kernel.cpp\<close>, which call the
  other components in order. What the boot loader answers is \<open>limine_responses\<close>; \<open>boot_env\<close> has the addresses of static objects and
  of the objects that \<^verbatim>\<open>new\<close> returns, and what the timers read while they are calibrated. The components keep their own view of memory, and the
  progress messages are left out. \<open>None\<close> is a run that neither panics nor gets to its end.
\<close>

unbundle bit_operations_syntax

section \<open>What the boot loader hands over\<close>

record limine_framebuffer =
  lf_fb_address :: uptr
  lf_fb_width :: u64
  lf_fb_height :: u64
  lf_fb_pitch :: u64
  lf_fb_bpp :: u16

record limine_file =
  lf_address :: uptr
  lf_size :: u64

record limine_responses =
  framebuffers :: "limine_framebuffer list option"
  hhdm_offset :: "u64 option"
  memmap_entries :: "limine_memmap_entry list option"
  modules :: "limine_file list option"
  kernel_bases :: "(u64 \<times> u64) option"
  rsdp_address :: "uptr option"
  smp_response :: "limine_smp_response option"

definition screen_of :: "limine_framebuffer \<Rightarrow> Framebuffer" where
  "screen_of fb = \<lparr>fb_addr = lf_fb_address fb, fb_width = ucast (lf_fb_width fb), fb_height = ucast (lf_fb_height fb),
     fb_pitch = ucast (lf_fb_pitch fb), fb_pixel_width = ucast (lf_fb_bpp fb) div 8\<rparr>"

record boot_info =
  bi_fb :: Framebuffer
  bi_hhdm :: uptr
  bi_memmap :: "limine_memmap_entry list"
  bi_modules :: "limine_file list"
  bi_physical_base :: u64
  bi_virtual_base :: u64
  bi_rsdp :: uptr
  bi_smp :: limine_smp_response

definition required :: "'a option \<Rightarrow> string \<Rightarrow> 'a outcome" where
  "required r msg = (case r of None \<Rightarrow> Panics msg | Some a \<Rightarrow> Returns a)"

definition boot_responses :: "limine_responses \<Rightarrow> boot_info outcome" where
  "boot_responses r =
     (case (framebuffers r, hhdm_offset r) of
        (Some (fb # _), Some hhdm) \<Rightarrow>
          obind (required (memmap_entries r) ''Did not receive Limine memmap feature response'') (\<lambda>memmap.
          obind (required (modules r) ''Did not receive Limine module feature response'') (\<lambda>mods.
          obind (required (kernel_bases r) ''Did not receive Limine kernel address feature response'') (\<lambda>(phys, virt).
          obind (required (rsdp_address r) ''Did not receive Limine RSDP feature response'') (\<lambda>rsdp.
          obind (required (smp_response r) ''Did not receive Limine SMP feature response'') (\<lambda>smp.
            Returns \<lparr>bi_fb = screen_of fb, bi_hhdm = hhdm, bi_memmap = memmap, bi_modules = mods, bi_physical_base = phys,
              bi_virtual_base = virt, bi_rsdp = rsdp, bi_smp = smp\<rparr>)))))
      | _ \<Rightarrow> Panics ''Did not receive enough limine features to initialise early boot terminal'')"

section \<open>The start of the kernel\<close>

record boot_env =
  be_statics :: statics
  be_range_head :: uptr
  be_hhdm_range :: uptr
  be_heap_range :: uptr
  be_font :: "Framebuffer \<Rightarrow> display"
  be_junk :: "usize \<Rightarrow> u8"
  be_locals :: "uptr list"
  be_devices :: "uptr \<Rightarrow> u32 \<Rightarrow> u32"
  be_readings :: "u64 list"
  be_pit_irqs :: nat
  be_timer_count :: u32
  be_tasks :: "uptr \<times> uptr \<times> uptr"
  be_entry_points :: "uptr \<times> uptr \<times> uptr"
  be_raw_task :: Task
  be_vfs_junk :: node_ref

record kernel =
  kn_cpu :: cpu_setup
  kn_console :: console
  kn_heap :: BuddyAlloc
  kn_mem :: memory
  kn_acpi :: acpi
  kn_table :: syscall_table
  kn_vfs :: vfs
  kn_pit :: pit
  kn_ports :: port_trace
  kn_sched :: sched
  kn_cpus :: limine_smp_response

definition returning :: "'a option \<Rightarrow> 'a outcome option" where
  "returning r = map_option Returns r"

text \<open>Memory management, the screen and the heap.\<close>

definition start_memory :: "boot_env \<Rightarrow> boot_info \<Rightarrow> kernel \<Rightarrow> (Pagemap \<times> kernel) outcome option" where
  "start_memory env b k =
     (let c0 = kn_cpu k;
          c1 = c0\<lparr>cs_vmm := (cs_vmm c0)\<lparr>v_pmm := pmm_init (bi_hhdm b) (bi_memmap b) (v_pmm (cs_vmm c0))\<rparr>\<rparr>;
          c2 = early_init (be_statics env) c1;
          d = be_font env (bi_fb b)
      in abind (Some (vmm_init (bi_hhdm b) (bi_memmap b) (bi_physical_base b) (bi_virtual_base b)
             (be_range_head env) (be_hhdm_range env) (be_heap_range env) (cs_vmm c2))) (\<lambda>(pm, v).
         abind (terminal_new d (be_junk env) (v_pmm v) (cn_mem (kn_console k))) (\<lambda>((t, m), p).
         abind (returning (ba_init (kn_mem k) (NOT 0 - heap_size - 0x1000 + 1) heap_size)) (\<lambda>(hm, heap).
           Some (Returns (pm, k\<lparr>kn_cpu := c2\<lparr>cs_vmm := v\<lparr>v_pmm := p\<rparr>\<rparr>,
             kn_console := (kn_console k)\<lparr>cn_term := t, terminal_ready := True, cn_mem := m\<rparr>, kn_heap := heap, kn_mem := hm\<rparr>))))))"

text \<open>The processors, the interrupt controllers and the file system.\<close>

definition start_devices :: "boot_env \<Rightarrow> boot_info \<Rightarrow> Pagemap \<Rightarrow> kernel \<Rightarrow> kernel outcome option" where
  "start_devices env b pm k =
     abind (Some (smp_init ((be_statics env)\<lparr>st_kernel_pagemap := pm\<rparr>) (be_locals env) (bi_smp b) (kn_cpu k))) (\<lambda>(smp, c).
       let a = (kn_acpi k)\<lparr>ac_irq := (ac_irq (kn_acpi k))\<lparr>ir_idt := cs_idt c\<rparr>, ac_vmm := cs_vmm c, ac_kernel_pagemap := pm,
                 ac_cpu := cs_regs c, ac_mem := kn_mem k\<rparr>
       in abind (parse_rsdp (be_devices env) (bi_rsdp b) a) (\<lambda>a1.
          abind (returning (vfs_init (be_vfs_junk env))) (\<lambda>v.
          abind (apic_timer_init (ac_hpet a1) (be_readings env) (be_pit_irqs env) (be_timer_count env) (kn_pit k) (kn_ports k)
                  (ir_idt (ac_irq a1)) (ir_lapic (ac_irq a1))) (\<lambda>(timer, p, tr, i, l).
            Some (Returns (k\<lparr>kn_cpus := smp, kn_cpu := c\<lparr>cs_idt := i, cs_regs := ac_cpu a1, cs_vmm := ac_vmm a1\<rparr>,
              kn_acpi := a1\<lparr>ac_irq := (ac_irq a1)\<lparr>ir_idt := i, ir_lapic := l\<rparr>\<rparr>, kn_mem := ac_mem a1,
              kn_table := init_syscall_table (kn_table k), kn_vfs := v, kn_pit := p, kn_ports := tr,
              kn_sched := (kn_sched k)\<lparr>sc_vmm := ac_vmm a1, sc_kernel_pagemap := pm, sc_cpu := ac_cpu a1, sc_lapic := l, sc_timer := timer\<rparr>\<rparr>))))))"

text \<open>The three kernel tasks and the first time slice; then interrupts are on and the processor waits.\<close>

definition start_tasks :: "boot_env \<Rightarrow> sched \<Rightarrow> sched outcome" where
  "start_tasks env s =
     (case (be_tasks env, be_entry_points env) of ((t1, t2, t3), (ip1, ip2, ip3)) \<Rightarrow>
        obind (sched_init t1 (be_raw_task env) ip1 t2 (be_raw_task env) ip2 s) (\<lambda>s1.
        obind (new_kernel_task t3 (be_raw_task env) ip3 True s1) (\<lambda>(_, s2).
          let s3 = sched_start s2 in Returns (s3\<lparr>sc_cpu := (sc_cpu s3)\<lparr>interrupt_flag := True\<rparr>\<rparr>))))"

definition kernel_start :: "boot_env \<Rightarrow> limine_responses \<Rightarrow> kernel \<Rightarrow> kernel outcome option" where
  "kernel_start env r k =
     abind (Some (boot_responses r)) (\<lambda>b.
     abind (start_memory env b k) (\<lambda>(pm, k1).
     abind (start_devices env b pm k1) (\<lambda>k2.
     abind (Some (start_tasks env (kn_sched k2))) (\<lambda>s. Some (Returns (k2\<lparr>kn_sched := s\<rparr>))))))"

section \<open>The kernel thread\<close>

definition test_path :: key where
  "test_path = [47, 98, 105, 110, 47, 116, 101, 115, 116]"

definition kernel_thread_init :: "uptr \<Rightarrow> kbd \<Rightarrow> irq_state \<Rightarrow> (kbd \<times> irq_state) outcome" where
  "kernel_thread_init irq kb s = obind (register_irq 1 (Handler irq) s) (\<lambda>s1. Returns (kbd_init kb, s1))"

text \<open>\<open>task\<close>, \<open>raw\<close> and \<open>head\<close> are the new task object and its list of ranges; \<open>m\<close> is the memory that holds the module.\<close>

definition kernel_thread_load ::
    "(usize \<Rightarrow> u8) \<Rightarrow> uptr \<Rightarrow> Task \<Rightarrow> uptr \<Rightarrow> limine_file list \<Rightarrow> memory \<Rightarrow> vfs \<Rightarrow> sched \<Rightarrow> (uptr \<times> vfs \<times> sched) outcome option" where
  "kernel_thread_load fill task raw head mods m v s =
     (if length mods = 0 then Some (Panics ''No initramfs Limine module loaded'')
      else if length mods > 1 then Some (Panics ''Too many Limine modules loaded'')
      else
        abind (load_into fill (vs_root v) m (lf_address (hd mods)) (lf_size (hd mods)) v) (\<lambda>v1.
        abind (returning (path_to_node v1 test_path 0)) (\<lambda>result.
          if Vfs.target result = 0 then Some (Panics ''Failed to find /bin/test'')
          else abind (Some (new_user_task task raw head (vs_node v1 (Vfs.target result)) (vs_root v1) True s)) (\<lambda>(t, s1).
            Some (Returns (t, v1, s1))))))"

text \<open>One look at the test task: when it has left the run queue the thread reboots, by loading an impossible page map.\<close>

datatype watch = Reboot | Wait_Again

definition watch_test_task :: "uptr \<Rightarrow> sched \<Rightarrow> watch" where
  "watch_test_task task s = (if lh_next (v_list (sc_vmm s) (sched_list task)) = 0 then Reboot else Wait_Again)"

section \<open>The stack trace of a panic\<close>

text \<open>A frame is the saved frame pointer and, above it, the return address.\<close>

partial_function (option) stack_trace :: "memory \<Rightarrow> uptr \<Rightarrow> uptr list option" where
  "stack_trace m frame =
     (if frame = 0 \<or> read64 m (frame + 8) = 0 then Some []
      else do { ips \<leftarrow> stack_trace m (read64 m frame); Some (read64 m (frame + 8) # ips) })"

declare stack_trace.simps [code]

section \<open>The first tasks\<close>

definition starts_at :: "Pagemap \<Rightarrow> uptr \<Rightarrow> Task \<Rightarrow> bool" where
  "starts_at pm ip task \<longleftrightarrow> r_rip (gpr_state task) = ip \<and> r_cs (gpr_state task) = KERNEL_CODE_64 \<and> r_rflags (gpr_state task) = 0x202 \<and>
     r_rsp (gpr_state task) = stack task \<and> pagemap task = pm"

definition same_cpu :: "sched \<Rightarrow> sched \<Rightarrow> bool" where
  "same_cpu s s' \<longleftrightarrow> sched_list_head s' = sched_list_head s \<and> sc_cpu s' = sc_cpu s \<and> sc_timer s' = sc_timer s \<and> sc_lapic s' = sc_lapic s \<and>
     sc_kernel_pagemap s' = sc_kernel_pagemap s"

lemma new_kernel_task_ok:
  assumes wf: "pmm_wf (v_pmm (sc_vmm s))" and run: "side_run (v_pmm (sc_vmm s)) m b" and m: "2 * k + 16 \<le> m"
    and q: "queue ts s" and new: "addr \<noteq> 0" "sched_list addr \<noteq> 0" "sched_list addr \<noteq> sched_list_head s" "addr \<notin> set ts"
  shows "\<exists>s' b'. new_kernel_task addr raw ip True s = Returns (addr, s') \<and> pmm_wf (v_pmm (sc_vmm s')) \<and> side_run (v_pmm (sc_vmm s')) k b' \<and>
     queue (ts @ [addr]) s' \<and> same_cpu s s' \<and> (\<forall>t. t \<noteq> addr \<longrightarrow> sc_task s' t = sc_task s t) \<and>
     starts_at (sc_kernel_pagemap s) ip (sc_task s' addr)"
proof -
  have sixteen: "stack_size div 0x1000 = 16" by (simp add: stack_size_def)
  obtain f p b' where a: "alloc_pages 16 (v_pmm (sc_vmm s)) = Returns (f, p)" "pmm_wf p" "side_run p k b'"
    using alloc_side_run [OF wf _ run, of 16 k] m by auto
  have "sched_list addr \<notin> sched_list ` set ts" using new(4) by (auto simp: sched_list_def)
  then have "ring (list_add_before (v_list (sc_vmm s)) (sched_list_head s) (sched_list addr)) (sched_list_head s) (map sched_list ts @ [sched_list addr])"
    using q new by (intro ring_add_before) (auto simp: queue_def)
  then show ?thesis using a q new(1)
    by (simp add: new_kernel_task_def new_Task_def sixteen Let_def add_task_def queue_def same_cpu_def starts_at_def) blast
qed

lemma first_tick:
  assumes "queue (t # ts) s" and "running s = 0"
  shows "\<exists>s'. scheduler_isr regs s = Returns (gpr_state (sc_task s t), s') \<and> running s' = t"
proof -
  let ?s = "s\<lparr>sc_lapic := apic_stop (sc_lapic s)\<rparr>"
  have save: "save_task regs ?s = ?s" "save_task regs s = s" using assms(2) by (simp_all add: save_task_def running_def)
  have "queue (t # ts) ?s" "running ?s = 0" using assms by (simp_all add: queue_def running_def)
  then have "pick_next (save_task regs ?s) = Returns t" using pick_first [of "t # ts" ?s] by (simp add: save)
  then obtain s' where "scheduler_isr regs s = Returns (gpr_state (sc_task s' t), s')" "running s' = t" "sc_task s' = sc_task (save_task regs s)"
    by (rule scheduler_isr_picks)
  then show ?thesis by (simp add: save)
qed

text \<open>The end of \<^verbatim>\<open>_start\<close>, given 112 free pages in a row: the run queue holds the two test tasks and the kernel thread in this order, each
  with its entry point, in kernel mode on the kernel's page map, on its own stack and with interrupts enabled; the timer is armed; and the first
  tick, which interrupts the idle loop, starts the first test task at its entry point.\<close>

theorem start_tasks_correct:
  assumes wf: "pmm_wf (v_pmm (sc_vmm s))"
    and run: "free_run (v_pmm (sc_vmm s)) (page_bitmap_index (v_pmm (sc_vmm s))) (Bitmap.m_size (page_bitmap (v_pmm (sc_vmm s)))) 112 b"
    and head: "sched_list_head s \<noteq> 0" and tasks: "be_tasks env = (t1, t2, t3)" and entry: "be_entry_points env = (ip1, ip2, ip3)"
    and new: "distinct [0, t1, t2, t3]" "distinct [0, sched_list t1, sched_list t2, sched_list t3, sched_list_head s]"
  shows "\<exists>s'. start_tasks env s = Returns s' \<and> queue [t1, t2, t3] s' \<and> interrupt_flag (sc_cpu s') \<and>
     sc_lapic s' TIMER_INITIAL = ucast (1000 * (at_freq (sc_timer s) div 1000000)) \<and>
     starts_at (sc_kernel_pagemap s) ip1 (sc_task s' t1) \<and> starts_at (sc_kernel_pagemap s) ip2 (sc_task s' t2) \<and>
     starts_at (sc_kernel_pagemap s) ip3 (sc_task s' t3) \<and>
     (running s = 0 \<longrightarrow> (\<exists>g s''. scheduler_isr regs s' = Returns (g, s'') \<and> r_rip g = ip1 \<and> running s'' = t1))"
proof -
  let ?s0 = "s\<lparr>sc_vmm := (sc_vmm s)\<lparr>v_list := list_init (v_list (sc_vmm s)) (sched_list_head s)\<rparr>\<rparr>"
  let ?raw = "be_raw_task env" and ?pm = "sc_kernel_pagemap s"
  have q0: "queue [] ?s0" using ring_init [OF head] by (simp add: queue_def)
  have r0: "side_run (v_pmm (sc_vmm ?s0)) 112 b" using free_run_side_run [OF run] by simp
  obtain s1 b1 where 1: "new_kernel_task t1 ?raw ip1 True ?s0 = Returns (t1, s1)" "pmm_wf (v_pmm (sc_vmm s1))" "side_run (v_pmm (sc_vmm s1)) 48 b1"
      "queue [t1] s1" "same_cpu ?s0 s1" "starts_at ?pm ip1 (sc_task s1 t1)"
    using new_kernel_task_ok [of ?s0 112 b 48 "[]" t1 ?raw ip1] wf r0 q0 new by auto
  have h1: "sched_list_head s1 = sched_list_head s" "sc_kernel_pagemap s1 = ?pm" using 1(5) by (simp_all add: same_cpu_def)
  obtain s2 b2 where 2: "new_kernel_task t2 ?raw ip2 True s1 = Returns (t2, s2)" "pmm_wf (v_pmm (sc_vmm s2))" "side_run (v_pmm (sc_vmm s2)) 16 b2"
      "queue [t1, t2] s2" "same_cpu s1 s2" "\<forall>t. t \<noteq> t2 \<longrightarrow> sc_task s2 t = sc_task s1 t" "starts_at ?pm ip2 (sc_task s2 t2)"
    using new_kernel_task_ok [OF 1(2,3) _ 1(4), of 16 t2 ?raw ip2] h1 new by auto
  have h2: "sched_list_head s2 = sched_list_head s" "sc_kernel_pagemap s2 = ?pm" using 2(5) h1 by (simp_all add: same_cpu_def)
  obtain s3 where 3: "new_kernel_task t3 ?raw ip3 True s2 = Returns (t3, s3)" "queue [t1, t2, t3] s3" "same_cpu s2 s3"
      "\<forall>t. t \<noteq> t3 \<longrightarrow> sc_task s3 t = sc_task s2 t" "starts_at ?pm ip3 (sc_task s3 t3)"
    using new_kernel_task_ok [OF 2(2,3) _ 2(4), of 0 t3 ?raw ip3] h2 new by auto
  let ?s = "(sched_start s3)\<lparr>sc_cpu := (sc_cpu (sched_start s3))\<lparr>interrupt_flag := True\<rparr>\<rparr>"
  have run: "start_tasks env s = Returns ?s" by (simp add: start_tasks_def sched_init_def tasks entry 1(1) 2(1) 3(1) Let_def)
  have same: "sc_timer s3 = sc_timer s" "sc_cpu s3 = sc_cpu s" using 1(5) 2(5) 3(3) by (simp_all add: same_cpu_def)
  have q: "queue [t1, t2, t3] ?s" using 3(2) by (simp add: queue_def sched_start_def)
  have ts: "sc_task ?s = sc_task s3" by (simp add: sched_start_def)
  have st: "starts_at ?pm ip1 (sc_task ?s t1)" "starts_at ?pm ip2 (sc_task ?s t2)" "starts_at ?pm ip3 (sc_task ?s t3)"
    unfolding ts using 1(6) 2(6,7) 3(4,5) new(1) by auto
  have "running ?s = running s" using same by (simp add: running_def sched_start_def read_gs_base_def msr_read_def)
  then have tick: "running s = 0 \<longrightarrow> (\<exists>g s''. scheduler_isr regs ?s = Returns (g, s'') \<and> r_rip g = ip1 \<and> running s'' = t1)"
    using first_tick [OF q, of regs] st(1) by (auto simp: starts_at_def)
  have "sc_lapic ?s TIMER_INITIAL = ucast (1000 * (at_freq (sc_timer s) div 1000000))"
    using same(1) by (simp add: sched_start_def apic_oneshot_def Let_def)
  then show ?thesis using run q st tick by (intro exI [of _ ?s]) simp
qed

section \<open>The first user program\<close>

definition bin_name :: key where "bin_name = [98, 105, 110]"
definition test_name :: key where "test_name = [116, 101, 115, 116]"

lemma test_names:
  "\<forall>c \<in> set [dot_name, bin_name, test_name]. slash \<notin> set c \<and> c \<noteq> []" "test_path = slash # join [bin_name, test_name]"
  "test_name \<noteq> dot_name" "test_name \<noteq> dotdot_name"
  by (simp_all add: dot_name_def dotdot_name_def bin_name_def test_name_def slash_def test_path_def)

text \<open>The archive the build makes with \<^verbatim>\<open>tar -C initramfs .\<close>, reduced to the test program.\<close>

definition test_archive :: "u8 list \<Rightarrow> member list" where
  "test_archive xs = [\<lparr>mb_name = [46, 47], mb_type = 53, mb_data = []\<rparr>,
     \<lparr>mb_name = join [dot_name, bin_name] @ [slash], mb_type = 53, mb_data = []\<rparr>,
     \<lparr>mb_name = join [dot_name, bin_name, test_name], mb_type = 48, mb_data = xs\<rparr>]"

lemma test_archive_ok: "length xs < 8 ^ 11 \<Longrightarrow> \<forall>e \<in> set (test_archive xs). member_ok e"
  by (simp add: test_archive_def member_ok_def dot_name_def bin_name_def test_name_def slash_def)

lemma parent_step:
  assumes "parent_of v dir as d" "d \<noteq> 0" "child v d c = Some n" "nd_type (vs_node v d) = DIRECTORY"
  shows "parent_of v dir (as @ [c]) n"
  using resolve_parent [OF assms(1,2), of c] resolve_child [OF assms(4,3), of "[]"] by (auto simp: parent_of_def)

lemma test_archive_loaded:
  assumes wf: "vfs_wf v" and root: "is_node v (vs_root v)" "nd_type (vs_node v (vs_root v)) = DIRECTORY"
    and room: "hm_room (nd_children (vs_node v (vs_root v)))" and dot: "child v (vs_root v) dot_name = Some (vs_root v)"
    and fresh: "hm_get (nd_children (vs_node v (vs_root v))) bin_name = None" and xs: "length xs < 2 ^ 64"
  shows "\<exists>v' n. add_members fill (vs_root v) (test_archive xs) v = Some (Returns v') \<and> vfs_wf v' \<and> vs_root v' = vs_root v \<and>
     path_to_node v' test_path 0 = Some \<lparr>target_parent = vs_next v, target = n, basename = Some test_name\<rparr> \<and> n \<noteq> 0 \<and>
     nd_type (vs_node v' n) = FILE \<and> file_bytes (nd_data (vs_node v' n)) = xs"
proof -
  let ?r = "vs_root v" and ?n = "vs_next v"
  have "?r \<noteq> 0" using root(1) by (simp add: is_node_def)
  have p0: "parent_of v ?r [] ?r" by (simp add: parent_of_def)
  have p1: "parent_of v ?r [dot_name] ?r" using parent_step [OF p0 \<open>?r \<noteq> 0\<close> dot root(2)] by simp
  obtain v1 where v1: "add_node fill ?r (join [dot_name, bin_name] @ [slash]) 53 (buffer []) 0 v = Some (Returns v1)" "vfs_wf v1"
      "extends v v1 ?r bin_name ?n" "vs_root v1 = ?r"
      "\<And>as. parent_of v ?r as ?r \<Longrightarrow> resolve v1 ?r (as @ [bin_name]) = Some \<lparr>target_parent = ?r, target = ?n, basename = Some bin_name\<rparr>"
      "is_node v1 ?n" "nd_type (vs_node v1 ?n) = DIRECTORY" "hm_room (nd_children (vs_node v1 ?n))"
      "dom (hm_get (nd_children (vs_node v1 ?n))) = {dot_name, dotdot_name}"
    using added_dir [OF wf root(1) p1 root room _ _ fresh, of "join [dot_name, bin_name] @ [slash]" fill "buffer []" 0] test_names(1) by auto
  have par: "parent_of v1 ?r (as @ [bin_name]) ?n" if "parent_of v ?r as ?r" for as using v1(5) [OF that] by (auto simp: parent_of_def)
  have none: "hm_get (nd_children (vs_node v1 ?n)) test_name = None" using v1(9) test_names(3,4) by blast
  obtain v2 where v2: "add_node fill ?r (join [dot_name, bin_name, test_name]) 48 (buffer xs) (of_nat (length xs)) v1 = Some (Returns v2)"
      "vfs_wf v2" "vs_root v2 = ?r"
      "\<And>as. parent_of v1 ?r as ?n \<Longrightarrow> resolve v2 ?r (as @ [test_name]) = Some \<lparr>target_parent = ?n, target = vs_next v1, basename = Some test_name\<rparr>"
      "nd_type (vs_node v2 (vs_next v1)) = FILE" "file_bytes (nd_data (vs_node v2 (vs_next v1))) = xs"
    using added_file [OF v1(2) extends_node(3) [OF v1(3) root(1)] par [OF p1] v1(6-8) _ _ xs none,
        of "join [dot_name, bin_name, test_name]" fill] test_names(1) v1(4) by auto
  have "path_to_node v2 test_path 0 = resolve v2 ?r [bin_name, test_name]"
    using test_names(1) components_join [of "[bin_name, test_name]"] by (simp add: path_to_node_def test_names(2) v2(3) path_loop_resolve)
  then have path: "path_to_node v2 test_path 0 = Some \<lparr>target_parent = ?n, target = vs_next v1, basename = Some test_name\<rparr>"
    using v2(4) [OF par [OF p0]] by simp
  have "vs_next v1 \<noteq> 0" using v1(6) by (simp add: is_node_def)
  moreover have "join [dot_name, bin_name] @ [slash] \<noteq> [46, 47]" "join [dot_name, bin_name, test_name] \<noteq> [46, 47]"
    by (simp_all add: dot_name_def bin_name_def)
  ultimately show ?thesis using v1(1) v2 path by (auto simp: test_archive_def)
qed


section \<open>Watching the test task\<close>

lemma map_remove1_inj: "inj f \<Longrightarrow> map f (remove1 x xs) = remove1 (f x) (map f xs)"
  by (induction xs) (auto simp: inj_def)

text \<open>The kernel thread reboots the machine when the test task is gone, and not before: while the task is in the run queue, every look waits
  again, whichever other task exits; once the task itself has run \<^verbatim>\<open>exit\<close>, the next look reboots.\<close>

theorem reboot_after_exit:
  assumes q: "queue_ok ts s" and t: "task \<in> set ts"
  shows "watch_test_task task s = Wait_Again \<and>
     watch_test_task task (syscall_exit status s) = (if running s = task then Reboot else Wait_Again)"
proof -
  let ?h = "v_list (sc_vmm s)" and ?l = "sched_list_head s"
  have queued: "lh_next (h (sched_list task)) \<noteq> 0" if rg: "ring h ?l (map sched_list us)" and mem: "task \<in> set us" for h us
  proof -
    obtain i where i: "i < length us" "us ! i = task" using mem by (auto simp: in_set_conv_nth)
    then have "lh_next (h (sched_list task)) \<in> insert ?l (set (map sched_list us))"
      using ring_next_nth [OF rg, of i] by (auto split: if_splits)
    then show ?thesis using rg by (auto simp: ring_def)
  qed
  have r: "ring ?h ?l (map sched_list ts)" and run: "running s \<in> set ts" using q by (simp_all add: queue_ok_def queue_def)
  have wait: "watch_test_task task s = Wait_Again" using queued [OF r t] by (simp add: watch_test_task_def)
  let ?x = "sched_list (running s)"
  have "ring (list_remove ?h ?x) ?l (remove1 ?x (map sched_list ts))" using run by (intro ring_remove [OF r]) simp
  then have r': "ring (list_remove ?h ?x) ?l (map sched_list (remove1 (running s) ts))"
    using map_remove1_inj [of sched_list "running s" ts] by (simp add: sched_list_def inj_def)
  show ?thesis
  proof (cases "running s = task")
    case True
    then show ?thesis using wait removed_next [of ?h ?x] by (simp add: watch_test_task_def syscall_exit_def dequeue_and_die_def running_def)
  next
    case False
    then have "task \<in> set (remove1 (running s) ts)" using t by simp
    from queued [OF r' this] show ?thesis
      using wait False by (simp add: watch_test_task_def syscall_exit_def dequeue_and_die_def running_def)
  qed
qed

section \<open>The stack trace\<close>

text \<open>A chain of frames, innermost first, and the return addresses in it; a null frame pointer or return address ends it.\<close>

fun frames_at :: "memory \<Rightarrow> uptr \<Rightarrow> uptr list \<Rightarrow> bool" where
  "frames_at m f [] \<longleftrightarrow> f = 0 \<or> read64 m (f + 8) = 0"
| "frames_at m f (ip # ips) \<longleftrightarrow> f \<noteq> 0 \<and> read64 m (f + 8) = ip \<and> ip \<noteq> 0 \<and> frames_at m (read64 m f) ips"

lemma stack_trace_frames: "frames_at m f ips \<Longrightarrow> stack_trace m f = Some ips"
proof (induction ips arbitrary: f)
  case Nil
  then show ?case by (subst stack_trace.simps) auto
next
  case (Cons ip ips)
  then show ?case by (subst stack_trace.simps) auto
qed

section \<open>A small machine\<close>

definition demo_boot_env :: boot_env where
  "demo_boot_env = \<lparr>be_statics = demo_statics, be_range_head = 0x10, be_hhdm_range = 0x20, be_heap_range = 0x30, be_font = (\<lambda>_. demo_display),
     be_junk = (\<lambda>_. 0), be_locals = [0x9000], be_devices = (\<lambda>_ _. 0), be_readings = [], be_pit_irqs = 0, be_timer_count = 0,
     be_tasks = (0x1000, 0x2000, 0x3000), be_entry_points = (0x11, 0x12, 0x13), be_raw_task = demo_task 0, be_vfs_junk = 0\<rparr>"

definition idle_sched :: sched where
  "idle_sched = demo_sched\<lparr>sc_vmm := large_vmm, sc_cpu := demo_cpu\<rparr>"

theorem start_tasks_correct_witness:
  "\<exists>s' g s''. start_tasks demo_boot_env idle_sched = Returns s' \<and> queue [0x1000, 0x2000, 0x3000] s' \<and>
     scheduler_isr zero_state s' = Returns (g, s'') \<and> r_rip g = 0x11 \<and> running s'' = 0x1000"
proof -
  have "\<not> page_used (v_pmm large_vmm) j" if "8 \<le> unat j" for j using that large_frames(1) [of j] by (auto simp: word_less_nat_alt)
  then have "free_run (v_pmm large_vmm) (page_bitmap_index (v_pmm large_vmm)) (Bitmap.m_size (page_bitmap (v_pmm large_vmm))) 112 8"
    by (auto simp: free_run_def) (simp_all add: large_vmm_def demo_vmm_def demo_pmm_def)
  then have run: "free_run (v_pmm (sc_vmm idle_sched)) (page_bitmap_index (v_pmm (sc_vmm idle_sched)))
      (Bitmap.m_size (page_bitmap (v_pmm (sc_vmm idle_sched)))) 112 8" by (simp add: idle_sched_def)
  have wf: "pmm_wf (v_pmm (sc_vmm idle_sched))" using large_frames(2) by (simp add: frames_ok_def idle_sched_def)
  have "running idle_sched = 0" by (simp add: running_def idle_sched_def demo_cpu_def read_gs_base_def msr_read_def)
  moreover have "sched_list_head idle_sched = 8" by (simp add: idle_sched_def demo_sched_def)
  ultimately show ?thesis
    using start_tasks_correct [OF wf run, of demo_boot_env "0x1000" "0x2000" "0x3000" "0x11" "0x12" "0x13" zero_state]
    by (auto simp: demo_boot_env_def sched_list_def)
qed


theorem reboot_after_exit_witness:
  "watch_test_task 0x1000 demo_sched = Wait_Again \<and> watch_test_task 0x1000 (syscall_exit 0 demo_sched) = Reboot"
  using reboot_after_exit [OF demo_queue, of "0x1000" 0] demo_running by simp

end
