(* ===== verification/Test_Tasks.thy ===== *)
theory Test_Tasks
  imports Terminal
begin

text \<open>
  The two kernel tasks \<^verbatim>\<open>test_task_1\<close> and \<^verbatim>\<open>test_task_2\<close> of \<^verbatim>\<open>src/sched/sched.cpp\<close>, which move a square of 16 pixels about the right half of
  the screen for ever. One round of the loop is \<open>square_round\<close>; a task is any number of rounds. Positions are 64-bit integers compared
  as signed; \<open>None\<close> is a round that never ends, which \<^verbatim>\<open>fill_rect\<close> allows.
\<close>

section \<open>Definitions\<close>

record square =
  sq_x :: u64
  sq_y :: u64
  sq_old_x :: u64
  sq_old_y :: u64
  sq_x_inc :: bool
  sq_y_inc :: bool

text \<open>One coordinate: the step, then the two tests that turn it round; \<open>limit\<close> is the size of the screen and \<open>low\<close> the lower bound.\<close>

definition bounce :: "u64 \<Rightarrow> u64 \<Rightarrow> u64 \<times> bool \<Rightarrow> u64 \<times> bool" where
  "bounce limit low s =
     (case s of (p, inc) \<Rightarrow>
        let p1 = (if inc then p + 1 else p - 1);
            inc1 = (if sint (p1 + 16) \<ge> sint limit then False else inc);
            inc2 = (if sint p1 \<le> sint low then True else inc1)
        in (p1, inc2))"

definition square_move :: "Framebuffer \<Rightarrow> square \<Rightarrow> square" where
  "square_move fb s =
     (let (x, x_inc) = bounce (ucast (fb_width fb)) (ucast (fb_width fb div 2)) (sq_x s, sq_x_inc s);
          (y, y_inc) = bounce (ucast (fb_height fb)) 0 (sq_y s, sq_y_inc s)
      in s\<lparr>sq_x := x, sq_y := y, sq_x_inc := x_inc, sq_y_inc := y_inc\<rparr>)"

definition square_round :: "Framebuffer \<Rightarrow> u32 \<Rightarrow> u32 \<Rightarrow> square \<Rightarrow> memory \<Rightarrow> (square \<times> memory) option" where
  "square_round fb colour background s m =
     do {
       m1 \<leftarrow> fill_rect fb (ucast (sq_x s)) (ucast (sq_y s)) 16 16 colour m;
       let s1 = square_move fb s;
       m2 \<leftarrow> fill_rect fb (ucast (sq_old_x s1)) (ucast (sq_old_y s1)) 16 16 background m1;
       Some (s1\<lparr>sq_old_x := sq_x s1, sq_old_y := sq_y s1\<rparr>, m2)
     }"

fun square_rounds :: "Framebuffer \<Rightarrow> u32 \<Rightarrow> u32 \<Rightarrow> nat \<Rightarrow> square \<Rightarrow> memory \<Rightarrow> (square \<times> memory) option" where
  "square_rounds fb colour background 0 s m = Some (s, m)"
| "square_rounds fb colour background (Suc n) s m =
     do { (s1, m1) \<leftarrow> square_rounds fb colour background n s m; square_round fb colour background s1 m1 }"

definition test_task_1 :: "Framebuffer \<Rightarrow> nat \<Rightarrow> memory \<Rightarrow> (square \<times> memory) option" where
  "test_task_1 fb n m =
     (let x = ucast (fb_width fb div 2)
      in square_rounds fb 0x0000FF 0x6565CE n \<lparr>sq_x = x, sq_y = 0, sq_old_x = x, sq_old_y = 0, sq_x_inc = True, sq_y_inc = True\<rparr> m)"

definition test_task_2 :: "Framebuffer \<Rightarrow> nat \<Rightarrow> memory \<Rightarrow> (square \<times> memory) option" where
  "test_task_2 fb n m =
     (let x = ucast (fb_width fb); y = ucast (fb_height fb)
      in square_rounds fb 0xFF0000 0xBC5151 n \<lparr>sq_x = x, sq_y = y, sq_old_x = x, sq_old_y = y, sq_x_inc = False, sq_y_inc = False\<rparr> m)"

section \<open>One coordinate\<close>

text \<open>A coordinate in range, with a direction that does not lead out of it; and one that still comes in from the edge, \<open>n\<close> rounds after the start.\<close>

definition inside :: "nat \<Rightarrow> nat \<Rightarrow> u64 \<times> bool \<Rightarrow> bool" where
  "inside limit low s \<longleftrightarrow> low \<le> unat (fst s) \<and> unat (fst s) + 16 \<le> limit \<and> (unat (fst s) = low \<longrightarrow> snd s) \<and>
     (unat (fst s) + 16 = limit \<longrightarrow> \<not> snd s)"

definition entering :: "nat \<Rightarrow> nat \<Rightarrow> u64 \<times> bool \<Rightarrow> bool" where
  "entering limit n s \<longleftrightarrow> n < 16 \<and> unat (fst s) + n = limit \<and> \<not> snd s"

lemma sint_small: "unat p < 2 ^ 63 \<Longrightarrow> sint p = int (unat p)" for p :: u64
proof -
  assume "unat p < 2 ^ 63"
  then have "int (unat p) < int (2 ^ 63)" by (simp only: of_nat_less_iff)
  then have "int (unat p) < 2 ^ 63" by (simp only: of_nat_power of_nat_numeral)
  moreover have "- (2 ^ 63) \<le> int (unat p)" by (rule order_trans [OF _ of_nat_0_le_iff]) simp
  ultimately have "signed_take_bit 63 (int (unat p)) = int (unat p)" by (rule signed_take_bit_int_eq_self [rotated])
  then show ?thesis by (simp add: sint_uint)
qed

lemma bounce_nat:
  assumes "unat limit < 2 ^ 32" "unat low < 2 ^ 32" "unat p \<le> unat limit" "inc \<or> 0 < unat p" "bounce limit low (p, inc) = (p', inc')"
  shows "unat p' = (if inc then unat p + 1 else unat p - 1)"
    "inc' = (if unat p' \<le> unat low then True else if unat limit \<le> unat p' + 16 then False else inc)"
proof -
  have p': "p' = (if inc then p + 1 else p - 1)" using assms(5) by (auto simp: bounce_def Let_def)
  show u: "unat p' = (if inc then unat p + 1 else unat p - 1)"
  proof (cases inc)
    case True
    then show ?thesis using p' assms(1,3) by (subst p') (simp add: unat_add_nowrap)
  next
    case False
    then have "1 \<le> p" using assms(4) by (simp add: word_le_nat_alt)
    then show ?thesis using False p' by (simp add: unat_sub_nowrap)
  qed
  have small: "unat p' < 2 ^ 33" using u assms(1,3) by (simp split: if_splits)
  then have u16: "unat (p' + 16) = unat p' + 16" by (subst unat_add_nowrap) simp_all
  have i: "sint p' = int (unat p')" "sint (p' + 16) = int (unat p' + 16)" "sint limit = int (unat limit)" "sint low = int (unat low)"
    using small assms(1,2) u16 sint_small [of p'] sint_small [of "p' + 16"] sint_small [of limit] sint_small [of low] by simp_all
  have "inc' = (if sint p' \<le> sint low then True else if sint (p' + 16) \<ge> sint limit then False else inc)"
    using assms(5) unfolding p' by (auto simp: bounce_def Let_def)
  then show "inc' = (if unat p' \<le> unat low then True else if unat limit \<le> unat p' + 16 then False else inc)"
    unfolding i of_nat_le_iff .
qed

lemma bounce_inside:
  assumes "unat limit < 2 ^ 32" "unat low + 16 < unat limit" "inside (unat limit) (unat low) s"
  shows "inside (unat limit) (unat low) (bounce limit low s)"
proof -
  obtain p inc p' inc' where e: "s = (p, inc)" "bounce limit low s = (p', inc')" by (cases s, cases "bounce limit low s") auto
  note i = assms(3) [unfolded inside_def e, simplified]
  have pre: "unat p \<le> unat limit" "inc \<or> 0 < unat p" "unat low < 2 ^ 32" using i assms(1,2) by auto
  note n = bounce_nat [OF assms(1) pre(3,1,2) e(2) [unfolded e(1)]]
  show ?thesis using n i assms(2) unfolding e(2) inside_def by (cases inc) auto
qed

lemma bounce_entering:
  assumes "unat limit < 2 ^ 32" "unat low + 16 < unat limit" "entering (unat limit) n s"
  shows "entering (unat limit) (Suc n) (bounce limit low s) \<or> n = 15 \<and> inside (unat limit) (unat low) (bounce limit low s)"
proof -
  obtain p inc p' inc' where e: "s = (p, inc)" "bounce limit low s = (p', inc')" by (cases s, cases "bounce limit low s") auto
  note i = assms(3) [unfolded entering_def e, simplified]
  have pre: "unat p \<le> unat limit" "inc \<or> 0 < unat p" "unat low < 2 ^ 32" using i assms(1,2) by auto
  note n = bounce_nat [OF assms(1) pre(3,1,2) e(2) [unfolded e(1)]]
  show ?thesis using n i assms(2) unfolding e(2) inside_def entering_def by auto
qed

section \<open>The tasks\<close>

text \<open>What the rounds keep: both coordinates are at most the size of the screen, and the old position is the position.\<close>

definition on_axis :: "nat \<Rightarrow> nat \<Rightarrow> nat \<Rightarrow> u64 \<times> bool \<Rightarrow> bool" where
  "on_axis limit low n s \<longleftrightarrow> inside limit low s \<or> entering limit n s"

lemma bounce_on_axis:
  "unat limit < 2 ^ 32 \<Longrightarrow> unat low + 16 < unat limit \<Longrightarrow> on_axis (unat limit) (unat low) n s \<Longrightarrow>
   on_axis (unat limit) (unat low) (Suc n) (bounce limit low s)"
  using bounce_inside bounce_entering unfolding on_axis_def by blast

definition square_ok :: "Framebuffer \<Rightarrow> nat \<Rightarrow> square \<Rightarrow> bool" where
  "square_ok fb n s \<longleftrightarrow> on_axis (unat (fb_width fb)) (unat (fb_width fb) div 2) n (sq_x s, sq_x_inc s) \<and>
     on_axis (unat (fb_height fb)) 0 n (sq_y s, sq_y_inc s) \<and> sq_old_x s = sq_x s \<and> sq_old_y s = sq_y s"

definition screen_fits :: "Framebuffer \<Rightarrow> bool" where
  "screen_fits fb \<longleftrightarrow> fb_ok fb \<and> 33 \<le> unat (fb_width fb) \<and> unat (fb_width fb) + 16 \<le> 65535 \<and>
     17 \<le> unat (fb_height fb) \<and> unat (fb_height fb) + 16 \<le> 65535"

lemma on_axis_le: "on_axis limit low n s \<Longrightarrow> unat (fst s) \<le> limit"
  by (auto simp: on_axis_def inside_def entering_def)

lemma unat_widen: "unat (ucast w :: u64) = unat w" for w :: u32
  using unat_bound [of w] by (simp add: unsigned_ucast_eq take_bit_nat_eq_self)

lemma half: "unat (w div 2) = unat w div 2" for w :: u32
  by (simp add: unat_div)

lemma square_move_ok:
  assumes fits: "screen_fits fb" and ok: "square_ok fb n s"
  shows "on_axis (unat (fb_width fb)) (unat (fb_width fb) div 2) (Suc n) (sq_x (square_move fb s), sq_x_inc (square_move fb s))"
    and "on_axis (unat (fb_height fb)) 0 (Suc n) (sq_y (square_move fb s), sq_y_inc (square_move fb s))"
proof -
  note u = unat_widen [of "fb_width fb"] unat_widen [of "fb_height fb"] unat_widen [of "fb_width fb div 2", unfolded half]
  have b: "unat (fb_width fb) div 2 + 16 < unat (fb_width fb)" "0 + 16 < unat (fb_height fb)" "unat (fb_width fb) < 2 ^ 32" "unat (fb_height fb) < 2 ^ 32"
    using fits by (auto simp: screen_fits_def)
  have "on_axis (unat (fb_width fb)) (unat (fb_width fb) div 2) (Suc n)
      (bounce (ucast (fb_width fb)) (ucast (fb_width fb div 2)) (sq_x s, sq_x_inc s))"
    using bounce_on_axis [of "ucast (fb_width fb)" "ucast (fb_width fb div 2)" n "(sq_x s, sq_x_inc s)"] b ok unfolding u square_ok_def by blast
  then show "on_axis (unat (fb_width fb)) (unat (fb_width fb) div 2) (Suc n) (sq_x (square_move fb s), sq_x_inc (square_move fb s))"
    by (auto simp: square_move_def Let_def split: prod.splits)
  have "on_axis (unat (fb_height fb)) 0 (Suc n) (bounce (ucast (fb_height fb)) 0 (sq_y s, sq_y_inc s))"
    using bounce_on_axis [of "ucast (fb_height fb)" 0 n "(sq_y s, sq_y_inc s)"] b ok unfolding u square_ok_def by simp
  then show "on_axis (unat (fb_height fb)) 0 (Suc n) (sq_y (square_move fb s), sq_y_inc (square_move fb s))"
    by (auto simp: square_move_def Let_def split: prod.splits)
qed

lemma square_round_ok:
  assumes fits: "screen_fits fb" and ok: "square_ok fb n s"
  shows "\<exists>s' m'. square_round fb c bg s m = Some (s', m') \<and> square_ok fb (Suc n) s'"
proof -
  have le: "unat (sq_x s) \<le> unat (fb_width fb)" "unat (sq_y s) \<le> unat (fb_height fb)"
    using ok on_axis_le by (fastforce simp: square_ok_def)+
  then have u: "unat (ucast (sq_x s) :: u16) + 16 \<le> 65535" "unat (ucast (sq_y s) :: u16) + 16 \<le> 65535"
    using fits by (simp_all add: unat_ucast_16 screen_fits_def)
  have rect: "\<exists>m'. fill_rect fb (ucast (sq_x s)) (ucast (sq_y s)) 16 16 col m = Some m'" for col m
    using fill_rect_returns [of fb 16 "ucast (sq_x s)" 16 "ucast (sq_y s)" col m] u fits by (simp add: screen_fits_def)
  have old: "sq_old_x (square_move fb s) = sq_x s" "sq_old_y (square_move fb s) = sq_y s"
    using ok by (simp_all add: square_move_def square_ok_def Let_def split: prod.splits)
  obtain m1 where m1: "fill_rect fb (ucast (sq_x s)) (ucast (sq_y s)) 16 16 c m = Some m1" using rect by blast
  obtain m2 where m2: "fill_rect fb (ucast (sq_x s)) (ucast (sq_y s)) 16 16 bg m1 = Some m2" using rect by blast
  show ?thesis using square_move_ok [OF fits ok] by (simp add: square_round_def m1 m2 old Let_def square_ok_def)
qed

lemma square_rounds_ok:
  assumes fits: "screen_fits fb" and ok: "square_ok fb k s"
  shows "\<exists>s' m'. square_rounds fb c bg n s m = Some (s', m') \<and> square_ok fb (k + n) s'"
proof (induction n)
  case (Suc n)
  then show ?case using square_round_ok [OF fits] by fastforce
qed (simp add: ok)



end
