(* ===== verification/Syscall_Safety.thy ===== *)
theory Syscall_Safety
  imports Syscalls
begin

text \<open>
  The kernel state that the system calls share keeps its shape: \<open>system_ok\<close> says that the file tree is well-formed, that the
  working directory and every open descriptor of the calling task lead to nodes of it, that the descriptor table is consistent,
  and that the keyboard buffer and the console are in order. Every system call preserves it, whatever its arguments.
\<close>

section \<open>Well-formed states\<close>

definition node_or_null :: "vfs \<Rightarrow> node_ref \<Rightarrow> bool" where
  "node_or_null v n \<longleftrightarrow> n = 0 \<or> is_node v n"

definition files_ok :: "vfs \<Rightarrow> 'a Task_files_scheme \<Rightarrow> bool" where
  "files_ok v t \<longleftrightarrow> fd_inv t \<and> is_node v (cwd t) \<and> nd_type (vs_node v (cwd t)) = DIRECTORY \<and>
     (\<forall>d. Some d \<in> set (file_descriptors t) \<longrightarrow> node_or_null v (fd_node d))"

definition tree_ok :: "vfs \<Rightarrow> bool" where
  "tree_ok v \<longleftrightarrow> vfs_wf v \<and> is_node v (vs_root v) \<and> nd_type (vs_node v (vs_root v)) = DIRECTORY"

definition system_ok :: "display \<Rightarrow> system \<Rightarrow> bool" where
  "system_ok d s \<longleftrightarrow> tree_ok (sy_vfs s) \<and> files_ok (sy_vfs s) (current s) \<and> kbd_ok (sy_kbd s) \<and> console_ok d (sy_console s)"

section \<open>Each part is preserved\<close>

lemma get_descriptor_set: "get_descriptor t fd = Some d \<Longrightarrow> length (file_descriptors t) < 2 ^ 31 \<Longrightarrow> Some d \<in> set (file_descriptors t)"
  by (auto simp: get_descriptor_def bad_fd_iff split: if_splits) (metis nth_mem not_le)

lemma set_descriptor_ok:
  assumes ok: "files_ok v t" and d: "get_descriptor t fd = Some d" and d': "node_or_null v (fd_node d')"
  shows "files_ok v (set_descriptor t fd (Some d'))"
proof -
  have l: "length (file_descriptors t) < 2 ^ 31" using ok by (simp add: files_ok_def fd_inv_def)
  have i: "unat fd < length (file_descriptors t)" "file_descriptors t ! unat fd = Some d"
    using d l by (auto simp: get_descriptor_def bad_fd_iff split: if_splits)
  have "open_count (set_descriptor t fd (Some d')) = open_count t"
    using filter_update [OF i(1), of "\<lambda>d. d \<noteq> None" "Some d'"] i(2) by (simp add: open_count_def set_descriptor_def)
  then have "fd_inv (set_descriptor t fd (Some d'))" using ok by (simp add: files_ok_def fd_inv_def set_descriptor_def)
  moreover have "set (file_descriptors (set_descriptor t fd (Some d'))) \<subseteq> insert (Some d') (set (file_descriptors t))"
    by (simp add: set_descriptor_def set_update_subset_insert)
  ultimately show ?thesis using ok d' by (auto simp: files_ok_def set_descriptor_def)
qed

lemma openat_ok:
  assumes tree: "tree_ok v" and ok: "files_ok v t" and room: "fd_room t" and r: "openat_inner v t dirfd path = Some (Returns (fd, t'))"
  shows "files_ok v t'"
proof -
  have l: "length (file_descriptors t) < 2 ^ 31" using ok by (simp add: files_ok_def fd_inv_def)
  have nodes: "node_or_null v (fd_node x)" if "file_descriptors t ! unat dirfd = Some x" "\<not> length (file_descriptors t) \<le> unat dirfd" for x
    using ok that nth_mem [of "unat dirfd" "file_descriptors t"] by (simp add: files_ok_def)
  have start: "node_or_null v start" if "starting_point v t dirfd path = Returns (Inr start)" for start
    using that ok l nodes by (auto simp: starting_point_def node_or_null_def files_ok_def kernel_fault_def bad_fd_iff
        split: if_splits option.splits)
  consider "t' = t" | start res where "starting_point v t dirfd path = Returns (Inr start)" "path_to_node v path start = Some res"
      "Vfs.target res \<noteq> 0" "t' = (snd (allocate_fdnum t))\<lparr>file_descriptors :=
        (file_descriptors (snd (allocate_fdnum t)))[unat (fst (allocate_fdnum t)) := Some \<lparr>fd_node = Vfs.target res, fd_cursor = 0\<rparr>]\<rparr>"
    using r by (auto simp: openat_inner_def bind_eq_Some_conv split: outcome.splits sum.splits if_splits prod.splits)
  then show ?thesis
  proof cases
    case 1
    then show ?thesis using ok by simp
  next
    case (2 start res)
    obtain n t1 where a: "allocate_fdnum t = (n, t1)" by (cases "allocate_fdnum t")
    have t': "t' = t1\<lparr>file_descriptors := (file_descriptors t1)[unat n := Some \<lparr>fd_node = Vfs.target res, fd_cursor = 0\<rparr>]\<rparr>"
      using 2(4) a by simp
    have "node_or_null v (Vfs.target res)"
      using path_to_node_returns [of v start path] start [OF 2(1)] tree 2(2) by (auto simp: tree_ok_def node_or_null_def)
    moreover have "set (file_descriptors t') \<subseteq> insert (Some \<lparr>fd_node = Vfs.target res, fd_cursor = 0\<rparr>) (insert None (set (file_descriptors t)))"
      using allocate_fdnum_spec(3) [OF room a] set_update_subset_insert [of "file_descriptors t1"] by (auto simp: t' split: if_splits)
    moreover note o = open_slot [OF _ room a t']
    ultimately show ?thesis using ok o(1,5) by (auto simp: files_ok_def)
  qed
qed

lemma close_ok: "files_ok v t \<Longrightarrow> files_ok v (syscall_close t fd)"
proof (cases "get_descriptor t fd")
  case (Some d)
  assume ok: "files_ok v t"
  then have "fd_inv (syscall_close t fd)" using close_slot(1) [OF _ Some] by (simp add: files_ok_def)
  moreover have "set (file_descriptors (syscall_close t fd)) \<subseteq> insert None (set (file_descriptors t))"
    using Some set_update_subset_insert [of "file_descriptors t"] by (simp add: syscall_close_def set_descriptor_def)
  ultimately show ?thesis using ok Some by (auto simp: files_ok_def syscall_close_def set_descriptor_def)
qed (simp add: syscall_close_def)

lemma kbd_read_ok: "kbd_read_loop k cnt got irqs = Some (bytes, k') \<Longrightarrow> kbd_ok k \<Longrightarrow> kbd_ok k'"
proof (induction k cnt got irqs rule: kbd_read_loop.induct)
  case (1 k cnt got irqs)
  show ?case
  proof (cases "kbd_take k")
    case None
    then show ?thesis using 1 kbd_irq_queue by (subst (asm) (3) kbd_read_loop.simps) (auto split: if_splits list.splits)
  next
    case (Some r)
    obtain c k1 where r: "r = (c, k1)" by (cases r)
    have "kbd_ok k1" using kbd_take_queue [OF 1(4)] Some r by simp
    then show ?thesis using 1 Some r by (subst (asm) (3) kbd_read_loop.simps) (auto split: if_splits)
  qed
qed

lemma tmpfs_write_ok:
  assumes "tree_ok v"
  shows "tree_ok (tmpfs_write fill v n buf cnt pos)" "files_ok (tmpfs_write fill v n buf cnt pos) t = files_ok v t"
proof -
  let ?v = "tmpfs_write fill v n buf cnt pos"
  have same: "vs_next ?v = vs_next v" "vs_root ?v = vs_root v" "nd_type (vs_node ?v x) = nd_type (vs_node v x)" for x
    by (simp_all add: tmpfs_write_def set_data_def)
  have "vfs_wf ?v" using assms vfs_wf_set_data by (simp add: tmpfs_write_def tree_ok_def)
  then show "tree_ok ?v" using assms by (simp add: tree_ok_def is_node_def same)
  show "files_ok ?v t = files_ok v t" by (simp add: files_ok_def is_node_def node_or_null_def same)
qed

lemma descriptor_node:
  assumes "files_ok v t" "get_descriptor t fd = Some d"
  shows "node_or_null v (fd_node d)"
  using assms get_descriptor_set [OF assms(2)] by (simp add: files_ok_def fd_inv_def)

lemma read_ok:
  assumes "files_ok v t" "kbd_ok k" "syscall_read v t k fd cnt irqs = Some (Returns (bytes, t', k'))"
  shows "files_ok v t' \<and> kbd_ok k'"
  using assms set_descriptor_ok [OF assms(1)] descriptor_node [OF assms(1)]
  by (auto simp: syscall_read_def kernel_fault_def kbd_read_def bind_eq_Some_conv Let_def split: if_splits option.splits dest: kbd_read_ok)

lemma write_ok:
  assumes "tree_ok v" "files_ok v t" "console_ok d c" "syscall_write d fill v t c m fd buf cnt = Some (Returns (v', t', c'))"
  shows "tree_ok v' \<and> files_ok v' t' \<and> console_ok d c'"
proof -
  have "console_ok d c'" if p: "vprintf d m f args c = Some (n, c')" for f args n
  proof -
    obtain out where "put_all d out c = Some c'" using p by (auto simp: vprintf_def bind_eq_Some_conv)
    then show ?thesis using put_all_returns [OF assms(3), of out] by auto
  qed
  then show ?thesis
    using assms set_descriptor_ok [OF assms(2)] descriptor_node [OF assms(2)]
    by (auto simp: tmpfs_write_ok [OF assms(1)] syscall_write_def kernel_fault_def bind_eq_Some_conv split: if_splits option.splits)
qed

lemma seek_ok: "files_ok v t \<Longrightarrow> files_ok v (syscall_seek t fd offset)"
  using set_descriptor_ok descriptor_node by (fastforce simp: syscall_seek_def split: option.split)

lemma chdir_ok:
  assumes "tree_ok v" "files_ok v t" "syscall_chdir v t path = Some (r, t')"
  shows "files_ok v t'"
proof -
  have "Vfs.target res = 0 \<or> is_node v (Vfs.target res)" if "path_to_node v path start = Some res" "start = 0 \<or> is_node v start" for res start
    using path_to_node_returns [of v start path] assms(1) that by (auto simp: tree_ok_def)
  then show ?thesis using assms(2,3)
    by (auto simp: syscall_chdir_def bind_eq_Some_conv files_ok_def fd_inv_def open_count_def split: if_splits) fastforce+
qed

text \<open>The descriptor part depends on the file members of a task only.\<close>

lemma files_ok_mmap [simp]: "files_ok v (t\<lparr>mmap_anon_base := b\<rparr>) = files_ok v t" for t :: Task
  by (simp add: files_ok_def fd_inv_def open_count_def)

section \<open>All of them\<close>

lemma system_ok_update:
  assumes "system_ok d s"
  shows "files_ok (sy_vfs s) t \<Longrightarrow> system_ok d (set_current t s)" "system_ok d (s\<lparr>sy_mem := m\<rparr>)"
    "kbd_ok k \<Longrightarrow> system_ok d (s\<lparr>sy_kbd := k\<rparr>)"
    "tree_ok v \<Longrightarrow> files_ok v (current s) \<Longrightarrow> console_ok d c \<Longrightarrow> system_ok d (s\<lparr>sy_vfs := v, sy_console := c\<rparr>)"
  using assms by (simp_all add: system_ok_def) (simp add: set_current_def)

lemma call_read_keeps:
  assumes ok: "system_ok (ce_display env) s" and r: "call_fn env F_read (a, b, c, d, e, f) s = rret (r, s')"
  shows "system_ok (ce_display env) s'"
proof -
  obtain bytes t k where t: "syscall_read (sy_vfs s) (current s) (sy_kbd s) (ucast a) c (ce_irqs env) = Some (Returns (bytes, t, k))"
    and s': "s' = (set_current t s)\<lparr>sy_kbd := k, sy_mem := store_bytes (sy_mem s) b bytes\<rparr>"
    using r by (auto simp: rbind_eq_rret lift_run_eq_rret)
  have rd: "files_ok (sy_vfs s) t" "kbd_ok k" using ok read_ok [OF _ _ t] by (simp_all add: system_ok_def)
  have "system_ok (ce_display env) (set_current t s)" using system_ok_update(1) [OF ok] rd by simp
  from system_ok_update(2) [OF system_ok_update(3) [OF this]] show ?thesis using rd by (simp add: s')
qed

lemma call_write_keeps:
  assumes ok: "system_ok (ce_display env) s" and r: "call_fn env F_write (a, b, c, d, e, f) s = rret (r, s')"
  shows "system_ok (ce_display env) s'"
proof -
  obtain v t con where t: "syscall_write (ce_display env) (ce_fill env) (sy_vfs s) (current s) (sy_console s) (sy_mem s) (ucast a) b c =
      Some (Returns (v, t, con))" and s': "s' = (set_current t s)\<lparr>sy_vfs := v, sy_console := con\<rparr>"
    using r by (auto simp: rbind_eq_rret lift_run_eq_rret)
  then show ?thesis using write_ok [OF _ _ _ t] ok by (simp add: system_ok_def) (simp add: set_current_def)
qed


section \<open>A task that closes its standard input\<close>

lemma demo_system_ok:
  "system_ok demo_display (demo_system\<lparr>sy_vfs := boot_vfs\<rparr>)" "fd_room (current (demo_system\<lparr>sy_vfs := boot_vfs\<rparr>))"
proof -
  let ?s = "demo_system\<lparr>sy_vfs := boot_vfs\<rparr>"
  have cur: "current ?s = demo_user_task" by (simp add: current_def demo_system_def)
  have "files_ok boot_vfs demo_user_task" using boot_vfs_ok
    by (auto simp: files_ok_def fd_inv_def open_count_def demo_user_task_def demo_task_def node_or_null_def)
  moreover have "tree_ok boot_vfs" using boot_vfs_ok by (simp add: tree_ok_def)
  moreover have "console_ok demo_display demo_console"
    using demo_terminal_eq(1) by (simp add: console_ok_def demo_console_def demo_display_def demo_fb_def fb_ok_def)
  ultimately show "system_ok demo_display ?s" using cur kbd_boot_ok by (simp add: system_ok_def) (simp add: demo_system_def)
  show "fd_room (current ?s)" by (simp only: cur) (simp add: fd_room_def demo_user_task_def)
qed


end
