(* ===== verification/Gates.thy ===== *)
theory Gates
  imports Syscalls
begin

text \<open>
  Interrupt entry and exit: the wrappers of \<^verbatim>\<open>src/cpu/interrupts/gate_wrappers.asm\<close> and \<^verbatim>\<open>__idt_handler_common\<close> of
  \<^verbatim>\<open>src/cpu/interrupts/idt.cpp\<close>, which calls the handlers of the other components. The interrupt stack is the list of the words on
  it, the top first. \<open>gate\<close> is a whole interrupt, from the instruction that is interrupted to the one that runs
  after \<^verbatim>\<open>iretq\<close>; the messages of the handlers are left out.
\<close>

unbundle bit_operations_syntax

section \<open>Definitions\<close>

definition has_errcode :: "u64 \<Rightarrow> bool" where
  "has_errcode v \<longleftrightarrow> v = 8 \<or> (v \<ge> 10 \<and> v \<le> 14) \<or> v = 17 \<or> v = 21"

text \<open>What the processor pushes before it jumps to the wrapper; \<open>code\<close> is the error code, for the exceptions that have one.\<close>

definition cpu_pushes :: "u64 option \<Rightarrow> InterruptState \<Rightarrow> u64 list" where
  "cpu_pushes code g = (case code of None \<Rightarrow> [] | Some e \<Rightarrow> [e]) @ [r_rip g, r_cs g, r_rflags g, r_rsp g, r_ss g]"

definition idt_wrapper :: "u64 \<Rightarrow> u64 list \<Rightarrow> u64 list" where
  "idt_wrapper v st = v # (if has_errcode v then st else 0 # st)"

text \<open>The structure that the second argument of a handler points to, and the pops on the way out.\<close>

definition state_at :: "u64 list \<Rightarrow> InterruptState" where
  "state_at st =
     \<lparr>r_ds = st ! 0, r_es = st ! 1, r_r15 = st ! 2, r_r14 = st ! 3, r_r13 = st ! 4, r_r12 = st ! 5, r_r11 = st ! 6, r_r10 = st ! 7,
      r_r9 = st ! 8, r_r8 = st ! 9, r_rbp = st ! 10, r_rdi = st ! 11, r_rsi = st ! 12, r_rdx = st ! 13, r_rcx = st ! 14,
      r_rbx = st ! 15, r_rax = st ! 16, r_err = st ! 17, r_rip = st ! 18, r_cs = st ! 19, r_rflags = st ! 20, r_rsp = st ! 21,
      r_ss = st ! 22\<rparr>"

definition put_state :: "InterruptState \<Rightarrow> u64 list \<Rightarrow> u64 list" where
  "put_state g st =
     [r_ds g, r_es g, r_r15 g, r_r14 g, r_r13 g, r_r12 g, r_r11 g, r_r10 g, r_r9 g, r_r8 g, r_rbp g, r_rdi g, r_rsi g, r_rdx g,
      r_rcx g, r_rbx g, r_rax g, r_err g, r_rip g, r_cs g, r_rflags g, r_rsp g, r_ss g] @ drop 23 st"

definition iretq :: "u64 list \<Rightarrow> InterruptState \<Rightarrow> InterruptState" where
  "iretq st g = g\<lparr>r_rip := st ! 0, r_cs := st ! 1, r_rflags := st ! 2, r_rsp := st ! 3, r_ss := st ! 4\<rparr>"

type_synonym handler = "u64 \<Rightarrow> InterruptState \<Rightarrow> system \<Rightarrow> (InterruptState \<times> system) run"

definition wrapper_common :: "handler \<Rightarrow> u64 list \<Rightarrow> InterruptState \<times> system \<Rightarrow> (InterruptState \<times> system) run" where
  "wrapper_common h st = (\<lambda>(g, s).
     (let s1 = (if st ! 2 = 0x23 then sys_swapgs s else s);
          vec = st ! 0;
          st1 = [r_ds g, r_es g, r_r15 g, r_r14 g, r_r13 g, r_r12 g, r_r11 g, r_r10 g, r_r9 g, r_r8 g, r_rbp g, r_rdi g, r_rsi g,
                 r_rdx g, r_rcx g, r_rbx g] @ st[0 := r_rax g]
      in rbind (h vec (state_at st1) s1) (\<lambda>(state, s2).
           let st2 = put_state state st1;
               g1 = pop_frame st2 g;
               st3 = drop 18 st2;
               s3 = (if st3 ! 1 = 0x23 then sys_swapgs s2 else s2)
           in rret (iretq st3 g1, s3))))"

definition gate :: "handler \<Rightarrow> u64 \<Rightarrow> u64 option \<Rightarrow> InterruptState \<times> system \<Rightarrow> (InterruptState \<times> system) run" where
  "gate h vec code = (\<lambda>(g, s). wrapper_common h (idt_wrapper vec (cpu_pushes code g)) (g, s))"

subsection \<open>The handlers\<close>

text \<open>What becomes of the interrupted code. \<^verbatim>\<open>exception_handler\<close> reads the number of the running task, so there has to be one.\<close>

definition conclude :: "verdict \<Rightarrow> InterruptState \<Rightarrow> system \<Rightarrow> (InterruptState \<times> system) run" where
  "conclude v state s =
     (case v of
        Resume \<Rightarrow> rret (state, s)
      | Kill_Task name \<Rightarrow> if running (sy_sched s) = 0 then Some kernel_fault
          else Some (Returns (Gone (s\<lparr>sy_sched := dequeue_and_die (sy_sched s)\<rparr>)))
      | Kernel_Panic msg \<Rightarrow> Some (Panics msg))"

definition page_fault :: "uptr \<Rightarrow> handler" where
  "page_fault cr2 vec state s =
     (if r_cs state AND 3 = 3 \<and> running (sy_sched s) = 0 then Some kernel_fault
      else rbind (lift_run (page_fault_handler (pagemap (current s)) (sc_kernel_pagemap (sy_sched s)) vec state cr2 (sc_vmm (sy_sched s))))
             (\<lambda>(v, m). conclude v state (s\<lparr>sy_sched := (sy_sched s)\<lparr>sc_vmm := m\<rparr>\<rparr>)))"

definition tick :: handler where
  "tick vec state s =
     rbind (lift_run (Some (scheduler_isr state (sy_sched s)))) (\<lambda>(state', q). rret (state', s\<lparr>sy_sched := q\<rparr>))"

definition spurious :: handler where
  "spurious vec state s = rret (state, s\<lparr>sy_sched := (sy_sched s)\<lparr>sc_lapic := lapic_eoi (sc_lapic (sy_sched s))\<rparr>\<rparr>)"

text \<open>The handlers of the devices are given by \<open>dev\<close>; an entry that was never set is a null pointer.\<close>

definition idt_handler_common :: "(u8 \<Rightarrow> idt_handler) \<Rightarrow> (uptr \<Rightarrow> handler) \<Rightarrow> uptr \<Rightarrow> handler" where
  "idt_handler_common handlers dev cr2 vec state s =
     (case handlers (ucast vec) of
        No_Handler \<Rightarrow> Some kernel_fault
      | Exception_Handler \<Rightarrow> conclude (exception_handler vec state) state s
      | Page_Fault_Handler \<Rightarrow> page_fault cr2 vec state s
      | Spurious \<Rightarrow> spurious vec state s
      | Scheduler_Isr \<Rightarrow> tick vec state s
      | Handler a \<Rightarrow> dev a vec state s)"

section \<open>The frame\<close>

lemma state_at_put_state [simp]: "state_at (put_state g st) = g"
  by (simp add: state_at_def put_state_def)

lemma pop_put_state [simp]: "pop_frame (put_state g st) g0 = g\<lparr>r_err := r_err g0, r_rip := r_rip g0, r_cs := r_cs g0,
    r_rflags := r_rflags g0, r_rsp := r_rsp g0, r_ss := r_ss g0\<rparr>"
  by (simp add: pop_frame_def put_state_def)

lemma iretq_put_state [simp]: "iretq (drop 18 (put_state g st)) g0 = g0\<lparr>r_rip := r_rip g, r_cs := r_cs g, r_rflags := r_rflags g,
    r_rsp := r_rsp g, r_ss := r_ss g\<rparr>" "drop 18 (put_state g st) ! 1 = r_cs g"
  by (simp_all add: iretq_def put_state_def)

definition error_code :: "u64 option \<Rightarrow> u64" where
  "error_code code = (case code of None \<Rightarrow> 0 | Some e \<Rightarrow> e)"

definition swap_on :: "bool \<Rightarrow> system \<Rightarrow> system" where
  "swap_on b s = (if b then sys_swapgs s else s)"

lemma gate_eq:
  assumes "has_errcode vec \<longleftrightarrow> code \<noteq> None"
  shows "gate h vec code (g, s) =
    rbind (h vec (g\<lparr>r_err := error_code code\<rparr>) (swap_on (r_rip g = 0x23) s)) (\<lambda>(state, s').
      rret (state\<lparr>r_err := r_err g\<rparr>, swap_on (r_cs state = 0x23) s'))"
proof -
  have st: "idt_wrapper vec (cpu_pushes code g) = [vec, error_code code, r_rip g, r_cs g, r_rflags g, r_rsp g, r_ss g]"
    using assms by (cases code) (auto simp: idt_wrapper_def cpu_pushes_def error_code_def)
  have frame: "state_at ([r_ds g, r_es g, r_r15 g, r_r14 g, r_r13 g, r_r12 g, r_r11 g, r_r10 g, r_r9 g, r_r8 g, r_rbp g, r_rdi g,
      r_rsi g, r_rdx g, r_rcx g, r_rbx g] @ [vec, e, r_rip g, r_cs g, r_rflags g, r_rsp g, r_ss g][0 := r_rax g]) = g\<lparr>r_err := e\<rparr>" for e
    by (simp add: state_at_def)
  show ?thesis
    unfolding gate_def wrapper_common_def case_prod_conv st Let_def pop_put_state iretq_put_state frame
    by (auto simp: swap_on_def intro!: rbind_cong)
qed

text \<open>C34. An interrupt calls the handler of its vector with the registers of the interrupted code, the error code of the exceptions that have
  one and 0 for the others, and goes on with the registers that the handler leaves in the frame. The GS bases are
  exchanged on the way out when the code that goes on has the user's code segment. On the way in
  they are exchanged only when the interrupted instruction is at address \<open>0x23\<close>, since the test reads the word below the code segment.\<close>

theorem gate_calls_handler:
  assumes "has_errcode vec \<longleftrightarrow> code \<noteq> None"
  shows "gate (idt_handler_common handlers dev cr2) vec code (g, s) =
    rbind (idt_handler_common handlers dev cr2 vec (g\<lparr>r_err := error_code code\<rparr>) (swap_on (r_rip g = 0x23) s)) (\<lambda>(state, s').
      rret (state\<lparr>r_err := r_err g\<rparr>, swap_on (r_cs state = 0x23) s'))"
  by (rule gate_eq [OF assms])

section \<open>Ticks\<close>

lemma swap_on_simps [simp]:
  "swap_on False s = s" "sc_task (sy_sched (swap_on b s)) = sc_task (sy_sched s)" "queue ts (sy_sched (swap_on b s)) = queue ts (sy_sched s)"
  "read_gs_base (sc_cpu (sy_sched (swap_on True s))) = read_kernel_gs_base (sc_cpu (sy_sched s))"
  "read_kernel_gs_base (sc_cpu (sy_sched (swap_on True s))) = read_gs_base (sc_cpu (sy_sched s))"
  by (simp_all add: swap_on_def sys_swapgs_def queue_def)

lemma gate_tick:
  assumes "handlers (ucast vec) = Scheduler_Isr" and "\<not> has_errcode vec" and "r_rip g \<noteq> 0x23"
    and "scheduler_isr (g\<lparr>r_err := 0\<rparr>) (sy_sched s) = Returns (state, q)"
  shows "gate (idt_handler_common handlers dev cr2) vec None (g, s) =
    rret (state\<lparr>r_err := r_err g\<rparr>, swap_on (r_cs state = 0x23) (s\<lparr>sy_sched := q\<rparr>))"
  using assms gate_eq [of vec None "idt_handler_common handlers dev cr2" g s]
  by (simp add: error_code_def idt_handler_common_def tick_def lift_run_def rret_def rbind_def)

definition user_task :: "Task \<Rightarrow> bool" where
  "user_task t \<longleftrightarrow> r_cs (gpr_state t) = 0x23 \<and> gs_base t = 0"

text \<open>C35. The first time slice of a user program. A tick in kernel code saves what it interrupts and starts the next task of the queue, a
  new user task, with its registers and with the GS bases that a system call needs: the user's own, and the task's address behind it.
  But the next tick, in user code, finds the user's GS base, 0, where it expects the task: nothing is saved, so
  the task will start over from the same registers, and the queue starts over from its first task.\<close>

theorem first_user_slice_lost:
  assumes q: "queue_ok ts (sy_sched s)" and h: "handlers (ucast vec) = Scheduler_Isr" "\<not> has_errcode vec"
    and u: "u = ts ! ((index_of ts (running (sy_sched s)) + 1) mod length ts)" "u \<noteq> running (sy_sched s)"
      "user_task (sc_task (sy_sched s) u)"
    and g: "r_rip g \<noteq> 0x23" "r_rip g' \<noteq> 0x23"
  shows "\<exists>s1 s2 r2. gate (idt_handler_common handlers dev cr2) vec None (g, s) =
        rret ((gpr_state (sc_task (sy_sched s) u))\<lparr>r_err := r_err g\<rparr>, s1) \<and>
     gpr_state (sc_task (sy_sched s1) (running (sy_sched s))) = g\<lparr>r_err := 0\<rparr> \<and>
     read_gs_base (sc_cpu (sy_sched s1)) = 0 \<and> read_kernel_gs_base (sc_cpu (sy_sched s1)) = u \<and>
     gate (idt_handler_common handlers dev cr2) vec None (g', s1) = rret (r2, s2) \<and>
     r2 = (gpr_state (sc_task (sy_sched s1) (hd ts)))\<lparr>r_err := r_err g'\<rparr> \<and> sc_task (sy_sched s2) = sc_task (sy_sched s1) \<and>
     gpr_state (sc_task (sy_sched s2) u) = gpr_state (sc_task (sy_sched s) u)"
proof -
  let ?S = "sy_sched s" and ?H = "idt_handler_common handlers dev cr2"
  let ?r = "g\<lparr>r_err := 0\<rparr>"
  have qs: "queue ts ?S" "running ?S \<noteq> 0" using q by (auto simp: queue_ok_def queue_def)
  have "queue_ok ts (save_task ?r (?S\<lparr>sc_lapic := apic_stop (sc_lapic ?S)\<rparr>))" using q by (simp add: queue_ok_def)
  from pick_member [OF this]
  have "pick_next (save_task ?r (?S\<lparr>sc_lapic := apic_stop (sc_lapic ?S)\<rparr>)) = Returns u" by (simp add: u(1))
  then obtain q1 where q1: "scheduler_isr ?r ?S = Returns (gpr_state (sc_task q1 u), q1)" "running q1 = u" "queue ts q1 = queue ts ?S"
    "sc_task q1 = sc_task (save_task ?r ?S)"
    "r_cs (gpr_state (sc_task q1 u)) AND 3 = 3 \<Longrightarrow> read_kernel_gs_base (sc_cpu q1) = gs_base (sc_task q1 u)"
    by (rule scheduler_isr_picks) (rule that; blast)
  have task: "sc_task q1 u = sc_task ?S u" using u(2) q1(4) by (simp add: save_task_def running_def Let_def)
  have "read_kernel_gs_base (sc_cpu q1) = 0" using q1(5) u(3) by (simp add: task user_task_def)
  define s1 where "s1 = swap_on True (s\<lparr>sy_sched := q1\<rparr>)"
  have s1: "read_gs_base (sc_cpu (sy_sched s1)) = 0" "read_kernel_gs_base (sc_cpu (sy_sched s1)) = u" "queue ts (sy_sched s1)"
    "sc_task (sy_sched s1) = sc_task q1"
    using \<open>read_kernel_gs_base (sc_cpu q1) = 0\<close> q1(2,3) qs(1) by (simp_all add: s1_def running_def)
  have first: "gate ?H vec None (g, s) = rret ((gpr_state (sc_task ?S u))\<lparr>r_err := r_err g\<rparr>, s1)"
    using gate_tick [of handlers vec g s "gpr_state (sc_task q1 u)" q1 dev cr2] h g(1) q1(1) u(3) by (simp add: task s1_def user_task_def)
  let ?T = "sy_sched s1" and ?r' = "g'\<lparr>r_err := 0\<rparr>"
  have idle: "save_task ?r' x = x" if "running x = 0" for x using that by (simp add: save_task_def running_def)
  have "ts \<noteq> []" using q by (auto simp: queue_ok_def)
  then have "pick_next (save_task ?r' (?T\<lparr>sc_lapic := apic_stop (sc_lapic ?T)\<rparr>)) = Returns (hd ts)"
    using pick_first [of ts "?T\<lparr>sc_lapic := apic_stop (sc_lapic ?T)\<rparr>"] s1 by (cases ts) (simp_all add: idle running_def)
  then obtain q2 where q2: "scheduler_isr ?r' ?T = Returns (gpr_state (sc_task q2 (hd ts)), q2)" "sc_task q2 = sc_task (save_task ?r' ?T)"
    by (rule scheduler_isr_picks) (rule that; blast)
  have st: "sc_task q2 = sc_task ?T" using q2(2) s1(1) by (simp add: idle running_def)
  have saved: "gpr_state (sc_task ?T (running ?S)) = ?r" using save_task_saved [OF qs(2)] s1(4) q1(4) by simp
  have second: "gate ?H vec None (g', s1) = rret ((gpr_state (sc_task q2 (hd ts)))\<lparr>r_err := r_err g'\<rparr>, swap_on (r_cs (gpr_state (sc_task q2 (hd ts))) = 0x23) (s1\<lparr>sy_sched := q2\<rparr>))"
    using gate_tick [of handlers vec g' s1 "gpr_state (sc_task q2 (hd ts))" q2 dev cr2] h g(2) q2(1) by blast
  show ?thesis using first second s1 st saved task
    by (intro exI [of _ s1] exI [of _ "swap_on (r_cs (gpr_state (sc_task q2 (hd ts))) = 0x23) (s1\<lparr>sy_sched := q2\<rparr>)"]
        exI [of _ "(gpr_state (sc_task q2 (hd ts)))\<lparr>r_err := r_err g'\<rparr>"]) simp
qed

text \<open>The kernel task at \<open>0x1000\<close> runs, a user task at \<open>0x2000\<close> is next, and vector 32 is the scheduler's.\<close>

definition two_tasks :: system where
  "two_tasks = demo_system\<lparr>sy_sched := demo_sched\<lparr>sc_task := (\<lambda>a. if a = 0x2000 then (demo_task a)\<lparr>gpr_state := zero_state\<lparr>r_cs := 0x23\<rparr>\<rparr>
     else demo_task a)\<rparr>\<rparr>"

definition timer_handlers :: "u8 \<Rightarrow> idt_handler" where
  "timer_handlers = (\<lambda>_. No_Handler)(32 := Scheduler_Isr)"

definition no_devices :: "uptr \<Rightarrow> handler" where
  "no_devices a vec state s = rret (state, s)"

theorem gate_calls_handler_witness:
  "gate (idt_handler_common timer_handlers no_devices 0) 14 (Some 2) (zero_state, two_tasks) = Some kernel_fault"
  using gate_calls_handler [of 14 "Some 2" timer_handlers no_devices 0 zero_state two_tasks]
  by (simp add: has_errcode_def idt_handler_common_def timer_handlers_def kernel_fault_def)

theorem first_user_slice_lost_witness:
  "\<exists>s1 s2 r2. gate (idt_handler_common timer_handlers no_devices 0) 32 None (zero_state, two_tasks) = rret (zero_state\<lparr>r_cs := 0x23\<rparr>, s1) \<and>
     gate (idt_handler_common timer_handlers no_devices 0) 32 None (zero_state\<lparr>r_rip := 0x400000, r_cs := 0x23\<rparr>, s1) = rret (r2, s2) \<and>
     gpr_state (sc_task (sy_sched s2) 0x2000) = zero_state\<lparr>r_cs := 0x23\<rparr>"
proof -
  have q: "queue_ok [0x1000, 0x2000] (sy_sched two_tasks)"
    using demo_queue by (simp add: two_tasks_def queue_ok_def queue_def running_def)
  have r: "running (sy_sched two_tasks) = 0x1000" using demo_running(1) by (simp add: two_tasks_def running_def)
  have t: "gpr_state (sc_task (sy_sched two_tasks) 0x2000) = zero_state\<lparr>r_cs := 0x23\<rparr>" "gs_base (sc_task (sy_sched two_tasks) 0x2000) = 0"
    by (simp_all add: two_tasks_def demo_task_def)
  show ?thesis
    using first_user_slice_lost [OF q, of timer_handlers 32 "0x2000" zero_state "zero_state\<lparr>r_rip := 0x400000, r_cs := 0x23\<rparr>" no_devices 0] t
    by (auto simp: timer_handlers_def has_errcode_def r index_of_def user_task_def zero_state_def)
qed

end
