(* ===== verification/Spec2Isabelle.thy ===== *)
theory Spec2Isabelle
  imports Vector Cpp_Runtime Test_Program Boot Test_Tasks Syscall_Safety Gates
begin

text \<open>
  FishOS is a small x86-64 kernel in C++ with a test program in user space. This is a model of its code, as HOL functions that can be
  evaluated, with proofs of what each part does. Paths are relative to the repository; theories and definitions are named after
  the files and functions they translate.

  \<^bold>\<open>The program.\<close> The boot loader enters \<^verbatim>\<open>_start\<close>, which sets up the page allocator, the page tables, the terminal, the heap, the processors, the
  interrupt controllers found through ACPI, the system call table, the file system, the timer and the scheduler, and starts the kernel thread.
  The kernel thread unpacks a tar archive into the file system and runs \<^verbatim>\<open>/bin/test\<close>. From there on everything is driven by timer
  interrupts, which switch tasks, by page faults, which map memory on demand, by the keyboard interrupt, and by the system calls of the
  program.

  \<^bold>\<open>How it is modelled.\<close> Machine integers are words of their width, so that every wrap-around of the code is one of the model. A struct is
  a record; objects that are shared through pointers live in stores indexed by address (byte memory, list nodes, page table cells, tasks)
  or by a reference (file nodes). A function takes the state it uses and returns it updated. \<open>outcome\<close> is what a call comes to,
  \<open>Returns\<close> a value or \<open>Panics\<close> with the message of \<^verbatim>\<open>panic\<close>. A loop that can run for ever is a \<open>partial_function\<close> into \<open>option\<close>,
  where \<open>None\<close> is the run that never ends; that a call returns is then a part of what is proved about it. Only the hash map's mutual recursion of
  \<^verbatim>\<open>insert\<close> and \<^verbatim>\<open>grow\<close> has fuel: one call of \<^verbatim>\<open>grow\<close> leaves the load so low that the insertions it makes do not grow again, and the
  fuel of \<open>hm_insert\<close> is shown to be enough. What the kernel cannot know is an argument of the model: values of device registers, the contents of
  fresh memory, addresses of objects that \<^verbatim>\<open>new\<close> returns, keys that are pressed. Concurrency is an inductive step relation with one rule
  per atomic action.

  \<^bold>\<open>The theories\<close>, from the bottom up:
  \<^item> \<open>Fish_Prelude\<close>: integer types, \<open>outcome\<close>, counting loops, the functions of \<^verbatim>\<open>src/klib/algorithm.hpp\<close>. \<open>Kmem\<close>: byte memory, the block routines
    of \<^verbatim>\<open>src/klib/mem.asm\<close> and the strings of \<^verbatim>\<open>cstring.cpp\<close>, each with its result for every overlap and every length. \<open>Posix\<close>: the
    error codes.
  \<^item> \<open>Bitmap\<close>, \<open>List_Head\<close>, \<open>Hash_Map\<close>, \<open>Vector\<close>: the containers of \<^verbatim>\<open>src/klib\<close>. A bitmap is a set of indices (locale \<open>bit_store\<close>), an
    intrusive list a ring (locale \<open>intrusive_ring\<close>), the hash map a finite map as long as keys are erased before they are inserted again
    (locale \<open>key_store\<close>), the vector a list.
  \<^item> \<open>Pmm\<close> (\<^verbatim>\<open>src/mem/pmm.cpp\<close>): which pages are free after \<^verbatim>\<open>init\<close>; what \<^verbatim>\<open>alloc_pages\<close> hands out, and exactly when it panics.
    \<open>Buddy_Alloc\<close> (\<^verbatim>\<open>src/mem/allocator.cpp\<close>): the blocks always tile the heap, \<^verbatim>\<open>malloc\<close> returns fresh space, \<^verbatim>\<open>realloc\<close> keeps
    the contents, \<^verbatim>\<open>free\<close> forgets one block (locale \<open>heap_contract\<close>). \<open>Vmm\<close> (\<^verbatim>\<open>src/mem/vmm.cpp\<close>): mapping a page is a point update of the translation that
    the processor computes (over the locale \<open>frame_source\<close> of fresh frames); page faults and \<^verbatim>\<open>mmap\<close>.
  \<^item> \<open>Vfs\<close> (\<^verbatim>\<open>src/fs/vfs.cpp\<close>, \<^verbatim>\<open>tmpfs.cpp\<close>): the invariant of the file tree, path resolution, creation, files as byte lists (locale
    \<open>byte_file\<close>). \<open>Initramfs\<close> (\<^verbatim>\<open>src/fs/initramfs.cpp\<close>): loading an archive against an encoder of archives. \<open>File_Syscalls\<close>: descriptors, reading, writing,
    the working directory.
  \<^item> \<open>Framebuffer\<close>, \<open>Terminal\<close>, \<open>Printf\<close> (\<^verbatim>\<open>src/gfx\<close>, \<^verbatim>\<open>src/klib/cstdio.cpp\<close>): pixels, an abstract terminal of lines and a cursor that the
    drawing code refines, and formatted output. \<open>Test_Tasks\<close>: the two squares of \<^verbatim>\<open>src/sched/sched.cpp\<close>, which stay on the screen.
  \<^item> \<open>Spinlock\<close> (\<^verbatim>\<open>src/klib/lock.hpp\<close>) and \<open>Cpp_Runtime\<close> (\<^verbatim>\<open>src/klib/cppruntime.cpp\<close>): mutual exclusion and single initialisation under
    every interleaving. \<open>Keyboard\<close> (\<^verbatim>\<open>src/ps2/kbd\<close>): the ring between interrupt and reader is a queue (locale \<open>bounded_queue\<close>).
  \<^item> \<open>Cpu\<close>, \<open>Cpu_Init\<close>, \<open>Interrupts\<close>, \<open>Gates\<close>, \<open>Timers\<close>, \<open>Acpi\<close> (\<^verbatim>\<open>src/cpu\<close>, \<^verbatim>\<open>src/sched/timer\<close>, \<^verbatim>\<open>src/acpi\<close>): registers and descriptor tables,
    bringing up the processors, interrupt vectors and controllers, entry and exit of interrupts, clocks, and the tables that describe them.
  \<^item> \<open>Elf\<close>, \<open>User_Space\<close>, \<open>Sched\<close> (\<^verbatim>\<open>src/userland/elf.cpp\<close>, \<^verbatim>\<open>src/sched/sched.cpp\<close>): loading a program, its address space and stack, the run queue;
    ticks serve the queued tasks in turn with their own registers (locale \<open>preemptive\<close>), and a task that exits never runs again.
  \<^item> \<open>Syscalls\<close>, \<open>Syscall_Safety\<close>, \<open>Userland\<close> (\<^verbatim>\<open>src/cpu/syscall\<close>, \<^verbatim>\<open>userspace/test/src\<close>): from the stub in the program through the entry code to
    the kernel function; each call does what its kernel function does and nothing else to the registers, keeps the
    kernel state well-formed, and what a program prints arrives on the console.
  \<^item> \<open>Test_Program\<close> (\<^verbatim>\<open>userspace/test/src/test.cpp\<close>): the commands of the test program on top of all this; its file test prints what it wrote to the file, and a block of its memory test finds every integer it stored (\<open>fill_and_check_done\<close>).
  \<^item> \<open>Boot\<close> (\<^verbatim>\<open>src/kernel.cpp\<close>): the whole start-up, composed from the other theories, up to the task that runs \<^verbatim>\<open>/bin/test\<close>.

  \<^bold>\<open>How components meet.\<close> The page tables, the heap's pages, the stacks and the program image take their frames from one \<open>Pmm\<close> state inside the \<open>vmm\<close> record,
  which the scheduler state contains; the run queue and the lists of ranges share one store of list nodes. The locks are not part of the
  other components: they are modelled where they are implemented, and the components' functions are what one processor does
  while it holds the lock.

  \<^bold>\<open>Assumptions.\<close> A fresh file node has a null \<^verbatim>\<open>redirect\<close>, which the constructor leaves uninitialised (\<open>vs_junk\<close> in \<open>Vfs\<close>).
  Theorems about allocation from a well-formed heap or page allocator name that as a hypothesis, and say what happens when there is no room.
  The memory of the components that is reached through different mappings (tables, heap, frames of a program, framebuffer) is kept apart.

  \<^bold>\<open>Not modelled.\<close> The text of progress messages and register dumps; \<^verbatim>\<open>src/limine.hpp\<close> beyond the structures the kernel reads, as it is the boot
  protocol's header; \<^verbatim>\<open>src/ubsan.cpp\<close>, whose handlers are called by the compiler and only panic; \<^verbatim>\<open>src/klib/functional.hpp\<close>, which nothing uses,
  and the type traits of \<^verbatim>\<open>types.hpp\<close>; wrappers of single instructions, which are part of the definitions that call them;
  the table of file system drivers, which nothing reads; the page faults of user code in the runs of the test program; caches and translation buffers.
\<close>

end
